(* ===== verification/Prelude.thy ===== *)
theory Prelude
  imports Main "HOL-Library.Word"
begin

text \<open>
  Shared ground of the development: Go's 64-bit integers, \<^verbatim>\<open>time.Time\<close> and
  \<^verbatim>\<open>time.Duration\<close>, the error values of the packages, and generic lemmas on lists and
  maps.

  \<^item> A Go \<^verbatim>\<open>int\<close>, \<^verbatim>\<open>int64\<close> or \<^verbatim>\<open>time.Duration\<close> is an \<open>int\<close> whose arithmetic
    is wrapped by \<open>w64\<close> wherever the code adds or subtracts values a caller controls; a
    \<^verbatim>\<open>uint64\<close> is a \<open>64 word\<close>.
  \<^item> A \<^verbatim>\<open>time.Time\<close> has a wall clock reading (nanoseconds since the zero time) and, when it
    comes from \<^verbatim>\<open>time.Now\<close>, a monotonic reading; the operations use the one Go uses.
  \<^item> Two collections of rewrite rules: \<open>go_int\<close> removes the wrap-around where the bounds
    are known, \<open>go_time\<close> unfolds the operations on times.
\<close>

section \<open>Signed 64-bit integers\<close>

named_theorems go_int "facts that evaluate 64-bit integer operations"
named_theorems go_time "facts that unfold the operations on times"

type_synonym int64 = int
type_synonym duration = int
type_synonym uint64 = "64 word"

definition in64 :: "int \<Rightarrow> bool" where
  "in64 x \<longleftrightarrow> - (2 ^ 63) \<le> x \<and> x < 2 ^ 63"

text \<open>Two's complement wrap-around: what \<^verbatim>\<open>+\<close>, \<^verbatim>\<open>-\<close> and \<^verbatim>\<open>*\<close> do on \<^verbatim>\<open>int64\<close>.\<close>

definition w64 :: "int \<Rightarrow> int64" where
  "w64 x = (x + 2 ^ 63) mod 2 ^ 64 - 2 ^ 63"

text \<open>Saturation: what \<^verbatim>\<open>Time.Sub\<close> does with a difference that does not fit.\<close>

definition sat64 :: "int \<Rightarrow> int64" where
  "sat64 x = max (- (2 ^ 63)) (min (2 ^ 63 - 1) x)"

text \<open>Go's \<^verbatim>\<open>/\<close> and \<^verbatim>\<open>%\<close> truncate towards zero.\<close>

definition quot :: "int \<Rightarrow> int \<Rightarrow> int" where
  "quot a b = sgn a * sgn b * (\<bar>a\<bar> div \<bar>b\<bar>)"

definition remn :: "int \<Rightarrow> int \<Rightarrow> int" where
  "remn a b = a - b * quot a b"

lemma w64_id [go_int]: "in64 x \<Longrightarrow> w64 x = x"
  by (simp add: w64_def in64_def)

lemma in64_w64 [simp, intro]: "in64 (w64 x)"
proof -
  have "0 \<le> (x + 2 ^ 63) mod 2 ^ 64" and "(x + 2 ^ 63) mod 2 ^ 64 < 2 ^ 64"
    by (rule pos_mod_sign, simp, rule pos_mod_bound, simp)
  then show ?thesis unfolding in64_def w64_def by simp
qed

lemma w64_idem [simp]: "w64 (w64 x) = w64 x"
  by (rule w64_id) simp

lemma w64_add_left [simp]: "w64 (w64 x + y) = w64 (x + y)"
proof -
  have "((x + 2 ^ 63) mod 2 ^ 64 - 2 ^ 63 + y + 2 ^ 63) mod 2 ^ 64 = ((x + 2 ^ 63) mod 2 ^ 64 + y) mod (2 ^ 64 :: int)"
    by (simp add: algebra_simps)
  also have "\<dots> = (x + y + 2 ^ 63) mod 2 ^ 64"
    unfolding mod_add_left_eq by (simp add: algebra_simps)
  finally show ?thesis by (simp add: w64_def)
qed

lemma w64_add_right [simp]: "w64 (y + w64 x) = w64 (y + x)"
  using w64_add_left [of x y] by (simp add: add.commute)

lemma w64_add_mid [simp]: "w64 (y + (w64 x + z)) = w64 (y + (x + z))"
  using w64_add_left [of x "y + z"] by (simp add: add.left_commute)

lemma w64_add_deep [simp]: "w64 (x + (y + w64 z)) = w64 (x + (y + z))"
  using w64_add_right [of "x + y" z] by (simp add: add.assoc)

lemma w64_add_deep_left [simp]: "w64 (x + (y + (w64 z + u))) = w64 (x + (y + (z + u)))"
  using w64_add_mid [of "x + y" z u] by (simp add: add.assoc)

lemma w64_diff_left [simp]: "w64 (w64 x - y) = w64 (x - y)"
  using w64_add_left [of x "- y"] by simp

lemma w64_diff_right: "w64 (x - w64 y) = w64 (x - y)"
proof -
  have "(x - w64 y + 2 ^ 63) mod 2 ^ 64 = (x + 2 ^ 64 - (y + 2 ^ 63) mod 2 ^ 64) mod (2 ^ 64 :: int)"
    by (simp add: w64_def algebra_simps)
  also have "\<dots> = (x + 2 ^ 64 - (y + 2 ^ 63)) mod 2 ^ 64" by (rule mod_diff_right_eq)
  also have "\<dots> = (x - y + 2 ^ 63) mod 2 ^ 64" by (simp add: algebra_simps)
  finally show ?thesis by (simp add: w64_def)
qed

lemma sat64_id [go_int]: "in64 x \<Longrightarrow> sat64 x = x"
  by (auto simp: sat64_def in64_def)

lemma in64_sat64 [simp, intro]: "in64 (sat64 x)"
  by (auto simp: sat64_def in64_def)

lemma sat64_mono: "x \<le> y \<Longrightarrow> sat64 x \<le> sat64 y"
  by (auto simp: sat64_def)

lemma sat64_0 [simp]: "sat64 0 = 0"
  by (simp add: sat64_def)

lemma sat64_nonneg: "0 \<le> x \<Longrightarrow> 0 \<le> sat64 x"
  by (simp add: sat64_def)

lemma quot_nonneg: "0 \<le> a \<Longrightarrow> 0 < b \<Longrightarrow> quot a b = a div b"
  by (cases "a = 0") (auto simp: quot_def sgn_if)

lemma remn_nonneg: "0 \<le> a \<Longrightarrow> 0 < b \<Longrightarrow> remn a b = a mod b"
  by (simp add: remn_def quot_nonneg minus_mult_div_eq_mod)

lemma word_index_less:
  assumes "0 < n" and "n < 2 ^ 64"
  shows "unat ((w :: uint64) mod of_nat n) = unat w mod n"
  using assms by (simp add: unat_mod unat_of_nat take_bit_nat_eq_self)

section \<open>Times\<close>

record gotime =
  wall :: int
  mono :: "int option"

definition second :: duration where "second = 1000000000"
definition millisecond :: duration where "millisecond = 1000000"

text \<open>\<^verbatim>\<open>time.Now()\<close> reads both clocks; \<^verbatim>\<open>time.Time{}\<close> is the zero time.\<close>

definition now_at :: "int \<Rightarrow> int \<Rightarrow> gotime" where
  "now_at w m = \<lparr>wall = w, mono = Some m\<rparr>"

definition zero_time :: gotime where
  "zero_time = \<lparr>wall = 0, mono = None\<rparr>"

text \<open>
  \<open>time_diff\<close> is the exact distance: on the monotonic readings when both times have one,
  on the wall clock otherwise. \<^verbatim>\<open>Before\<close>, \<^verbatim>\<open>After\<close> and \<^verbatim>\<open>Sub\<close> are decided by it.
\<close>

definition time_diff :: "gotime \<Rightarrow> gotime \<Rightarrow> int" where
  "time_diff t u = (case (mono t, mono u) of
       (Some a, Some b) \<Rightarrow> a - b
     | _ \<Rightarrow> wall t - wall u)"

definition time_before :: "gotime \<Rightarrow> gotime \<Rightarrow> bool" where
  "time_before t u \<longleftrightarrow> time_diff t u < 0"

definition time_after :: "gotime \<Rightarrow> gotime \<Rightarrow> bool" where
  "time_after t u \<longleftrightarrow> 0 < time_diff t u"

definition time_sub :: "gotime \<Rightarrow> gotime \<Rightarrow> duration" where
  "time_sub t u = sat64 (time_diff t u)"

definition time_add :: "gotime \<Rightarrow> duration \<Rightarrow> gotime" where
  "time_add t d = \<lparr>wall = wall t + d, mono = map_option (\<lambda>m. m + d) (mono t)\<rparr>"

text \<open>\<^verbatim>\<open>Truncate\<close> counts from the zero time and strips the monotonic reading.\<close>

definition time_truncate :: "gotime \<Rightarrow> duration \<Rightarrow> gotime" where
  "time_truncate t d =
     \<lparr>wall = (if d \<le> 0 then wall t else wall t - wall t mod d), mono = None\<rparr>"

text \<open>Seconds from the zero time (January 1, year 1) to the Unix epoch.\<close>

definition unix_offset :: int where "unix_offset = 62135596800"

definition time_unix :: "gotime \<Rightarrow> int64" where
  "time_unix t = wall t div second - unix_offset"

definition unix_time :: "int64 \<Rightarrow> gotime" where
  "unix_time s = \<lparr>wall = (s + unix_offset) * second, mono = None\<rparr>"

lemmas time_defs = time_before_def time_after_def time_sub_def time_diff_def

lemma mono_truncate [simp]: "mono (time_truncate t d) = None"
  by (simp add: time_truncate_def)

lemma wall_truncate [go_time]: "0 < d \<Longrightarrow> wall (time_truncate t d) = wall t - wall t mod d"
  by (simp add: time_truncate_def)

lemma time_diff_no_mono [go_time]:
  "mono u = None \<Longrightarrow> time_diff t u = wall t - wall u"
  "mono t = None \<Longrightarrow> time_diff t u = wall t - wall u"
  by (auto simp: time_diff_def split: option.splits)

lemma time_diff_now_at [go_time]: "time_diff (now_at w m) (now_at w' m') = m - m'"
  by (simp add: time_diff_def now_at_def)

lemma time_diff_same [simp]: "time_diff t t = 0"
  by (simp add: time_diff_def split: option.splits)

lemma time_sub_same [simp]: "time_sub t t = 0"
  by (simp add: time_sub_def)

lemma now_at_sel [simp]: "wall (now_at w m) = w" "mono (now_at w m) = Some m"
  by (simp_all add: now_at_def)

lemma truncate_eqI: "mono t = None \<Longrightarrow> mono u = None \<Longrightarrow> wall t = wall u \<Longrightarrow> t = (u :: gotime)"
  by (cases t, cases u) simp

text \<open>The start of a window is a multiple of its length, and the window holds the time.\<close>

lemma truncate_dvd: "0 < d \<Longrightarrow> d dvd wall (time_truncate t d)"
  by (simp add: wall_truncate)

lemma truncate_le: "0 < d \<Longrightarrow> wall (time_truncate t d) \<le> wall t"
  by (simp add: wall_truncate)

lemma truncate_gt: "0 < d \<Longrightarrow> wall t < wall (time_truncate t d) + d"
  by (simp add: wall_truncate)

lemma truncate_mono: "0 < d \<Longrightarrow> wall t \<le> wall u \<Longrightarrow>
  wall (time_truncate t d) \<le> wall (time_truncate u d)"
  by (simp add: wall_truncate minus_mod_eq_mult_div zdiv_mono1)

lemma elapsed_in_window:
  assumes "0 < d"
  shows "time_diff t (time_truncate t d) = wall t mod d"
  using assms by (simp add: go_time)

lemma sub_truncate:
  assumes "0 < d" and "in64 d"
  shows "time_sub t (time_truncate t d) = wall t mod d"
proof -
  have "0 \<le> wall t mod d" and "wall t mod d < d"
    using assms by simp_all
  then have "in64 (wall t mod d)"
    using assms unfolding in64_def by linarith
  then show ?thesis
    using assms by (simp add: time_sub_def elapsed_in_window sat64_id)
qed

lemma dvd_gap:
  assumes "d dvd a" and "d dvd b" and "a < (b :: int)" and "0 < d"
  shows "d \<le> b - a"
  using assms by (meson diff_gt_0_iff_gt dvd_diff zdvd_imp_le)

section \<open>Errors\<close>

text \<open>
  The error values of the packages, one constructor per \<^verbatim>\<open>fmt.Errorf\<close> the modelled code
  can return and for the run-time panic it can raise. The wrapping \<^verbatim>\<open>%w\<close> keeps the inner error as an argument.
\<close>

datatype error =
    RateNotPositive
  | UnknownLimiter string
  | ServerAlreadyRegistered string
  | ServerNotFound string
  | NoHealthyServers
  | DivideByZero
  | CloseOfClosedChannel
  | UnknownBalancer string
  | ClientClosed
  | ServerNotRunning
  | AlreadyRunning
  | PoolClosed
  | ConnectionClosed
  | NoTransport
  | ContextDone
  | InvalidConfig string
  | Wrapped string error

section \<open>Lists and maps\<close>

lemma nth_list_update_other: "i \<noteq> j \<Longrightarrow> (xs[i := x]) ! j = xs ! j"
  by simp

lemma filter_empty_iff: "filter P xs = [] \<longleftrightarrow> (\<forall>x\<in>set xs. \<not> P x)"
  by (simp add: filter_empty_conv)

lemma sum_list_map_nonneg: "\<forall>x\<in>set xs. (0::int) \<le> f x \<Longrightarrow> 0 \<le> sum_list (map f xs)"
  by (induction xs) auto

text \<open>
  Goroutines are numbered, and a map says where each one is; \<open>threads P m\<close> are those at a
  place that satisfies \<open>P\<close>.
\<close>

definition threads :: "('p \<Rightarrow> bool) \<Rightarrow> ('t \<rightharpoonup> 'p) \<Rightarrow> 't set" where
  "threads P m = {t. \<exists>p. m t = Some p \<and> P p}"

lemma threads_upd: "threads P (m(t \<mapsto> p)) = (if P p then insert t (threads P m) else threads P m - {t})"
  by (auto simp: threads_def)

lemma threads_empty [simp]: "threads P Map.empty = {}"
  by (simp add: threads_def)

lemma finite_threads: "finite (dom m) \<Longrightarrow> finite (threads P m)"
  by (rule finite_subset [of _ "dom m"]) (auto simp: threads_def)

definition count_threads :: "('p \<Rightarrow> bool) \<Rightarrow> ('t \<rightharpoonup> 'p) \<Rightarrow> int" where
  "count_threads P m = int (card (threads P m))"

text \<open>Moving one goroutine changes the count by the difference of the two places.\<close>

lemma count_threads_upd:
  assumes "finite (dom m)"
  shows "count_threads P (m(t \<mapsto> p)) = count_threads P m + of_bool (P p)
    - of_bool (case m t of Some q \<Rightarrow> P q | None \<Rightarrow> False)"
proof -
  have fin: "finite (threads P m)" using assms by (rule finite_threads)
  have t: "t \<in> threads P m \<longleftrightarrow> (case m t of Some q \<Rightarrow> P q | None \<Rightarrow> False)"
    by (auto simp: threads_def split: option.splits)
  have "0 < card (threads P m)" if "t \<in> threads P m" using fin that card_gt_0_iff by blast
  then show ?thesis
    using fin by (cases "t \<in> threads P m"; cases "P p")
      (auto simp: count_threads_def threads_upd t [symmetric] insert_absorb card_Diff_singleton of_nat_diff)
qed

lemma count_threads_none: "(\<And>t p. m t = Some p \<Longrightarrow> \<not> P p) \<Longrightarrow> count_threads P m = 0"
proof -
  assume "\<And>t p. m t = Some p \<Longrightarrow> \<not> P p"
  then have "threads P m = {}" by (auto simp: threads_def)
  then show ?thesis by (simp add: count_threads_def)
qed

lemma count_threads_empty [simp]: "count_threads P Map.empty = 0"
  by (simp add: count_threads_def)

lemma count_threads_disj:
  assumes "finite (dom m)" and "\<And>p. P p \<Longrightarrow> Q p \<Longrightarrow> False"
  shows "count_threads (\<lambda>p. P p \<or> Q p) m = count_threads P m + count_threads Q m"
proof -
  have "threads (\<lambda>p. P p \<or> Q p) m = threads P m \<union> threads Q m" by (auto simp: threads_def)
  moreover have "threads P m \<inter> threads Q m = {}" using assms(2) by (auto simp: threads_def)
  ultimately show ?thesis
    using assms(1) by (simp add: count_threads_def card_Un_disjoint finite_threads)
qed

section \<open>Decimal numbers in identifiers\<close>

fun show_nat :: "nat \<Rightarrow> string" where
  "show_nat n = (if n < 10 then [char_of (48 + n)] else show_nat (n div 10) @ [char_of (48 + n mod 10)])"

declare show_nat.simps [simp del]

text \<open>\<^verbatim>\<open>%d\<close> of \<^verbatim>\<open>fmt.Sprintf\<close>.\<close>

definition show_int :: "int \<Rightarrow> string" where
  "show_int n = (if n < 0 then ''-'' @ show_nat (nat (- n)) else show_nat (nat n))"

lemma show_nat_not_empty [simp]: "show_nat n \<noteq> []"
  by (subst show_nat.simps) simp

fun read_nat :: "string \<Rightarrow> nat" where
  "read_nat s = foldl (\<lambda>n c. 10 * n + (of_char c - 48)) 0 s"

declare read_nat.simps [simp del]

lemma read_show [simp]: "read_nat (show_nat n) = n"
proof (induction n rule: show_nat.induct)
  case (1 n)
  show ?case
  proof (cases "n < 10")
    case True
    then show ?thesis by (simp add: show_nat.simps [of n] read_nat.simps)
  next
    case False
    then have "show_nat n = show_nat (n div 10) @ [char_of (48 + n mod 10)]" by (subst show_nat.simps) simp
    moreover have "read_nat (show_nat (n div 10)) = n div 10" using 1 False by simp
    moreover have "48 + n mod 10 < 256" using mod_less_divisor [of 10 n] by linarith
    ultimately show ?thesis by (simp add: read_nat.simps)
  qed
qed

lemma show_nat_inj: "show_nat m = show_nat n \<longleftrightarrow> m = n"
  using read_show [of m] read_show [of n] by (cases "m = n") (auto dest: arg_cong [of _ _ read_nat])

lemma show_int_inj: "0 \<le> m \<Longrightarrow> 0 \<le> n \<Longrightarrow> show_int m = show_int n \<longleftrightarrow> m = n"
  by (simp add: show_int_def show_nat_inj eq_nat_nat_iff)

lemma show_nat_digits: "c \<in> set (show_nat n) \<Longrightarrow> c \<noteq> CHR ''-''"
proof (induction n rule: show_nat.induct)
  case (1 n)
  have d: "char_of (48 + k) \<noteq> CHR ''-''" if "k < (10 :: nat)" for k
  proof
    assume e: "char_of (48 + k) = CHR ''-''"
    have "of_char (char_of (48 + k) :: char) = 48 + k" using that by simp
    moreover have "of_char (char_of (48 + k) :: char) = (45 :: nat)" by (simp only: e) simp
    ultimately show False by linarith
  qed
  show ?case
  proof (cases "n < 10")
    case True
    then show ?thesis using 1 d by (simp add: show_nat.simps [of n])
  next
    case False
    then have "show_nat n = show_nat (n div 10) @ [char_of (48 + n mod 10)]" by (subst show_nat.simps) simp
    then show ?thesis using 1 False d [of "n mod 10"] by auto
  qed
qed

end
