(* ===== verification/Types.thy ===== *)
theory Types
  imports Prelude
begin

text \<open>
  The data of \<^verbatim>\<open>pkg/types/types.go\<close> that the components exchange: connection modes,
  requests and responses, server descriptions, rate limiting results and the
  configuration of a limiter. \<^verbatim>\<open>Request.Body\<close> and \<^verbatim>\<open>RateLimiterConfig.ExtraOpts\<close> are
  left out: no code of the repository reads or writes them.
\<close>

datatype connection_mode =
    ConnectionModeReuse
  | ConnectionModePerRequest
  | ConnectionModeHybrid
  | ConnectionModeDedicated

record request =
  req_ID :: string
  req_ClientID :: string
  req_Headers :: "string \<rightharpoonup> string"
  req_Timestamp :: gotime

text \<open>
  Header values that are numbers printed by \<^verbatim>\<open>fmt.Sprintf\<close> stay numbers: \<open>HInt\<close> for
  \<^verbatim>\<open>%d\<close>, \<open>HSeconds\<close> for a duration printed with \<^verbatim>\<open>%.3f\<close> in seconds.
\<close>

datatype header_value = HText string | HInt int64 | HSeconds duration

record response =
  RequestID :: string
  StatusCode :: int
  resp_Headers :: "string \<rightharpoonup> header_value"
  RateLimited :: bool
  ShouldClose :: bool
  resp_Timestamp :: gotime
  ProcessingTime :: duration

record server_info =
  si_ID :: string
  si_Address :: string
  si_Port :: int
  Weight :: int
  Healthy :: bool

record rate_limit_result =
  Allowed :: bool
  Remaining :: int64
  ResetAfter :: duration
  RetryAfter :: duration
  LimitedBy :: string

record rate_limiter_config =
  rl_Type :: string
  Rate :: int64
  Burst :: int64
  Window :: duration
  rl_Shards :: int

text \<open>A \<^verbatim>\<open>RateLimitResult\<close> literal with every field left out, as Go's zero value.\<close>

definition zero_result :: rate_limit_result where
  "zero_result = \<lparr>Allowed = False, Remaining = 0, ResetAfter = 0, RetryAfter = 0, LimitedBy = []\<rparr>"

lemma zero_result_sel [simp]:
  "Allowed zero_result = False" "Remaining zero_result = 0" "ResetAfter zero_result = 0"
  "RetryAfter zero_result = 0" "LimitedBy zero_result = []"
  by (simp_all add: zero_result_def)

text \<open>The calls of the interface \<^verbatim>\<open>MetricsRecorder\<close>.\<close>

datatype recorded =
    RecordRateLimitCheck duration
  | RecordRemoteTokenFetch duration
  | RecordTokenFetchWait duration

end
