(* ===== verification/Shards.thy ===== *)
theory Shards
  imports Types
begin

text \<open>
  \<^verbatim>\<open>baseLimiter\<close> of \<^verbatim>\<open>pkg/ratelimiter/limiter.go\<close>: the sharded key/state store every
  built-in limiter embeds. A shard is the map behind one mutex; a key's shard is chosen by
  its FNV-1a hash. An operation holds the mutex of its key's shard from the lookup to the
  end, so it is one function of the store.

  The locale \<open>keyed_store\<close> is what the limiters need of the store: a lookup returns what
  was last put under the same key and no other key is disturbed.
\<close>

section \<open>The hash\<close>

definition offset64 :: uint64 where "offset64 = 14695981039346656037"
definition prime64 :: uint64 where "prime64 = 1099511628211"

fun fnv1a_loop :: "uint64 \<Rightarrow> string \<Rightarrow> uint64" where
  "fnv1a_loop h [] = h"
| "fnv1a_loop h (c # s) = fnv1a_loop (xor h (of_char c) * prime64) s"

definition fnv1a :: "string \<Rightarrow> uint64" where
  "fnv1a s = fnv1a_loop offset64 s"

section \<open>The store\<close>

record 's base_limiter =
  base_config :: rate_limiter_config
  shards :: "(string \<rightharpoonup> 's) list"
  base_closed :: bool

definition newBaseLimiter :: "rate_limiter_config \<Rightarrow> 's base_limiter" where
  "newBaseLimiter config =
     (let numShards = (if rl_Shards config \<le> 0 then 256 else rl_Shards config)
      in \<lparr>base_config = config, shards = replicate (nat numShards) Map.empty,
          base_closed = False\<rparr>)"

text \<open>\<^verbatim>\<open>getShard\<close> returns a pointer into the slice; the model returns the index.\<close>

definition getShard :: "'s base_limiter \<Rightarrow> string \<Rightarrow> nat" where
  "getShard b key = unat (fnv1a key mod of_nat (length (shards b)))"

definition base_Close :: "'s base_limiter \<Rightarrow> 's base_limiter" where
  "base_Close b = b\<lparr>base_closed := True\<rparr>"

text \<open>\<^verbatim>\<open>shard.state[key]\<close>, \<^verbatim>\<open>shard.state[key] = state\<close> and \<^verbatim>\<open>delete(shard.state, key)\<close>.\<close>

definition shard_get :: "'s base_limiter \<Rightarrow> string \<Rightarrow> 's option" where
  "shard_get b key = (shards b ! getShard b key) key"

definition shard_put :: "'s base_limiter \<Rightarrow> string \<Rightarrow> 's \<Rightarrow> 's base_limiter" where
  "shard_put b key s =
     (let i = getShard b key in b\<lparr>shards := (shards b)[i := (shards b ! i)(key \<mapsto> s)]\<rparr>)"

definition shard_delete :: "'s base_limiter \<Rightarrow> string \<Rightarrow> 's base_limiter" where
  "shard_delete b key =
     (let i = getShard b key in b\<lparr>shards := (shards b)[i := (shards b ! i)(key := None)]\<rparr>)"

definition base_ok :: "'s base_limiter \<Rightarrow> bool" where
  "base_ok b \<longleftrightarrow> 0 < length (shards b) \<and> length (shards b) < 2 ^ 63"

lemma getShard_less: "base_ok b \<Longrightarrow> getShard b key < length (shards b)"
proof -
  assume ok: "base_ok b"
  then have n: "unat (of_nat (length (shards b)) :: uint64) = length (shards b)"
    by (simp add: unat_of_nat take_bit_nat_eq_self base_ok_def)
  have "getShard b key = unat (fnv1a key) mod length (shards b)"
    by (simp add: getShard_def unat_mod n)
  then show ?thesis using ok by (simp add: base_ok_def)
qed

lemma getShard_cong: "length (shards b) = length (shards b') \<Longrightarrow> getShard b key = getShard b' key"
  by (simp add: getShard_def)

lemma base_ok_new: "in64 (rl_Shards config) \<Longrightarrow> base_ok (newBaseLimiter config)"
  by (auto simp: base_ok_def newBaseLimiter_def in64_def Let_def)

lemma shard_get_new: "in64 (rl_Shards config) \<Longrightarrow> shard_get (newBaseLimiter config) key = None"
proof -
  assume "in64 (rl_Shards config)"
  then have "getShard (newBaseLimiter config :: 'a base_limiter) key
    < length (shards (newBaseLimiter config :: 'a base_limiter))"
    by (intro getShard_less base_ok_new)
  then show ?thesis by (auto simp: shard_get_def newBaseLimiter_def Let_def)
qed

lemma base_ok_put [simp]: "base_ok (shard_put b key s) = base_ok b"
  by (simp add: base_ok_def shard_put_def Let_def)

lemma base_ok_delete [simp]: "base_ok (shard_delete b key) = base_ok b"
  by (simp add: base_ok_def shard_delete_def Let_def)

lemma getShard_put [simp]: "getShard (shard_put b k s) key = getShard b key"
  by (rule getShard_cong) (simp add: shard_put_def Let_def)

lemma getShard_delete [simp]: "getShard (shard_delete b k) key = getShard b key"
  by (rule getShard_cong) (simp add: shard_delete_def Let_def)

lemma shard_get_put:
  assumes "base_ok b"
  shows "shard_get (shard_put b k s) key = (if key = k then Some s else shard_get b key)"
  using getShard_less [OF assms, of k] unfolding shard_get_def getShard_put
  by (auto simp: shard_put_def Let_def nth_list_update)

lemma shard_get_delete:
  assumes "base_ok b"
  shows "shard_get (shard_delete b k) key = (if key = k then None else shard_get b key)"
  using getShard_less [OF assms, of k] unfolding shard_get_def getShard_delete
  by (auto simp: shard_delete_def Let_def nth_list_update)

section \<open>The interface of a keyed store\<close>

locale keyed_store =
  fixes get :: "'m \<Rightarrow> 'k \<Rightarrow> 's option"
    and put :: "'m \<Rightarrow> 'k \<Rightarrow> 's \<Rightarrow> 'm"
    and del :: "'m \<Rightarrow> 'k \<Rightarrow> 'm"
    and ok :: "'m \<Rightarrow> bool"
  assumes ok_put: "ok m \<Longrightarrow> ok (put m k s)"
    and ok_del: "ok m \<Longrightarrow> ok (del m k)"
    and get_put: "ok m \<Longrightarrow> get (put m k s) k' = (if k' = k then Some s else get m k')"
    and get_del: "ok m \<Longrightarrow> get (del m k) k' = (if k' = k then None else get m k')"

begin

lemma get_put_same: "ok m \<Longrightarrow> get (put m k s) k = Some s"
  by (simp add: get_put)

lemma get_put_other: "ok m \<Longrightarrow> k' \<noteq> k \<Longrightarrow> get (put m k s) k' = get m k'"
  by (simp add: get_put)

text \<open>Overwriting: the last value put under a key is the one kept.\<close>

lemma get_put_put: "ok m \<Longrightarrow> get (put (put m k s) k t) k' = get (put m k t) k'"
  by (simp add: get_put ok_put)

lemma get_del_put: "ok m \<Longrightarrow> get m k = None \<Longrightarrow> get (del (put m k s) k) k' = get m k'"
  by (simp add: get_put get_del ok_put)

end

interpretation shard_store: keyed_store shard_get shard_put shard_delete base_ok
  by unfold_locales (simp_all add: shard_get_put shard_get_delete)

end
