(* ===== verification/LimiterSpec.thy ===== *)
theory LimiterSpec
  imports Shards
begin

text \<open>
  The \<^verbatim>\<open>RateLimiter\<close> interface of \<^verbatim>\<open>pkg/types/types.go\<close> as the servers use it. A
  limiter is a state \<open>'l\<close>; \<open>allowN l now key n\<close> is \<^verbatim>\<open>AllowN\<close> called when the clock shows
  \<open>now\<close>, and returns the new state with the result or error.

  The locale \<open>rate_limiter\<close> is the contract of the built-in limiters: each has a state per
  key (\<open>view\<close>), \<^verbatim>\<open>AllowN\<close> steps the state of its key only and never fails, \<^verbatim>\<open>Reset\<close> forgets
  one key. From it follows that a run over many keys is, key by key, the run of that key's
  own requests (\<open>run_by_key\<close>), however the keys are spread over shards.
\<close>

type_synonym 'l allow_fun = "'l \<Rightarrow> gotime \<Rightarrow> string \<Rightarrow> int64 \<Rightarrow> 'l \<times> (error + rate_limit_result)"

text \<open>A sequence of calls, in the order their critical sections are entered.\<close>

fun run_allow :: "'l allow_fun \<Rightarrow> 'l \<Rightarrow> (string \<times> gotime \<times> int64) list
    \<Rightarrow> 'l \<times> (string \<times> (error + rate_limit_result)) list" where
  "run_allow allowN l [] = (l, [])"
| "run_allow allowN l ((key, now, n) # rs) =
     (let (l', r) = allowN l now key n; (l'', xs) = run_allow allowN l' rs
      in (l'', (key, r) # xs))"

text \<open>One key's machine on its own, and the part of a list that concerns one key.\<close>

fun solo :: "('s option \<Rightarrow> 'i \<Rightarrow> 's \<times> 'o) \<Rightarrow> 's option \<Rightarrow> 'i list \<Rightarrow> 's option \<times> 'o list" where
  "solo step st [] = (st, [])"
| "solo step st (i # is) =
     (let (s', x) = step st i; (st', xs) = solo step (Some s') is in (st', x # xs))"

definition of_key :: "'k \<Rightarrow> ('k \<times> 'a) list \<Rightarrow> 'a list" where
  "of_key k xs = map snd (filter (\<lambda>p. fst p = k) xs)"

lemma of_key_filter [simp]: "of_key k (filter (\<lambda>p. fst p = k) xs) = of_key k xs"
  by (simp add: of_key_def)

lemma of_key_simps [simp]:
  "of_key k [] = []"
  "of_key k ((k', x) # xs) = (if k' = k then x # of_key k xs else of_key k xs)"
  by (simp_all add: of_key_def)

lemma length_solo [simp]: "length (snd (solo step st is)) = length is"
  by (induction "is" arbitrary: st) (auto simp: solo.simps(2) Let_def case_prod_beta)

lemma solo_Cons_snd:
  "snd (solo step st (i # is)) = snd (step st i) # snd (solo step (Some (fst (step st i))) is)"
  by (simp add: solo.simps(2) Let_def case_prod_beta)

lemma solo_Cons_fst:
  "fst (solo step st (i # is)) = fst (solo step (Some (fst (step st i))) is)"
  by (simp add: solo.simps(2) Let_def case_prod_beta)

declare solo.simps(2) [simp del]

lemma fst_solo_append: "fst (solo step st (is @ js)) = fst (solo step (fst (solo step st is)) js)"
  by (induction "is" arbitrary: st) (simp_all add: solo_Cons_fst)

lemma snd_solo_append:
  "snd (solo step st (is @ js)) = snd (solo step st is) @ snd (solo step (fst (solo step st is)) js)"
  by (induction "is" arbitrary: st) (simp_all add: solo_Cons_snd solo_Cons_fst)

lemma solo_snoc:
  "fst (solo step st (is @ [i])) = Some (fst (step (fst (solo step st is)) i))"
  "snd (solo step st (is @ [i])) = snd (solo step st is) @ [snd (step (fst (solo step st is)) i)]"
  by (simp_all add: fst_solo_append snd_solo_append solo_Cons_fst solo_Cons_snd)

text \<open>An invariant of the per-key state that every step keeps holds along every run.\<close>

lemma solo_invariant:
  assumes "\<And>st i. i \<in> set is \<Longrightarrow> (\<forall>s. st = Some s \<longrightarrow> I s) \<Longrightarrow> I (fst (step st i))"
    and "\<forall>s. st = Some s \<longrightarrow> I s"
  shows "\<forall>s. fst (solo step st is) = Some s \<longrightarrow> I s"
  using assms
proof (induction "is" arbitrary: st)
  case Nil
  then show ?case by simp
next
  case (Cons i "is")
  from Cons.prems have "I (fst (step st i))" by simp
  with Cons.prems(1) show ?case
    unfolding solo_Cons_fst by (intro Cons.IH) auto
qed

text \<open>Two machines whose related states give equal outputs and related states agree.\<close>

lemma solo_bisim:
  assumes step: "\<And>st su i. i \<in> set is \<Longrightarrow> rel_option R st su \<Longrightarrow>
      R (fst (step1 st i)) (fst (step2 su i)) \<and> snd (step1 st i) = snd (step2 su i)"
    and "rel_option R st su"
  shows "snd (solo step1 st is) = snd (solo step2 su is)"
  using assms
proof (induction "is" arbitrary: st su)
  case Nil
  then show ?case by simp
next
  case (Cons i "is")
  have i: "R (fst (step1 st i)) (fst (step2 su i)) \<and> snd (step1 st i) = snd (step2 su i)"
    using Cons.prems by simp
  then have "snd (solo step1 (Some (fst (step1 st i))) is)
      = snd (solo step2 (Some (fst (step2 su i))) is)"
    using Cons.prems(1) by (intro Cons.IH) auto
  with i show ?case by (simp only: solo_Cons_snd)
qed

text \<open>The total cost admitted among the requests that satisfy \<open>P\<close>.\<close>

fun admitted :: "(gotime \<times> int64 \<Rightarrow> bool) \<Rightarrow> (gotime \<times> int64) list \<Rightarrow> rate_limit_result list \<Rightarrow> int" where
  "admitted P (i # is) (r # rs) = (if Allowed r \<and> P i then snd i else 0) + admitted P is rs"
| "admitted P _ _ = 0"

lemma admitted_none: "\<forall>i\<in>set is. \<not> P i \<Longrightarrow> admitted P is rs = 0"
  by (induction P "is" rs rule: admitted.induct) auto

lemma admitted_append:
  "length is = length rs \<Longrightarrow>
    admitted P (is @ js) (rs @ ss) = admitted P is rs + admitted P js ss"
  by (induction "is" rs rule: list_induct2) auto

lemma admitted_snoc:
  "admitted P (is @ [i]) (snd (solo step st (is @ [i]))) =
     admitted P is (snd (solo step st is))
     + (if Allowed (snd (step (fst (solo step st is)) i)) \<and> P i then snd i else 0)"
  by (simp add: solo_snoc admitted_append)

text \<open>What the calls for one key returned; the built-in limiters never return an error.\<close>

definition results_of :: "'l allow_fun \<Rightarrow> 'l \<Rightarrow> string \<Rightarrow> (string \<times> gotime \<times> int64) list
    \<Rightarrow> rate_limit_result list" where
  "results_of allowN l key rs = map projr (of_key key (snd (run_allow allowN l rs)))"

locale rate_limiter =
  fixes allowN :: "'l allow_fun"
    and reset :: "'l \<Rightarrow> string \<Rightarrow> 'l"
    and view :: "'l \<Rightarrow> string \<Rightarrow> 's option"
    and step :: "'l \<Rightarrow> string \<Rightarrow> 's option \<Rightarrow> gotime \<times> int64 \<Rightarrow> 's \<times> rate_limit_result"
    and ok :: "'l \<Rightarrow> bool"
  assumes ok_allowN: "ok l \<Longrightarrow> ok (fst (allowN l now key n))"
    and ok_reset: "ok l \<Longrightarrow> ok (reset l key)"
    and view_allowN: "ok l \<Longrightarrow> view (fst (allowN l now key n)) k =
      (if k = key then Some (fst (step l key (view l key) (now, n))) else view l k)"
    and result_allowN: "ok l \<Longrightarrow> snd (allowN l now key n) = Inr (snd (step l key (view l key) (now, n)))"
    and step_allowN: "step (fst (allowN l now key n)) = step l"
    and view_reset: "ok l \<Longrightarrow> view (reset l key) k = (if k = key then None else view l k)"
    and step_reset: "step (reset l key) = step l"
begin

lemma ok_run: "ok l \<Longrightarrow> ok (fst (run_allow allowN l rs))"
proof (induction rs arbitrary: l)
  case (Cons r rs)
  then show ?case by (cases r) (simp add: ok_allowN case_prod_beta Let_def)
qed simp

lemma step_run: "step (fst (run_allow allowN l rs)) = step l"
proof (induction rs arbitrary: l)
  case (Cons r rs)
  then show ?case by (cases r) (simp add: step_allowN case_prod_beta Let_def)
qed simp

lemma run_by_key:
  "ok l \<Longrightarrow> view (fst (run_allow allowN l rs)) k = fst (solo (step l k) (view l k) (of_key k rs))
    \<and> of_key k (snd (run_allow allowN l rs)) = map Inr (snd (solo (step l k) (view l k) (of_key k rs)))"
proof (induction rs arbitrary: l)
  case Nil
  then show ?case by simp
next
  case (Cons r rs)
  obtain key now n where r: "r = (key, now, n)" by (cases r)
  have "ok (fst (allowN l now key n))" using Cons.prems by (rule ok_allowN)
  from Cons.IH [OF this] Cons.prems show ?case
    by (cases "key = k")
      (auto simp: r view_allowN result_allowN step_allowN solo.simps(2) case_prod_beta Let_def)
qed

lemma run_results:
  "ok l \<Longrightarrow> of_key k (snd (run_allow allowN l rs)) = map Inr (snd (solo (step l k) (view l k) (of_key k rs)))"
  by (simp add: run_by_key)

lemma results_of_solo:
  "ok l \<Longrightarrow> results_of allowN l k rs = snd (solo (step l k) (view l k) (of_key k rs))"
  by (simp add: results_of_def run_results o_def)

lemma run_view:
  "ok l \<Longrightarrow> view (fst (run_allow allowN l rs)) k = fst (solo (step l k) (view l k) (of_key k rs))"
  by (simp add: run_by_key)

text \<open>What one key is told depends on its own requests only.\<close>

lemma isolation:
  "ok l \<Longrightarrow> of_key k (snd (run_allow allowN l rs)) =
    of_key k (snd (run_allow allowN l (filter (\<lambda>r. fst r = k) rs)))"
  by (simp add: run_results)

text \<open>Limiters that step alike and start alike answer alike, however they store their keys.\<close>

lemma same_start:
  "ok a \<Longrightarrow> ok b \<Longrightarrow> step a = step b \<Longrightarrow> (\<And>k. view a k = view b k) \<Longrightarrow>
    snd (run_allow allowN a rs) = snd (run_allow allowN b rs)"
proof (induction rs arbitrary: a b)
  case (Cons r rs)
  obtain key now n where r: "r = (key, now, n)" by (cases r)
  have "snd (run_allow allowN (fst (allowN a now key n)) rs) = snd (run_allow allowN (fst (allowN b now key n)) rs)"
    using Cons.prems by (intro Cons.IH) (simp_all add: ok_allowN step_allowN view_allowN)
  with Cons.prems show ?case by (simp add: r result_allowN case_prod_beta Let_def)
qed simp

text \<open>A run never returns an error.\<close>

lemma run_no_error: "ok l \<Longrightarrow> (k, x) \<in> set (snd (run_allow allowN l rs)) \<Longrightarrow> \<exists>r. x = Inr r"
proof (induction rs arbitrary: l)
  case (Cons r rs)
  obtain key now n where r: "r = (key, now, n)" by (cases r)
  show ?case
    using Cons.prems Cons.IH [OF ok_allowN [OF Cons.prems(1), of now key n]]
    by (auto simp: r result_allowN case_prod_beta Let_def)
qed simp

end

section \<open>Two limiters that give the same answers\<close>

text \<open>
  A simulation between two limiters: \<open>linked\<close> relates their configurations and \<open>R\<close> the
  states of a key. Related limiters answer every sequence of good calls alike.
\<close>

locale limiter_simulation =
  A: rate_limiter allowA resetA viewA stepA okA +
  B: rate_limiter allowB resetB viewB stepB okB
  for allowA :: "'a allow_fun" and resetA and viewA :: "'a \<Rightarrow> string \<Rightarrow> 's option" and stepA okA
    and allowB :: "'b allow_fun" and resetB and viewB :: "'b \<Rightarrow> string \<Rightarrow> 't option" and stepB okB +
  fixes linked :: "'a \<Rightarrow> 'b \<Rightarrow> bool" and good :: "'a \<Rightarrow> gotime \<times> int64 \<Rightarrow> bool"
    and R :: "'a \<Rightarrow> 's \<Rightarrow> 't \<Rightarrow> bool"
  assumes linked_allowN: "linked a b \<Longrightarrow> linked (fst (allowA a now key n)) (fst (allowB b now key n))"
    and good_allowN: "good (fst (allowA a now key n)) = good a"
    and R_allowN: "R (fst (allowA a now key n)) = R a"
    and sim_step: "okA a \<Longrightarrow> okB b \<Longrightarrow> linked a b \<Longrightarrow> good a i \<Longrightarrow> rel_option (R a) st su \<Longrightarrow>
      R a (fst (stepA a key st i)) (fst (stepB b key su i))
      \<and> snd (stepA a key st i) = snd (stepB b key su i)"
begin

lemma same_answers:
  assumes "okA a" and "okB b" and "linked a b" and "\<forall>(key, i)\<in>set rs. good a i"
    and "\<forall>key. rel_option (R a) (viewA a key) (viewB b key)"
  shows "snd (run_allow allowA a rs) = snd (run_allow allowB b rs)"
  using assms
proof (induction rs arbitrary: a b)
  case Nil
  then show ?case by simp
next
  case (Cons r rs)
  obtain key now n where r: "r = (key, now, n)" by (cases r)
  have i: "R a (fst (stepA a key (viewA a key) (now, n))) (fst (stepB b key (viewB b key) (now, n)))
      \<and> snd (stepA a key (viewA a key) (now, n)) = snd (stepB b key (viewB b key) (now, n))"
    using Cons.prems by (intro sim_step) (auto simp: r)
  let ?a = "fst (allowA a now key n)" and ?b = "fst (allowB b now key n)"
  have "snd (run_allow allowA ?a rs) = snd (run_allow allowB ?b rs)"
    using Cons.prems i
    by (intro Cons.IH)
      (auto simp: A.ok_allowN B.ok_allowN linked_allowN good_allowN R_allowN A.view_allowN B.view_allowN)
  moreover have "snd (allowA a now key n) = snd (allowB b now key n)"
    using Cons.prems i by (simp add: A.result_allowN B.result_allowN)
  ultimately show ?case by (simp add: r case_prod_beta Let_def)
qed

end

section \<open>A sample configuration and run\<close>

text \<open>Two requests per 100 ms, four shards; three keys' worth of calls in two windows.\<close>

definition demo_config :: rate_limiter_config where
  "demo_config = \<lparr>rl_Type = ''fixed_window'', Rate = 2, Burst = 2, Window = 100000000, rl_Shards = 4\<rparr>"

definition demo_requests :: "(string \<times> gotime \<times> int64) list" where
  "demo_requests =
     [(''a'', now_at 0 0, 1), (''b'', now_at 0 0, 1), (''a'', now_at 10 10, 1),
      (''a'', now_at 20 20, 1), (''c'', now_at 30 30, 2), (''a'', now_at 100000005 100000005, 1)]"

end
