(* ===== verification/GoFloat.thy ===== *)
theory GoFloat
  imports Prelude "HOL-Library.Log_Nat" Complex_Main
begin

text \<open>
  Go's \<^verbatim>\<open>float64\<close>: IEEE 754 double precision with round to nearest, ties to even. A
  finite double is the rational number it stands for, and every operation is the exact
  operation followed by \<open>rnd\<close>. Gradual underflow is modelled (the exponent stops at
  -1074). Overflow to infinity is not: every double of the program is built from 64-bit
  integers, sums and products of them and quotients by positive rates, far below the
  largest double. Products are rounded before they are added, as on amd64 (no fused
  multiply-add).

  The lemmas give the laws the components use: rounding is monotone, exact on every
  representable number (all integers up to 2^53 among them) and idempotent, and its error
  is bounded. The locale \<open>rounding\<close> is the interface; \<open>rnd\<close> interprets it.
\<close>

section \<open>The rounding function\<close>

type_synonym float64 = rat

text \<open>The exponent of the leading bit of a positive rational.\<close>

definition floor_log2 :: "rat \<Rightarrow> int" where
  "floor_log2 x = (case quotient_of x of (p, q) \<Rightarrow>
     let e = bitlen p - bitlen q
     in if 2 powi e \<le> x then e else e - 1)"

definition round_half_even :: "rat \<Rightarrow> int" where
  "round_half_even x =
     (let f = \<lfloor>x\<rfloor>; d = x - of_int f
      in if d < 1 / 2 then f else if 1 / 2 < d then f + 1
         else if even f then f else f + 1)"

text \<open>The exponent of the last of the 53 bits of the significand.\<close>

definition ulp_exp :: "rat \<Rightarrow> int" where
  "ulp_exp x = max (floor_log2 \<bar>x\<bar> - 52) (- 1074)"

definition rnd :: "rat \<Rightarrow> float64" where
  "rnd x = (if x = 0 then 0
     else of_int (round_half_even (x / 2 powi ulp_exp x)) * 2 powi ulp_exp x)"

definition representable :: "rat \<Rightarrow> bool" where
  "representable x \<longleftrightarrow> (\<exists>m k. x = of_int m * 2 powi k \<and> \<bar>m\<bar> \<le> 2 ^ 53 \<and> - 1074 \<le> k)"

section \<open>The exponent\<close>

lemma bitlen_powi:
  assumes "0 < p"
  shows "2 powi (bitlen p - 1) \<le> (of_int p :: rat)" and "(of_int p :: rat) < 2 powi bitlen p"
proof -
  have b: "0 < bitlen p"
    using bitlen_bounds [OF assms] assms bitlen_nonneg [of p] by (cases "bitlen p = 0") auto
  have lo: "2 ^ nat (bitlen p - 1) \<le> p" and hi: "p < 2 ^ nat (bitlen p)"
    using bitlen_bounds [OF assms] by simp_all
  from lo have "(of_int (2 ^ nat (bitlen p - 1)) :: rat) \<le> of_int p"
    by (simp only: of_int_le_iff)
  then show "2 powi (bitlen p - 1) \<le> (of_int p :: rat)"
    using b by (simp add: power_int_def)
  from hi have "(of_int p :: rat) < of_int (2 ^ nat (bitlen p))"
    by (simp only: of_int_less_iff)
  then show "(of_int p :: rat) < 2 powi bitlen p"
    using b by (simp add: power_int_def)
qed

lemma powi2_mono: "a \<le> b \<Longrightarrow> (2 :: rat) powi a \<le> 2 powi b"
  by (simp add: power_int_increasing)

lemma powi2_less_iff: "(2 :: rat) powi a < 2 powi b \<longleftrightarrow> a < b"
  by (metis linorder_not_le one_less_numeral_iff power_int_increasing
      power_int_strict_increasing semiring_norm(76) nle_le)

lemma powi2_split: "(2 :: rat) powi (a + b) = 2 powi a * 2 powi b"
  by (simp add: power_int_add)

lemma powi2_int: "0 \<le> k \<Longrightarrow> (2 :: rat) powi k = of_int (2 ^ nat k)"
  by (simp add: power_int_def)

lemma floor_log2_bounds:
  assumes "0 < x"
  shows "2 powi floor_log2 x \<le> x" and "x < 2 powi (floor_log2 x + 1)"
proof -
  obtain p q where pq: "quotient_of x = (p, q)" by fastforce
  have q: "0 < q" using pq by (rule quotient_of_denom_pos)
  have x: "x = of_int p / of_int q" using pq by (rule quotient_of_div)
  have p: "0 < p" using assms q x by (simp add: zero_less_divide_iff)
  let ?e = "bitlen p - bitlen q"
  have "of_int p < (2::rat) powi (?e + 1) * 2 powi (bitlen q - 1)"
    using bitlen_powi(2) [OF p] by (simp flip: powi2_split)
  also have "\<dots> \<le> 2 powi (?e + 1) * of_int q"
    using bitlen_powi(1) [OF q] by simp
  finally have hi: "x < 2 powi (?e + 1)"
    using q x by (simp add: divide_less_eq)
  have "(2::rat) powi (?e - 1) * of_int q \<le> 2 powi (?e - 1) * 2 powi bitlen q"
    using bitlen_powi(2) [OF q] by simp
  also have "\<dots> \<le> of_int p"
    using bitlen_powi(1) [OF p] by (simp flip: powi2_split)
  finally have lo: "2 powi (?e - 1) \<le> x"
    using q x by (simp add: le_divide_eq)
  show "2 powi floor_log2 x \<le> x" and "x < 2 powi (floor_log2 x + 1)"
    using lo hi by (auto simp: floor_log2_def pq Let_def)
qed

lemma floor_log2_mono:
  assumes "0 < x" and "x \<le> y"
  shows "floor_log2 x \<le> floor_log2 y"
proof -
  have "2 powi floor_log2 x \<le> x" by (rule floor_log2_bounds) (rule assms)
  also have "x \<le> y" by (rule assms)
  also have "y < 2 powi (floor_log2 y + 1)" using assms by (intro floor_log2_bounds) simp
  finally show ?thesis by (simp add: powi2_less_iff)
qed

lemma floor_log2_less:
  assumes "0 < x" and "x < 2 powi k"
  shows "floor_log2 x < k"
  using floor_log2_bounds(1) [OF assms(1)] assms(2) powi2_less_iff by (meson le_less_trans)

section \<open>Rounding to an integer\<close>

lemma round_half_even_int [simp]: "round_half_even (of_int n) = n"
  by (simp add: round_half_even_def)

lemma round_half_even_err: "\<bar>of_int (round_half_even x) - x\<bar> \<le> 1 / 2"
proof -
  have "of_int \<lfloor>x\<rfloor> \<le> x" "x < of_int \<lfloor>x\<rfloor> + 1"
    by (rule of_int_floor_le) linarith
  then show ?thesis
    unfolding round_half_even_def Let_def abs_if
    by (simp split: if_splits) linarith?
qed

lemma round_half_even_mono:
  assumes "x \<le> y"
  shows "round_half_even x \<le> round_half_even y"
proof (cases "\<lfloor>x\<rfloor> = \<lfloor>y\<rfloor>")
  case True
  then show ?thesis
    using assms by (auto simp: round_half_even_def Let_def)
next
  case False
  with assms have "\<lfloor>x\<rfloor> < \<lfloor>y\<rfloor>"
    by (simp add: floor_mono order_less_le)
  moreover have "round_half_even x \<le> \<lfloor>x\<rfloor> + 1" and "\<lfloor>y\<rfloor> \<le> round_half_even y"
    by (auto simp: round_half_even_def Let_def)
  ultimately show ?thesis by simp
qed

lemma round_half_even_minus: "round_half_even (- x) = - round_half_even x"
proof (cases "x = of_int \<lfloor>x\<rfloor>")
  case True
  then have "round_half_even x = \<lfloor>x\<rfloor>" "round_half_even (- x) = - \<lfloor>x\<rfloor>"
    by (metis round_half_even_int, metis of_int_minus round_half_even_int)
  then show ?thesis by simp
next
  case False
  then have "\<lfloor>- x\<rfloor> = - \<lfloor>x\<rfloor> - 1"
    by linarith
  then show ?thesis
    by (auto simp: round_half_even_def Let_def)
qed

section \<open>Laws of the rounding\<close>

lemma rnd_0 [simp]: "rnd 0 = 0"
  by (simp add: rnd_def)

lemma rnd_minus: "rnd (- x) = - rnd x"
  by (simp add: rnd_def ulp_exp_def round_half_even_minus)

lemma ulp_exp_le:
  assumes "\<bar>x\<bar> < 2 powi (53 + k)" and "x \<noteq> 0" and "- 1074 \<le> k"
  shows "ulp_exp x \<le> k"
  using floor_log2_less [of "\<bar>x\<bar>" "53 + k"] assms by (simp add: ulp_exp_def)

text \<open>A multiple of the last place is unchanged.\<close>

lemma rnd_multiple:
  assumes "x = of_int m * 2 powi k" and "ulp_exp x \<le> k"
  shows "rnd x = x"
proof (cases "x = 0")
  case False
  let ?q = "ulp_exp x"
  have "x / 2 powi ?q = of_int m * 2 powi (k - ?q)"
    using assms(1) by (simp add: power_int_diff)
  also have "\<dots> = of_int (m * 2 ^ nat (k - ?q))"
    using assms(2) by (simp add: powi2_int)
  finally have z: "x / 2 powi ?q = of_int (m * 2 ^ nat (k - ?q))" .
  have "rnd x = x / 2 powi ?q * 2 powi ?q"
    using False unfolding rnd_def z round_half_even_int by simp
  then show ?thesis by simp
qed simp

lemma rnd_representable:
  assumes "representable x"
  shows "rnd x = x"
proof (cases "x = 0")
  case False
  obtain m k where x: "x = of_int m * 2 powi k" and m: "\<bar>m\<bar> \<le> 2 ^ 53" and k: "- 1074 \<le> k"
    using assms unfolding representable_def by blast
  show ?thesis
  proof (cases "\<bar>m\<bar> < 2 ^ 53")
    case True
    have "\<bar>x\<bar> = of_int \<bar>m\<bar> * 2 powi k" by (simp add: x abs_mult)
    also have "\<dots> < of_int (2 ^ 53) * 2 powi k"
      using True by (intro mult_strict_right_mono) (simp_all only: of_int_less_iff, simp)
    also have "\<dots> = 2 powi (53 + k)" by (simp add: powi2_split powi2_int)
    finally show ?thesis
      using False k x by (intro rnd_multiple [OF x] ulp_exp_le)
  next
    case max: False
    then have m': "m = sgn m * 2 * 2 ^ 52" and "m \<noteq> 0" using m by (auto simp: sgn_if abs_if split: if_splits)
    then have x': "x = of_int (sgn m * 2 ^ 52) * 2 powi (k + 1)"
      by (subst x, subst m') (simp add: powi2_split)
    have "\<bar>x\<bar> = of_int (2 ^ 52) * 2 powi (k + 1)"
      using \<open>m \<noteq> 0\<close> by (simp add: x' abs_mult sgn_if)
    also have "\<dots> < 2 powi (53 + (k + 1))" by (simp add: powi2_split powi2_int)
    finally show ?thesis
      using False k by (intro rnd_multiple [OF x'] ulp_exp_le) auto
  qed
qed simp

lemma representable_int: "\<bar>n\<bar> \<le> 2 ^ 53 \<Longrightarrow> representable (of_int n)"
  unfolding representable_def by (intro exI [of _ n] exI [of _ 0]) simp

lemma rnd_int: "\<bar>n\<bar> \<le> 2 ^ 53 \<Longrightarrow> rnd (of_int n) = of_int n"
  by (intro rnd_representable representable_int)

lemma round_half_even_le_int: "x \<le> of_int n \<Longrightarrow> round_half_even x \<le> n"
  using round_half_even_mono [of x "of_int n"] by simp

lemma round_half_even_ge_int: "of_int n \<le> x \<Longrightarrow> n \<le> round_half_even x"
  using round_half_even_mono [of "of_int n" x] by simp

lemma significand_bound: "\<bar>x\<bar> / 2 powi ulp_exp x \<le> 2 ^ 53"
proof (cases "x = 0")
  case False
  have "\<bar>x\<bar> < 2 powi (floor_log2 \<bar>x\<bar> + 1)"
    using False by (intro floor_log2_bounds) simp
  also have "\<dots> \<le> 2 powi (53 + ulp_exp x)"
    by (intro powi2_mono) (simp add: ulp_exp_def)
  also have "\<dots> = 2 ^ 53 * 2 powi ulp_exp x" by (simp add: powi2_split powi2_int)
  finally show ?thesis by (simp add: divide_le_eq)
qed simp

lemma representable_rnd: "representable (rnd x)"
proof (cases "x = 0")
  case True
  then show ?thesis using representable_int [of 0] by simp
next
  case False
  let ?q = "ulp_exp x" and ?m = "round_half_even (x / 2 powi ulp_exp x)"
  have "\<bar>x / 2 powi ?q\<bar> \<le> of_int (2 ^ 53)"
    using significand_bound [of x] by (simp add: abs_divide)
  then have "x / 2 powi ?q \<le> of_int (2 ^ 53)" and "of_int (- (2 ^ 53)) \<le> x / 2 powi ?q"
    unfolding abs_le_iff by simp_all
  then have "?m \<le> 2 ^ 53" and "- (2 ^ 53) \<le> ?m"
    by (intro round_half_even_le_int, simp, intro round_half_even_ge_int, simp)
  moreover have "- 1074 \<le> ?q" by (simp add: ulp_exp_def)
  ultimately show ?thesis
    using False unfolding representable_def rnd_def by (intro exI [of _ ?m] exI [of _ ?q]) simp
qed

lemma rnd_idem [simp]: "rnd (rnd x) = rnd x"
  by (rule rnd_representable) (rule representable_rnd)

lemma rnd_mono_pos:
  assumes "0 < x" and "x \<le> y"
  shows "rnd x \<le> rnd y"
proof (cases "ulp_exp x = ulp_exp y")
  case True
  have "x / 2 powi ulp_exp y \<le> y / 2 powi ulp_exp y"
    using assms by (simp add: divide_right_mono)
  then show ?thesis
    using assms True unfolding rnd_def
    by (auto intro!: mult_right_mono round_half_even_mono)
next
  case False
  let ?e = "floor_log2 y"
  have e: "floor_log2 x \<le> ?e" by (rule floor_log2_mono) (use assms in auto)
  then have q: "ulp_exp x < ulp_exp y"
    using False assms by (auto simp: ulp_exp_def)
  then have qy: "ulp_exp y = ?e - 52" and lt: "floor_log2 x < ?e"
    using assms e by (auto simp: ulp_exp_def max_def split: if_splits)
  have "x < 2 powi (floor_log2 x + 1)" using assms by (intro floor_log2_bounds)
  also have "\<dots> \<le> 2 powi ?e" using lt by (intro powi2_mono) simp
  finally have "x / 2 powi ulp_exp x \<le> 2 powi (?e - ulp_exp x)"
    by (simp add: power_int_diff divide_right_mono)
  then have "round_half_even (x / 2 powi ulp_exp x) \<le> 2 ^ nat (?e - ulp_exp x)"
    using q qy by (intro round_half_even_le_int) (simp add: powi2_int)
  then have "of_int (round_half_even (x / 2 powi ulp_exp x)) \<le> (2::rat) powi (?e - ulp_exp x)"
    using q qy by (simp add: powi2_int)
  then have "rnd x \<le> 2 powi (?e - ulp_exp x) * 2 powi ulp_exp x"
    using assms unfolding rnd_def by (auto intro: mult_right_mono)
  also have "\<dots> = 2 powi ?e" by (simp flip: powi2_split)
  also have "\<dots> = 2 powi 52 * 2 powi ulp_exp y" unfolding powi2_split [symmetric] by (simp add: qy)
  also have "\<dots> \<le> rnd y"
  proof -
    have "2 powi (52 + ulp_exp y) \<le> y" using qy floor_log2_bounds(1) [of y] assms by simp
    then have "of_int (2 ^ 52) \<le> y / 2 powi ulp_exp y"
      by (simp add: le_divide_eq powi2_split powi2_int)
    then have "2 ^ 52 \<le> round_half_even (y / 2 powi ulp_exp y)"
      by (rule round_half_even_ge_int)
    then have "(2::rat) powi 52 \<le> of_int (round_half_even (y / 2 powi ulp_exp y))"
      by (simp add: powi2_int)
    then show ?thesis
      using assms unfolding rnd_def by (auto intro: mult_right_mono)
  qed
  finally show ?thesis .
qed

lemma rnd_nonneg: "0 \<le> x \<Longrightarrow> 0 \<le> rnd x"
  unfolding rnd_def by (auto intro!: mult_nonneg_nonneg round_half_even_ge_int)

lemma rnd_mono:
  assumes "x \<le> y"
  shows "rnd x \<le> rnd y"
proof -
  consider "0 < x" | "x \<le> 0" "0 \<le> y" | "y < 0" by linarith
  then show ?thesis
  proof cases
    case 1
    then show ?thesis using assms by (rule rnd_mono_pos)
  next
    case 2
    then show ?thesis using rnd_nonneg [of "- x"] rnd_nonneg [of y] by (simp add: rnd_minus)
  next
    case 3
    then show ?thesis using assms rnd_mono_pos [of "- y" "- x"] by (simp add: rnd_minus)
  qed
qed

text \<open>Half a unit in the last place: at most \<open>2 powi - 53\<close> of a normal number.\<close>

definition rnd_slack :: "rat \<Rightarrow> rat" where
  "rnd_slack b = b * 2 powi (- 53) + 2 powi (- 1075)"

lemma rnd_err: "\<bar>rnd x - x\<bar> \<le> rnd_slack \<bar>x\<bar>"
proof (cases "x = 0")
  case False
  let ?q = "ulp_exp x"
  have "\<bar>rnd x - x\<bar> = \<bar>of_int (round_half_even (x / 2 powi ?q)) - x / 2 powi ?q\<bar> * 2 powi ?q"
  proof -
    have "rnd x - x = (of_int (round_half_even (x / 2 powi ?q)) - x / 2 powi ?q) * 2 powi ?q"
      using False by (simp add: rnd_def left_diff_distrib)
    then show ?thesis by (simp add: abs_mult)
  qed
  also have "\<dots> \<le> 1 / 2 * 2 powi ?q"
    by (intro mult_right_mono round_half_even_err) simp
  also have "\<dots> \<le> rnd_slack \<bar>x\<bar>"
  proof (cases "?q = - 1074")
    case True
    then show ?thesis by (simp add: rnd_slack_def power_int_minus field_simps)
  next
    case no: False
    then have q: "?q = floor_log2 \<bar>x\<bar> - 52" by (auto simp: ulp_exp_def max_def split: if_splits)
    have "1 / 2 * (2::rat) powi ?q = 2 powi floor_log2 \<bar>x\<bar> * 2 powi (- 53)"
      unfolding q by (simp add: power_int_diff power_int_minus)
    also have "\<dots> \<le> \<bar>x\<bar> * 2 powi (- 53)"
      using False by (intro mult_right_mono floor_log2_bounds) simp_all
    finally show ?thesis by (simp add: rnd_slack_def add_increasing2)
  qed
  finally show ?thesis .
qed (simp add: rnd_slack_def)


section \<open>The operations\<close>

definition i2f :: "int64 \<Rightarrow> float64" where "i2f n = rnd (of_int n)"
definition fadd :: "float64 \<Rightarrow> float64 \<Rightarrow> float64" where "fadd a b = rnd (a + b)"
definition fsub :: "float64 \<Rightarrow> float64 \<Rightarrow> float64" where "fsub a b = rnd (a - b)"
definition fmul :: "float64 \<Rightarrow> float64 \<Rightarrow> float64" where "fmul a b = rnd (a * b)"
definition fdiv :: "float64 \<Rightarrow> float64 \<Rightarrow> float64" where "fdiv a b = rnd (a / b)"

text \<open>
  \<^verbatim>\<open>int64(x)\<close> truncates towards zero; a value out of range gives the most negative
  integer, as the amd64 instruction does.
\<close>

definition f2i :: "float64 \<Rightarrow> int64" where
  "f2i x = (let n = (if x < 0 then \<lceil>x\<rceil> else \<lfloor>x\<rfloor>) in if in64 n then n else - (2 ^ 63))"

text \<open>\<^verbatim>\<open>Duration.Seconds\<close>: whole seconds plus the rest, each converted on its own.\<close>

definition seconds :: "duration \<Rightarrow> float64" where
  "seconds d = fadd (i2f (quot d second)) (fdiv (i2f (remn d second)) (i2f second))"

lemmas float_ops = i2f_def fadd_def fsub_def fmul_def fdiv_def

lemma i2f_int [simp]: "\<bar>n\<bar> \<le> 2 ^ 53 \<Longrightarrow> i2f n = of_int n"
  by (simp add: i2f_def rnd_int)

lemma i2f_mono: "m \<le> n \<Longrightarrow> i2f m \<le> i2f n"
  by (simp add: i2f_def rnd_mono)

lemma i2f_0 [simp]: "i2f 0 = 0"
  by simp

lemma i2f_nonneg: "0 \<le> n \<Longrightarrow> 0 \<le> i2f n"
  by (simp add: i2f_def rnd_nonneg)

lemma i2f_pos: "0 < n \<Longrightarrow> 0 < i2f n"
  using i2f_mono [of 1 n] by simp

lemma rnd_i2f [simp]: "rnd (i2f n) = i2f n"
  by (simp add: i2f_def)

lemma f2i_int [simp]: "in64 n \<Longrightarrow> f2i (of_int n) = n"
  by (simp add: f2i_def)

lemma in64_f2i [simp, intro]: "in64 (f2i x)"
  by (simp add: f2i_def Let_def in64_def)

lemma seconds_nonneg: "0 \<le> d \<Longrightarrow> 0 \<le> seconds d"
  by (auto simp: seconds_def fadd_def fdiv_def second_def quot_nonneg remn_nonneg
      intro!: rnd_nonneg add_nonneg_nonneg divide_nonneg_nonneg i2f_nonneg)

lemma seconds_0 [simp]: "seconds 0 = 0"
  by (simp add: seconds_def fadd_def fdiv_def quot_def remn_def second_def)

lemma seconds_whole:
  assumes "0 \<le> k" and "k \<le> 2 ^ 53"
  shows "seconds (k * second) = of_int k"
  using assms by (simp add: seconds_def fadd_def fdiv_def quot_nonneg remn_nonneg second_def rnd_int)

text \<open>Integers small enough to be exact: addition and subtraction do not round.\<close>

lemma fadd_int: "\<bar>m + n\<bar> \<le> 2 ^ 53 \<Longrightarrow> fadd (of_int m) (of_int n) = of_int (m + n)"
  unfolding fadd_def by (simp only: rnd_int flip: of_int_add)

lemma fsub_int: "\<bar>m - n\<bar> \<le> 2 ^ 53 \<Longrightarrow> fsub (of_int m) (of_int n) = of_int (m - n)"
  unfolding fsub_def by (simp only: rnd_int flip: of_int_diff)

lemma fmul_int: "\<bar>m * n\<bar> \<le> 2 ^ 53 \<Longrightarrow> fmul (of_int m) (of_int n) = of_int (m * n)"
  unfolding fmul_def by (simp only: rnd_int flip: of_int_mult)

section \<open>The interface of a rounding\<close>

text \<open>
  What a component that keeps a level between zero and a bound needs of the arithmetic:
  rounding is monotone, keeps zero and is idempotent. A rounded operation that stays
  between two representable bounds before rounding stays between them afterwards.
\<close>

locale rounding =
  fixes r :: "rat \<Rightarrow> rat"
  assumes r_mono: "x \<le> y \<Longrightarrow> r x \<le> r y"
    and r_zero: "r 0 = 0"
    and r_idem: "r (r x) = r x"
begin

lemma round_le: "x \<le> b \<Longrightarrow> r b = b \<Longrightarrow> r x \<le> b"
  using r_mono [of x b] by simp

lemma round_ge: "b \<le> x \<Longrightarrow> r b = b \<Longrightarrow> b \<le> r x"
  using r_mono [of b x] by simp

lemma round_between: "0 \<le> x \<Longrightarrow> x \<le> b \<Longrightarrow> r b = b \<Longrightarrow> 0 \<le> r x \<and> r x \<le> b"
  by (simp add: round_le round_ge r_zero)

lemma round_reaches: "b < r x \<Longrightarrow> r b = b \<Longrightarrow> b < x"
  using round_le [of x b] by linarith

end

interpretation dbl: rounding rnd
  by unfold_locales (auto intro: rnd_mono)

end
