(* ===== verification/TokenBucket.thy ===== *)
theory TokenBucket
  imports LimiterSpec GoFloat
begin

text \<open>
  The token bucket of \<^verbatim>\<open>pkg/ratelimiter/limiter.go\<close>, its level kept in double precision as
  the code keeps it. \<open>token_bucket_step\<close> is the critical section of \<^verbatim>\<open>AllowN\<close>.

  Shown: the level stays between zero and the burst while the clock does not go back; the
  cost admitted over a run is at most the burst plus the tokens credited, up to an explicit
  rounding error per request; where the numbers are exact (whole seconds, up to 2^53) the
  code decides as the bucket over integers, \<open>int_bucket\<close>, does.
\<close>

record token_bucket_state =
  tb_tokens :: float64
  tb_lastUpdate :: gotime

record token_bucket =
  tb_base :: "token_bucket_state base_limiter"
  tb_rate :: float64
  tb_burst :: float64

definition NewTokenBucket :: "rate_limiter_config \<Rightarrow> error + token_bucket" where
  "NewTokenBucket config =
     (if Rate config \<le> 0 then Inl RateNotPositive
      else let burst = (if Burst config \<le> 0 then Rate config else Burst config)
           in Inr \<lparr>tb_base = newBaseLimiter config, tb_rate = i2f (Rate config),
                   tb_burst = i2f burst\<rparr>)"

text \<open>The level after the tokens of the elapsed time are added and the burst is enforced.\<close>

definition token_bucket_refill :: "token_bucket \<Rightarrow> token_bucket_state option \<Rightarrow> gotime \<Rightarrow> float64" where
  "token_bucket_refill t st now =
     (let state = (case st of None \<Rightarrow> \<lparr>tb_tokens = tb_burst t, tb_lastUpdate = now\<rparr> | Some s \<Rightarrow> s);
          elapsed = seconds (time_sub now (tb_lastUpdate state));
          tokens = fadd (tb_tokens state) (fmul elapsed (tb_rate t))
      in if tb_burst t < tokens then tb_burst t else tokens)"

definition token_bucket_step :: "token_bucket \<Rightarrow> string \<Rightarrow> token_bucket_state option
    \<Rightarrow> gotime \<times> int64 \<Rightarrow> token_bucket_state \<times> rate_limit_result" where
  "token_bucket_step t key st = (\<lambda>(now, n).
     let cost = i2f n;
         tokens = token_bucket_refill t st now;
         result = zero_result\<lparr>Remaining := f2i tokens\<rparr>
     in if cost \<le> tokens
        then (\<lparr>tb_tokens = fsub tokens cost, tb_lastUpdate = now\<rparr>,
              result\<lparr>Allowed := True, Remaining := f2i (fsub tokens cost)\<rparr>)
        else (\<lparr>tb_tokens = tokens, tb_lastUpdate = now\<rparr>,
              result\<lparr>Allowed := False, LimitedBy := key,
                     RetryAfter := f2i (fmul (fdiv (fsub cost tokens) (tb_rate t)) 1000000000)\<rparr>))"

definition TokenBucket_AllowN :: "token_bucket allow_fun" where
  "TokenBucket_AllowN t now key n =
     (let (s, r) = token_bucket_step t key (shard_get (tb_base t) key) (now, n)
      in (t\<lparr>tb_base := shard_put (tb_base t) key s\<rparr>, Inr r))"

definition TokenBucket_Allow ::
    "token_bucket \<Rightarrow> gotime \<Rightarrow> string \<Rightarrow> token_bucket \<times> (error + rate_limit_result)" where
  "TokenBucket_Allow t now key = TokenBucket_AllowN t now key 1"

definition TokenBucket_Reset :: "token_bucket \<Rightarrow> string \<Rightarrow> token_bucket" where
  "TokenBucket_Reset t key = t\<lparr>tb_base := shard_delete (tb_base t) key\<rparr>"

section \<open>The contract of a limiter\<close>

definition token_bucket_ok :: "token_bucket \<Rightarrow> bool" where
  "token_bucket_ok t \<longleftrightarrow> base_ok (tb_base t) \<and> 0 < tb_rate t \<and> 0 < tb_burst t
     \<and> rnd (tb_burst t) = tb_burst t"

lemma token_bucket_step_cong:
  "tb_rate t = tb_rate u \<Longrightarrow> tb_burst t = tb_burst u \<Longrightarrow> token_bucket_step t = token_bucket_step u"
  unfolding token_bucket_step_def [abs_def] token_bucket_refill_def by (simp only:)

interpretation tb: rate_limiter TokenBucket_AllowN TokenBucket_Reset
  "\<lambda>t. shard_get (tb_base t)" token_bucket_step token_bucket_ok
  by unfold_locales
    (auto simp: TokenBucket_AllowN_def TokenBucket_Reset_def token_bucket_ok_def case_prod_beta
      Let_def shard_store.get_put shard_store.get_del intro!: token_bucket_step_cong)

lemma token_bucket_ok_new:
  assumes "NewTokenBucket config = Inr t" and "in64 (rl_Shards config)"
  shows "token_bucket_ok t" and "shard_get (tb_base t) key = None"
  using assms
  by (auto simp: NewTokenBucket_def token_bucket_ok_def base_ok_new shard_get_new Let_def i2f_pos
      split: if_splits)

section \<open>The level stays in the bucket\<close>

definition tb_level_ok :: "token_bucket \<Rightarrow> float64 \<Rightarrow> bool" where
  "tb_level_ok t x \<longleftrightarrow> 0 \<le> x \<and> x \<le> tb_burst t \<and> rnd x = x"

text \<open>A clock that does not go back, as the monotonic reading of \<^verbatim>\<open>time.Now\<close> does not.\<close>

definition forward :: "(gotime \<times> int64) list \<Rightarrow> bool" where
  "forward is \<longleftrightarrow> sorted_wrt (\<lambda>i j. 0 \<le> time_diff (fst j) (fst i)) is"

lemma forward_snoc: "forward (is @ [j]) \<longleftrightarrow> forward is \<and> (\<forall>i\<in>set is. 0 \<le> time_diff (fst j) (fst i))"
  by (auto simp: forward_def sorted_wrt_append)

text \<open>The tokens credited for the time between two calls.\<close>

definition tb_credit :: "float64 \<Rightarrow> gotime \<Rightarrow> gotime \<Rightarrow> float64" where
  "tb_credit rate now prev = fmul (seconds (time_sub now prev)) rate"

lemma tb_credit_nonneg: "0 \<le> rate \<Longrightarrow> 0 \<le> time_diff now prev \<Longrightarrow> 0 \<le> tb_credit rate now prev"
  unfolding tb_credit_def fmul_def time_sub_def
  by (intro rnd_nonneg mult_nonneg_nonneg seconds_nonneg sat64_nonneg)

lemma tb_refill_None: "token_bucket_ok t \<Longrightarrow> token_bucket_refill t None now = tb_burst t"
  by (simp add: token_bucket_refill_def token_bucket_ok_def fadd_def fmul_def)

lemma tb_refill_Some:
  "token_bucket_refill t (Some s) now =
     min (tb_burst t) (fadd (tb_tokens s) (tb_credit (tb_rate t) now (tb_lastUpdate s)))"
  by (simp add: token_bucket_refill_def tb_credit_def min_def Let_def)

lemma tb_refill_ok:
  assumes "token_bucket_ok t"
    and "\<forall>s. st = Some s \<longrightarrow> tb_level_ok t (tb_tokens s) \<and> 0 \<le> time_diff now (tb_lastUpdate s)"
  shows "tb_level_ok t (token_bucket_refill t st now)"
proof (cases st)
  case None
  then show ?thesis using assms(1) by (simp add: tb_refill_None tb_level_ok_def token_bucket_ok_def)
next
  case (Some s)
  have "0 \<le> fadd (tb_tokens s) (tb_credit (tb_rate t) now (tb_lastUpdate s))"
    using assms Some unfolding fadd_def
    by (intro rnd_nonneg add_nonneg_nonneg tb_credit_nonneg) (auto simp: tb_level_ok_def token_bucket_ok_def)
  then show ?thesis
    using assms(1) Some
    by (auto simp: tb_refill_Some tb_level_ok_def token_bucket_ok_def min_def fadd_def)
qed

lemma token_bucket_step_simps:
  "Allowed (snd (token_bucket_step t key st (now, n))) \<longleftrightarrow> i2f n \<le> token_bucket_refill t st now"
  "tb_tokens (fst (token_bucket_step t key st (now, n))) =
     (if i2f n \<le> token_bucket_refill t st now then fsub (token_bucket_refill t st now) (i2f n)
      else token_bucket_refill t st now)"
  "tb_lastUpdate (fst (token_bucket_step t key st (now, n))) = now"
  by (simp_all add: token_bucket_step_def Let_def)

lemma tb_step_level:
  assumes "token_bucket_ok t"
    and "\<forall>s. st = Some s \<longrightarrow> tb_level_ok t (tb_tokens s) \<and> 0 \<le> time_diff now (tb_lastUpdate s)"
    and "0 \<le> n"
  shows "tb_level_ok t (tb_tokens (fst (token_bucket_step t key st (now, n))))"
proof -
  let ?x = "token_bucket_refill t st now"
  have x: "tb_level_ok t ?x" using assms(1,2) by (rule tb_refill_ok)
  have "0 \<le> fsub ?x (i2f n) \<and> fsub ?x (i2f n) \<le> tb_burst t" if "i2f n \<le> ?x"
    unfolding fsub_def using that x assms(1) i2f_nonneg [OF assms(3)]
    by (intro dbl.round_between) (auto simp: tb_level_ok_def token_bucket_ok_def)
  then show ?thesis
    using x by (auto simp: token_bucket_step_simps tb_level_ok_def fsub_def)
qed

definition tb_run :: "token_bucket \<Rightarrow> string \<Rightarrow> (gotime \<times> int64) list
    \<Rightarrow> token_bucket_state option \<times> rate_limit_result list" where
  "tb_run t key is = solo (token_bucket_step t key) None is"

text \<open>After a run the level is in the bucket and was updated at the last call.\<close>

lemma tb_run_level:
  assumes "token_bucket_ok t" and "forward is" and "\<forall>i\<in>set is. 0 \<le> snd i"
  shows "\<forall>s. fst (tb_run t key is) = Some s \<longrightarrow>
    tb_level_ok t (tb_tokens s) \<and> is \<noteq> [] \<and> tb_lastUpdate s = fst (last is)"
  using assms
proof (induction "is" rule: rev_induct)
  case Nil
  then show ?case by (simp add: tb_run_def)
next
  case (snoc i "is")
  obtain now n where i: "i = (now, n)" by fastforce
  have "\<forall>s. fst (tb_run t key is) = Some s \<longrightarrow>
      tb_level_ok t (tb_tokens s) \<and> is \<noteq> [] \<and> tb_lastUpdate s = fst (last is)"
    using snoc by (auto simp: forward_snoc)
  then have "\<forall>s. fst (tb_run t key is) = Some s \<longrightarrow>
      tb_level_ok t (tb_tokens s) \<and> 0 \<le> time_diff now (tb_lastUpdate s)"
    using snoc.prems(2) by (auto simp: forward_snoc i)
  then show ?case
    using snoc.prems tb_step_level [of t "fst (tb_run t key is)" now n key]
    by (auto simp: tb_run_def solo_snoc i token_bucket_step_simps)
qed

section \<open>How much is admitted\<close>

text \<open>The tokens credited along a run: nothing for the first call, then one credit per gap.\<close>

fun tb_credits :: "float64 \<Rightarrow> (gotime \<times> int64) list \<Rightarrow> rat" where
  "tb_credits rate (i # j # is) = tb_credit rate (fst j) (fst i) + tb_credits rate (j # is)"
| "tb_credits rate _ = 0"

lemma tb_credits_snoc:
  "tb_credits rate (is @ [j]) =
     tb_credits rate is + (if is = [] then 0 else tb_credit rate (fst j) (fst (last is)))"
  by (induction rate "is" rule: tb_credits.induct) auto

text \<open>One call: what it admits and leaves is at most what was there, the credit, and two roundings.\<close>

lemma tb_step_budget:
  assumes "token_bucket_ok t"
    and "\<forall>s. st = Some s \<longrightarrow> tb_level_ok t (tb_tokens s) \<and> 0 \<le> time_diff now (tb_lastUpdate s)"
    and "0 \<le> n" and "n \<le> 2 ^ 53"
  shows "(if Allowed (snd (token_bucket_step t key st (now, n))) then of_int n else 0)
      + tb_tokens (fst (token_bucket_step t key st (now, n)))
    \<le> (case st of None \<Rightarrow> tb_burst t
        | Some s \<Rightarrow> tb_tokens s + tb_credit (tb_rate t) now (tb_lastUpdate s))
      + 2 * rnd_slack (tb_burst t)"
proof -
  let ?x = "token_bucket_refill t st now"
  let ?s = "case st of None \<Rightarrow> tb_burst t
    | Some s \<Rightarrow> tb_tokens s + tb_credit (tb_rate t) now (tb_lastUpdate s)"
  have slack: "0 \<le> rnd_slack (tb_burst t)"
    using assms(1) by (simp add: rnd_slack_def token_bucket_ok_def)
  have x: "0 \<le> ?x" "?x \<le> tb_burst t" using tb_refill_ok [OF assms(1,2)] by (auto simp: tb_level_ok_def)
  have s: "0 \<le> ?s"
    using assms(1,2) tb_credit_nonneg
    by (auto simp: tb_level_ok_def token_bucket_ok_def split: option.splits)
  have refill: "?x \<le> ?s + rnd_slack (tb_burst t)"
  proof (cases "tb_burst t \<le> ?s")
    case True
    then show ?thesis using x(2) slack by linarith
  next
    case False
    have "?x \<le> rnd ?s"
      using assms(1) by (auto simp: tb_refill_None tb_refill_Some fadd_def token_bucket_ok_def split: option.splits)
    also have "\<dots> \<le> ?s + rnd_slack \<bar>?s\<bar>" using rnd_err [of ?s] by linarith
    also have "\<dots> \<le> ?s + rnd_slack (tb_burst t)" using False s by (simp add: rnd_slack_def)
    finally show ?thesis .
  qed
  have n: "i2f n = of_int n" using assms(3,4) by simp
  have take: "of_int n + fsub ?x (of_int n) \<le> ?x + rnd_slack (tb_burst t)" if "of_int n \<le> ?x"
  proof -
    have "fsub ?x (of_int n) \<le> (?x - of_int n) + rnd_slack \<bar>?x - of_int n\<bar>"
      unfolding fsub_def using rnd_err [of "?x - of_int n"] by linarith
    also have "rnd_slack \<bar>?x - of_int n\<bar> \<le> rnd_slack (tb_burst t)"
      using that x assms(3) by (simp add: rnd_slack_def)
    finally show ?thesis by simp
  qed
  have "(if of_int n \<le> ?x then of_int n + fsub ?x (of_int n) else ?x) \<le> ?s + 2 * rnd_slack (tb_burst t)"
  proof (cases "of_int n \<le> ?x")
    case True
    show ?thesis unfolding if_P [OF True] using take [OF True] refill by linarith
  next
    case False
    show ?thesis unfolding if_not_P [OF False] using refill slack by linarith
  qed
  then show ?thesis
    unfolding token_bucket_step_simps n by (simp split: if_splits)
qed

lemma tb_run_budget:
  assumes "token_bucket_ok t" and "forward is" and "\<forall>i\<in>set is. 0 \<le> snd i \<and> snd i \<le> 2 ^ 53"
  shows "of_int (admitted (\<lambda>_. True) is (snd (tb_run t key is)))
      + (case fst (tb_run t key is) of None \<Rightarrow> tb_burst t | Some s \<Rightarrow> tb_tokens s)
    \<le> tb_burst t + tb_credits (tb_rate t) is + of_nat (2 * length is) * rnd_slack (tb_burst t)"
  using assms
proof (induction "is" rule: rev_induct)
  case Nil
  then show ?case by (simp add: tb_run_def)
next
  case (snoc i "is")
  obtain now n where i: "i = (now, n)" by fastforce
  let ?st = "fst (tb_run t key is)"
  have fwd: "forward is" and nn: "\<forall>i\<in>set is. 0 \<le> snd i" "\<forall>i\<in>set is. 0 \<le> snd i \<and> snd i \<le> 2 ^ 53"
    using snoc.prems by (auto simp: forward_snoc)
  have st: "\<forall>s. ?st = Some s \<longrightarrow> tb_level_ok t (tb_tokens s) \<and> is \<noteq> [] \<and> tb_lastUpdate s = fst (last is)"
    using snoc.prems(1) fwd nn(1) by (rule tb_run_level)
  then have "\<forall>s. ?st = Some s \<longrightarrow> tb_level_ok t (tb_tokens s) \<and> 0 \<le> time_diff now (tb_lastUpdate s)"
    using snoc.prems(2) last_in_set [of "is"] by (fastforce simp: forward_snoc i)
  from tb_step_budget [OF snoc.prems(1) this, of n key]
  have step: "(if Allowed (snd (token_bucket_step t key ?st i)) then of_int n else 0)
      + tb_tokens (fst (token_bucket_step t key ?st i))
    \<le> (case ?st of None \<Rightarrow> tb_burst t
        | Some s \<Rightarrow> tb_tokens s + tb_credit (tb_rate t) now (fst (last is)))
      + 2 * rnd_slack (tb_burst t)"
    using snoc.prems(3) st by (auto simp: i split: option.splits)
  have "is = []" if "?st = None"
    using that by (cases "is" rule: rev_cases) (auto simp: tb_run_def solo_snoc)
  then show ?case
    using snoc.IH [OF snoc.prems(1) fwd nn(2)] step st
    unfolding tb_credits_snoc tb_run_def admitted_snoc
    by (auto simp: solo_snoc i algebra_simps split: option.splits if_splits)
qed

section \<open>The bucket over integers\<close>

text \<open>
  The abstract bucket: level \<open>m\<close> at second \<open>u\<close>, calls \<open>(k, n)\<close> of cost \<open>n\<close> at second
  \<open>k\<close>; the result says which calls are admitted.
\<close>

fun int_bucket :: "int \<Rightarrow> int \<Rightarrow> int \<Rightarrow> int \<Rightarrow> (int \<times> int) list \<Rightarrow> bool list" where
  "int_bucket R B m u [] = []"
| "int_bucket R B m u ((k, n) # xs) =
     (let m' = min B (m + (k - u) * R)
      in (n \<le> m') # int_bucket R B (if n \<le> m' then m' - n else m') k xs)"

text \<open>
  Calls made at whole seconds of the monotonic clock, counted from a reading \<open>m0\<close>, with
  any wall clock: \<open>(w, k, n)\<close> is a call of cost \<open>n\<close> at second \<open>k\<close> when the wall shows \<open>w\<close>.
\<close>

definition call_at :: "int \<Rightarrow> int \<times> int \<times> int \<Rightarrow> gotime \<times> int64" where
  "call_at m0 = (\<lambda>(w, k, n). (now_at w (m0 + k * second), n))"

definition exact_calls :: "int \<Rightarrow> int \<Rightarrow> (int \<times> int \<times> int) list \<Rightarrow> bool" where
  "exact_calls R B xs \<longleftrightarrow> sorted (map (fst \<circ> snd) xs) \<and>
     (\<forall>(w, k, n)\<in>set xs. 0 \<le> k \<and> k \<le> 2 ^ 33 \<and> k * R + B \<le> 2 ^ 53 \<and> 0 \<le> n \<and> n \<le> 2 ^ 53)"

lemma exact_calls_Cons:
  "exact_calls R B ((w, k, n) # xs) \<longleftrightarrow> exact_calls R B xs \<and> (\<forall>(w', k', n')\<in>set xs. k \<le> k')
     \<and> 0 \<le> k \<and> k \<le> 2 ^ 33 \<and> k * R + B \<le> 2 ^ 53 \<and> 0 \<le> n \<and> n \<le> 2 ^ 53"
  by (auto simp: exact_calls_def)

lemma sub_at_seconds:
  assumes "0 \<le> u" and "u \<le> k" and "k \<le> 2 ^ 33"
  shows "seconds (time_sub (now_at w (m0 + k * second)) (now_at w' (m0 + u * second))) = of_int (k - u)"
proof -
  have "in64 ((k - u) * second)" using assms by (simp add: in64_def second_def)
  then have "time_sub (now_at w (m0 + k * second)) (now_at w' (m0 + u * second)) = (k - u) * second"
    by (simp add: time_sub_def time_diff_now_at sat64_id left_diff_distrib)
  then show ?thesis using assms by (simp add: seconds_whole)
qed

lemma tb_refill_int:
  assumes "tb_rate t = of_int R" and "tb_burst t = of_int B" and "0 < R"
    and "tb_tokens s = of_int m" and "tb_lastUpdate s = now_at w' (m0 + u * second)"
    and "0 \<le> m" and "m \<le> B" and "0 \<le> u" and "u \<le> k" and "k \<le> 2 ^ 33" and "k * R + B \<le> 2 ^ 53"
  shows "token_bucket_refill t (Some s) (now_at w (m0 + k * second)) = of_int (min B (m + (k - u) * R))"
proof -
  have le: "(k - u) * R \<le> k * R" using assms by (intro mult_right_mono) auto
  have ge: "0 \<le> (k - u) * R" using assms by simp
  have "\<bar>(k - u) * R\<bar> \<le> 2 ^ 53" "\<bar>m + (k - u) * R\<bar> \<le> 2 ^ 53" using le ge assms by linarith+
  then show ?thesis
    using assms sub_at_seconds [of u k w m0 w']
    by (simp add: tb_refill_Some tb_credit_def fmul_int fadd_int del: of_int_mult of_int_diff of_int_add)
qed

lemma tb_solo_int:
  assumes "tb_rate t = of_int R" and "tb_burst t = of_int B" and "0 < R"
    and "exact_calls R B xs" and "\<forall>(w, k, n)\<in>set xs. u \<le> k"
    and "st = Some s" and "tb_tokens s = of_int m" and "tb_lastUpdate s = now_at w' (m0 + u * second)"
    and "0 \<le> m" and "m \<le> B" and "0 \<le> u"
  shows "map Allowed (snd (solo (token_bucket_step t key) st (map (call_at m0) xs)))
    = int_bucket R B m u (map snd xs)"
  using assms(4-)
proof (induction xs arbitrary: st s m u w')
  case Nil
  then show ?case by simp
next
  case (Cons x xs)
  obtain w k n where x: "x = (w, k, n)" by (cases x)
  let ?m = "min B (m + (k - u) * R)" and ?now = "now_at w (m0 + k * second)"
  have k: "0 \<le> k" "u \<le> k" "k \<le> 2 ^ 33" "k * R + B \<le> 2 ^ 53" "0 \<le> n" "n \<le> 2 ^ 53"
    and xs: "exact_calls R B xs" "\<forall>(w, k', n)\<in>set xs. k \<le> k'"
    using Cons.prems(1,2) by (auto simp: x exact_calls_Cons)
  have refill: "token_bucket_refill t st ?now = of_int ?m"
    using assms(1-3) Cons.prems k unfolding Cons.prems(3) by (intro tb_refill_int [of _ _ _ _ _ w']) auto
  have m: "0 \<le> ?m" "?m \<le> B" using Cons.prems(6-8) k(2) assms(3) by auto
  have B: "0 \<le> k * R" using k(1) assms(3) by simp
  have n: "i2f n = of_int n" using k(5,6) by simp
  have sub: "fsub (of_int ?m) (of_int n) = of_int (?m - n)" if "n \<le> ?m"
    using that k m B by (intro fsub_int) linarith
  let ?s = "fst (token_bucket_step t key st (?now, n))"
  have "tb_tokens ?s = of_int (if n \<le> ?m then ?m - n else ?m)"
    unfolding token_bucket_step_simps refill n of_int_le_iff using sub by simp
  then have "map Allowed (snd (solo (token_bucket_step t key) (Some ?s) (map (call_at m0) xs)))
      = int_bucket R B (if n \<le> ?m then ?m - n else ?m) k (map snd xs)"
    using xs m k(1,5) by (intro Cons.IH [where w' = w]) (auto simp: token_bucket_step_simps)
  moreover have "Allowed (snd (token_bucket_step t key st (?now, n))) \<longleftrightarrow> n \<le> ?m"
    unfolding token_bucket_step_simps refill n of_int_le_iff ..
  ultimately show ?case by (simp add: x call_at_def solo_Cons_snd Let_def)
qed

lemma tb_run_int:
  assumes "tb_rate t = of_int R" and "tb_burst t = of_int B" and "0 < R" and "0 < B"
    and "rnd (of_int B) = of_int B" and "exact_calls R B xs"
  shows "map Allowed (snd (tb_run t key (map (call_at m0) xs)))
    = int_bucket R B B (case xs of [] \<Rightarrow> 0 | (w, k, n) # _ \<Rightarrow> k) (map snd xs)"
proof (cases xs)
  case Nil
  then show ?thesis by (simp add: tb_run_def)
next
  case (Cons x ys)
  obtain w k n where x: "x = (w, k, n)" by (cases x)
  let ?now = "now_at w (m0 + k * second)"
  let ?s = "\<lparr>tb_tokens = tb_burst t, tb_lastUpdate = ?now\<rparr>"
  \<comment> \<open>a missing state and a full bucket updated now step alike\<close>
  have "token_bucket_step t key None (?now, n) = token_bucket_step t key (Some ?s) (?now, n)"
    by (simp add: token_bucket_step_def token_bucket_refill_def)
  then have "snd (tb_run t key (map (call_at m0) xs))
      = snd (solo (token_bucket_step t key) (Some ?s) (map (call_at m0) xs))"
    by (simp add: tb_run_def Cons x call_at_def solo_Cons_snd)
  also have "map Allowed \<dots> = int_bucket R B B k (map snd xs)"
    by (rule tb_solo_int [OF assms(1-3,6), where u = k and m = B and s = ?s and w' = w])
      (use assms in \<open>auto simp: Cons x exact_calls_Cons\<close>)
  finally show ?thesis by (simp add: Cons x)
qed

section \<open>Properties\<close>

text \<open>
  C4. Token bucket level. After any interleaving of calls for any keys, if the clock did not
  go back between the calls for a key and their costs are not negative, the key's stored
  level is between zero and the burst.
\<close>

theorem token_bucket_level:
  assumes "NewTokenBucket config = Inr t" and "in64 (rl_Shards config)"
    and "forward (of_key key rs)" and "\<forall>i\<in>set (of_key key rs). 0 \<le> snd i"
    and "shard_get (tb_base (fst (run_allow TokenBucket_AllowN t rs))) key = Some s"
  shows "0 \<le> tb_tokens s \<and> tb_tokens s \<le> tb_burst t"
proof -
  note t = token_bucket_ok_new [OF assms(1,2)]
  have "fst (tb_run t key (of_key key rs)) = Some s"
    using tb.run_view [OF t(1), of rs key] assms(5) by (simp add: t(2) tb_run_def)
  with tb_run_level [OF t(1) assms(3,4)] show ?thesis by (auto simp: tb_level_ok_def)
qed

theorem token_bucket_level_witness:
  "\<exists>s. shard_get (tb_base (fst (run_allow TokenBucket_AllowN (projr (NewTokenBucket demo_config))
      demo_requests))) ''a'' = Some s \<and> 0 \<le> tb_tokens s \<and> tb_tokens s \<le> 2"
proof -
  let ?t = "projr (NewTokenBucket demo_config)"
  have new: "NewTokenBucket demo_config = Inr ?t" and i: "in64 (rl_Shards demo_config)"
    and b: "tb_burst ?t = 2"
    by (simp_all add: NewTokenBucket_def demo_config_def Let_def in64_def)
  have "\<exists>s. shard_get (tb_base (fst (run_allow TokenBucket_AllowN ?t demo_requests))) ''a'' = Some s"
    using tb.run_view [OF token_bucket_ok_new(1) [OF new i], of demo_requests "''a''"]
    by (simp add: demo_requests_def solo_Cons_fst)
  moreover have "forward (of_key ''a'' demo_requests)" "\<forall>i\<in>set (of_key ''a'' demo_requests). 0 \<le> snd i"
    by (simp_all add: demo_requests_def forward_def time_diff_now_at)
  ultimately show ?thesis
    using token_bucket_level [OF new i, of "''a''" demo_requests] unfolding b by blast
qed

text \<open>
  C5. Token bucket budget. Over any such run the cost admitted for a key is at most the
  burst, plus the tokens credited for the gaps between its calls, plus two roundings of at
  most half a unit in the last place of the burst per call.
\<close>

theorem token_bucket_budget:
  assumes "NewTokenBucket config = Inr t" and "in64 (rl_Shards config)"
    and "forward (of_key key rs)" and "\<forall>i\<in>set (of_key key rs). 0 \<le> snd i \<and> snd i \<le> 2 ^ 53"
  shows "of_int (admitted (\<lambda>_. True) (of_key key rs) (results_of TokenBucket_AllowN t key rs))
    \<le> tb_burst t + tb_credits (tb_rate t) (of_key key rs)
      + of_nat (2 * length (of_key key rs)) * rnd_slack (tb_burst t)"
proof -
  note t = token_bucket_ok_new [OF assms(1,2)]
  let ?is = "of_key key rs"
  have "\<forall>s. fst (tb_run t key ?is) = Some s \<longrightarrow> 0 \<le> tb_tokens s"
    using tb_run_level [OF t(1) assms(3)] assms(4) by (auto simp: tb_level_ok_def)
  then have "0 \<le> (case fst (tb_run t key ?is) of None \<Rightarrow> tb_burst t | Some s \<Rightarrow> tb_tokens s)"
    using t(1) by (auto simp: token_bucket_ok_def split: option.splits)
  then show ?thesis
    using tb_run_budget [OF t(1) assms(3,4), of key]
    by (simp add: tb.results_of_solo [OF t(1)] t(2) flip: tb_run_def)
qed

theorem token_bucket_budget_witness:
  "of_int (admitted (\<lambda>_. True) (of_key ''a'' demo_requests)
      (results_of TokenBucket_AllowN (projr (NewTokenBucket demo_config)) ''a'' demo_requests))
    \<le> 2 + tb_credits 2 (of_key ''a'' demo_requests) + 8 * rnd_slack 2"
proof -
  let ?t = "projr (NewTokenBucket demo_config)"
  have new: "NewTokenBucket demo_config = Inr ?t" and i: "in64 (rl_Shards demo_config)"
    and b: "tb_burst ?t = 2" "tb_rate ?t = 2"
    by (simp_all add: NewTokenBucket_def demo_config_def Let_def in64_def)
  show ?thesis
    using token_bucket_budget [OF new i, of "''a''" demo_requests] unfolding b
    by (simp add: demo_requests_def forward_def time_diff_now_at)
qed

text \<open>
  C6. Token bucket, exact decisions. For calls made at whole seconds (up to 2^33) with rate,
  burst and costs in the exact range of a double, the limiter admits exactly the calls that
  the bucket over integers admits, however they are interleaved with calls for other keys.
\<close>

theorem token_bucket_exact:
  assumes "NewTokenBucket config = Inr t" and "in64 (rl_Shards config)"
    and "B = (if Burst config \<le> 0 then Rate config else Burst config)"
    and "Rate config \<le> 2 ^ 53" and "B \<le> 2 ^ 53" and "exact_calls (Rate config) B xs"
    and "of_key key rs = map (call_at m0) xs"
  shows "map Allowed (results_of TokenBucket_AllowN t key rs)
    = int_bucket (Rate config) B B (case xs of [] \<Rightarrow> 0 | (w, k, n) # _ \<Rightarrow> k) (map snd xs)"
proof -
  note t = token_bucket_ok_new [OF assms(1,2)]
  have B: "0 < B" "0 < Rate config" "tb_rate t = of_int (Rate config)" "tb_burst t = of_int B"
    using assms(1,3-5) by (auto simp: NewTokenBucket_def Let_def split: if_splits)
  show ?thesis
    using tb_run_int [OF B(3,4,2,1) _ assms(6), of key m0] B(1) assms(5)
    by (simp add: tb.results_of_solo [OF t(1)] t(2) assms(7) rnd_int flip: tb_run_def)
qed

text \<open>The sample calls at whole seconds: two admitted at once, one refused, two more a second later.\<close>

definition demo_calls :: "(int \<times> int \<times> int) list" where
  "demo_calls = [(7, 0, 1), (8, 0, 1), (9, 0, 1), (10, 1, 2), (11, 1, 1)]"

theorem token_bucket_exact_witness:
  "map Allowed (results_of TokenBucket_AllowN (projr (NewTokenBucket demo_config)) ''a''
      ((''b'', now_at 0 0, 5) # map (\<lambda>x. (''a'', call_at 100 x)) demo_calls))
    = [True, True, False, True, False]"
proof -
  let ?t = "projr (NewTokenBucket demo_config)"
  let ?rs = "(''b'', now_at 0 0, 5) # map (\<lambda>x. (''a'', call_at 100 x)) demo_calls"
  have new: "NewTokenBucket demo_config = Inr ?t" and i: "in64 (rl_Shards demo_config)"
    and c: "Rate demo_config = 2" "Burst demo_config = 2"
    by (simp_all add: NewTokenBucket_def demo_config_def Let_def in64_def)
  have "exact_calls 2 2 demo_calls" by (simp add: exact_calls_def demo_calls_def)
  moreover have "of_key ''a'' ?rs = map (call_at 100) demo_calls"
    by (simp add: of_key_def filter_map o_def)
  ultimately show ?thesis
    using token_bucket_exact [OF new i, of 2 demo_calls "''a''" ?rs 100] unfolding c
    by (simp add: demo_calls_def)
qed

end
