(* ===== verification/RemoteTokens.thy ===== *)
theory RemoteTokens
  imports TokenBucket
begin

text \<open>
  \<^verbatim>\<open>RemoteTokenServer\<close> of \<^verbatim>\<open>pkg/ratelimiter/localcached.go\<close>: the central bucket the
  local-cached limiters fetch from. It lends: a request that finds a level of zero or more
  is granted in full and may push the level below zero; a request that finds a debt gets
  nothing and a time to wait.

  Shown: a grant is all or nothing, the debt never exceeds one batch, tokens are conserved
  where the numbers are exact, and the level is not capped by the burst.
\<close>

record remote_token_server =
  rts_tokens :: float64
  rts_rate :: float64
  rts_lastRefill :: gotime

definition NewRemoteTokenServer :: "gotime \<Rightarrow> int64 \<Rightarrow> int64 \<Rightarrow> remote_token_server" where
  "NewRemoteTokenServer now rate burst =
     \<lparr>rts_tokens = i2f burst, rts_rate = i2f rate, rts_lastRefill = now\<rparr>"

text \<open>\<^verbatim>\<open>time.Duration(deficit / s.rate * float64(time.Second))\<close> for a negative level.\<close>

definition recovery_wait :: "float64 \<Rightarrow> float64 \<Rightarrow> duration" where
  "recovery_wait tokens rate =
     (let deficit = - tokens; secondsToRecover = fdiv deficit rate
      in f2i (fmul secondsToRecover (i2f second)))"

definition RequestTokens :: "remote_token_server \<Rightarrow> gotime \<Rightarrow> int64
    \<Rightarrow> remote_token_server \<times> int64 \<times> duration" where
  "RequestTokens s now n =
     (let elapsed = seconds (time_sub now (rts_lastRefill s));
          tokens = fadd (rts_tokens s) (fmul elapsed (rts_rate s))
      in if tokens < 0
         then (s\<lparr>rts_tokens := tokens, rts_lastRefill := now\<rparr>, 0, recovery_wait tokens (rts_rate s))
         else let left = fsub tokens (i2f n)
              in if left < 0
                 then (s\<lparr>rts_tokens := left, rts_lastRefill := now\<rparr>, n, recovery_wait left (rts_rate s))
                 else (s\<lparr>rts_tokens := left, rts_lastRefill := now\<rparr>, n, 0))"

text \<open>The level after the refill, which decides the request.\<close>

definition rts_refilled :: "remote_token_server \<Rightarrow> gotime \<Rightarrow> float64" where
  "rts_refilled s now = fadd (rts_tokens s) (tb_credit (rts_rate s) now (rts_lastRefill s))"

lemma RequestTokens_cases:
  "RequestTokens s now n =
     (if rts_refilled s now < 0
      then (s\<lparr>rts_tokens := rts_refilled s now, rts_lastRefill := now\<rparr>, 0,
            recovery_wait (rts_refilled s now) (rts_rate s))
      else let left = fsub (rts_refilled s now) (i2f n)
           in (s\<lparr>rts_tokens := left, rts_lastRefill := now\<rparr>, n,
               if left < 0 then recovery_wait left (rts_rate s) else 0))"
  by (simp add: RequestTokens_def rts_refilled_def tb_credit_def Let_def)

text \<open>A grant is all or nothing.\<close>

lemma granted_cases:
  "RequestTokens s now n = (s', g, w) \<Longrightarrow> g = 0 \<and> rts_refilled s now < 0 \<or> g = n \<and> 0 \<le> rts_refilled s now"
  by (auto simp: RequestTokens_cases Let_def split: if_splits)

lemma recovery_wait_nonneg:
  assumes "tokens \<le> 0" and "0 < rate"
  shows "0 \<le> recovery_wait tokens rate \<or> recovery_wait tokens rate = - (2 ^ 63)"
proof -
  have "0 \<le> fmul (fdiv (- tokens) rate) (i2f second)"
    using assms unfolding fmul_def fdiv_def
    by (intro rnd_nonneg mult_nonneg_nonneg i2f_nonneg divide_nonneg_nonneg) (auto simp: second_def)
  then show ?thesis by (auto simp: recovery_wait_def f2i_def Let_def)
qed

section \<open>The debt is at most one batch\<close>

definition rts_ok :: "remote_token_server \<Rightarrow> int \<Rightarrow> bool" where
  "rts_ok s b \<longleftrightarrow> 0 < rts_rate s \<and> rnd (rts_tokens s) = rts_tokens s \<and> - of_int b \<le> rts_tokens s"

lemma rts_ok_new:
  "0 < rate \<Longrightarrow> 0 \<le> burst \<Longrightarrow> 0 \<le> b \<Longrightarrow> rts_ok (NewRemoteTokenServer now rate burst) b"
  using i2f_nonneg [of burst]
  by (auto simp: rts_ok_def NewRemoteTokenServer_def i2f_pos intro: order_trans [of _ 0])

lemma rts_ok_request:
  assumes "rts_ok s b" and "0 \<le> n" and "n \<le> b" and "b \<le> 2 ^ 53"
    and "0 \<le> time_diff now (rts_lastRefill s)" and "RequestTokens s now n = (s', g, w)"
  shows "rts_ok s' b \<and> rts_lastRefill s' = now \<and> rts_rate s' = rts_rate s"
proof -
  have b: "rnd (- of_int b) = - of_int b"
    using assms(2-4) rnd_int [of "- b"] by simp
  have "0 \<le> tb_credit (rts_rate s) now (rts_lastRefill s)"
    using assms by (intro tb_credit_nonneg) (auto simp: rts_ok_def)
  then have refilled: "- of_int b \<le> rts_refilled s now"
    using assms(1) b unfolding rts_refilled_def fadd_def
    by (intro dbl.round_ge) (auto simp: rts_ok_def)
  have left: "- of_int b \<le> fsub (rts_refilled s now) (i2f n)" if "0 \<le> rts_refilled s now"
  proof -
    have "i2f n = of_int n" using assms(2-4) by simp
    moreover have "of_int n \<le> (of_int b :: rat)" using assms(3) by simp
    ultimately show ?thesis
      unfolding fsub_def using that b by (intro dbl.round_ge) auto
  qed
  show ?thesis
    using assms(1,6) refilled left
    by (auto simp: RequestTokens_cases rts_ok_def Let_def rts_refilled_def fadd_def fsub_def split: if_splits)
qed

text \<open>A sequence of requests, in the order in which the server's mutex is taken.\<close>

fun rts_run :: "remote_token_server \<Rightarrow> (gotime \<times> int64) list
    \<Rightarrow> remote_token_server \<times> (int64 \<times> duration) list" where
  "rts_run s [] = (s, [])"
| "rts_run s ((now, n) # rs) =
     (let (s', g, w) = RequestTokens s now n; (s'', gs) = rts_run s' rs in (s'', (g, w) # gs))"

lemma rts_run_ok:
  assumes "rts_ok s b" and "\<forall>i\<in>set rs. 0 \<le> snd i \<and> snd i \<le> b" and "b \<le> 2 ^ 53"
    and "forward ((rts_lastRefill s, 0) # rs)"
  shows "rts_ok (fst (rts_run s rs)) b"
  using assms
proof (induction rs arbitrary: s)
  case Nil
  then show ?case by simp
next
  case (Cons r rs)
  obtain now n where r: "r = (now, n)" by fastforce
  obtain s' g w where req: "RequestTokens s now n = (s', g, w)" by (metis prod_cases3)
  have "rts_ok s' b \<and> rts_lastRefill s' = now \<and> rts_rate s' = rts_rate s"
    using Cons.prems req by (intro rts_ok_request [of s b n]) (auto simp: r forward_def)
  moreover have "forward ((now, 0) # rs)" using Cons.prems(4) by (simp add: r forward_def)
  ultimately have "rts_ok (fst (rts_run s' rs)) b" using Cons.prems(2,3) by (intro Cons.IH) auto
  then show ?case by (simp add: r req case_prod_beta Let_def)
qed

section \<open>Conservation at whole seconds\<close>

text \<open>
  In the exact range the level is the initial tokens, plus the rate for every second, less
  everything granted: nothing is lost, and nothing is cut off at the burst either.
\<close>

definition exact_requests :: "int \<Rightarrow> int \<Rightarrow> int \<Rightarrow> (int \<times> int \<times> int) list \<Rightarrow> bool" where
  "exact_requests R m b xs \<longleftrightarrow> sorted (map (fst \<circ> snd) xs) \<and>
     (\<forall>(w, k, n)\<in>set xs. 0 \<le> k \<and> k \<le> 2 ^ 33 \<and> m + k * R \<le> 2 ^ 53 \<and> 0 \<le> n \<and> n \<le> b)"

lemma exact_requests_Cons:
  "exact_requests R m b ((w, k, n) # xs) \<longleftrightarrow> exact_requests R m b xs \<and> (\<forall>(w', k', n')\<in>set xs. k \<le> k')
     \<and> 0 \<le> k \<and> k \<le> 2 ^ 33 \<and> m + k * R \<le> 2 ^ 53 \<and> 0 \<le> n \<and> n \<le> b"
  by (auto simp: exact_requests_def)

lemma rts_refilled_int:
  assumes "rts_rate s = of_int R" and "0 < R" and "rts_tokens s = of_int m"
    and "rts_lastRefill s = now_at w' (m0 + u * second)"
    and "0 \<le> u" and "u \<le> k" and "k \<le> 2 ^ 33" and "m + (k - u) * R \<le> 2 ^ 53"
    and "- (2 ^ 53) \<le> m" and "(k - u) * R \<le> 2 ^ 53"
  shows "rts_refilled s (now_at w (m0 + k * second)) = of_int (m + (k - u) * R)"
proof -
  have ge: "0 \<le> (k - u) * R" using assms by simp
  have "\<bar>(k - u) * R\<bar> \<le> 2 ^ 53" "\<bar>m + (k - u) * R\<bar> \<le> 2 ^ 53" using ge assms by linarith+
  then show ?thesis
    using assms sub_at_seconds [of u k w m0 w']
    by (simp add: rts_refilled_def tb_credit_def fmul_int fadd_int del: of_int_mult of_int_diff of_int_add)
qed

definition last_second :: "int \<Rightarrow> (int \<times> int \<times> int) list \<Rightarrow> int" where
  "last_second u xs = (if xs = [] then u else fst (snd (last xs)))"

lemma rts_run_int:
  assumes "rts_rate s = of_int R" and "0 < R" and "rts_tokens s = of_int m"
    and "rts_lastRefill s = now_at w' (m0 + u * second)"
    and "exact_requests R (m - u * R) b xs" and "\<forall>(w, k, n)\<in>set xs. u \<le> k \<and> (k - u) * R \<le> 2 ^ 53"
    and "0 \<le> u" and "- b \<le> m" and "0 \<le> b" and "b \<le> 2 ^ 53"
  shows "rts_tokens (fst (rts_run s (map (call_at m0) xs)))
    = of_int (m + (last_second u xs - u) * R - sum_list (map fst (snd (rts_run s (map (call_at m0) xs)))))"
  using assms
proof (induction xs arbitrary: s m u w')
  case Nil
  then show ?case by (simp add: last_second_def)
next
  case (Cons x xs)
  obtain w k n where x: "x = (w, k, n)" by (cases x)
  let ?m = "m + (k - u) * R" and ?now = "now_at w (m0 + k * second)"
  have k: "0 \<le> k" "u \<le> k" "k \<le> 2 ^ 33" "?m \<le> 2 ^ 53" "(k - u) * R \<le> 2 ^ 53" "0 \<le> n" "n \<le> b"
    and xs: "exact_requests R (m - u * R) b xs" "\<forall>(w, k', n)\<in>set xs. k \<le> k'"
    using Cons.prems(5,6) by (auto simp: x exact_requests_Cons algebra_simps)
  have pos: "0 \<le> (k - u) * R" using k(2) Cons.prems(2) by simp
  have refill: "rts_refilled s ?now = of_int ?m"
    using Cons.prems k pos by (intro rts_refilled_int [of _ _ _ w']) auto
  have n: "i2f n = of_int n" using k(6,7) Cons.prems(10) by simp
  define g where "g = (if ?m < 0 then 0 else n)"
  have "fsub (of_int ?m) (of_int n) = of_int (?m - n)" if "\<not> ?m < 0"
    using that k Cons.prems(10) by (intro fsub_int) linarith
  then have "\<exists>s' v. RequestTokens s ?now n = (s', g, v) \<and> rts_tokens s' = of_int (?m - g)
      \<and> rts_rate s' = of_int R \<and> rts_lastRefill s' = ?now"
    using Cons.prems(1) unfolding RequestTokens_cases refill n of_int_less_0_iff g_def
    by (cases "?m < 0") (auto simp: Let_def)
  then obtain s' v where req: "RequestTokens s ?now n = (s', g, v)"
    and s': "rts_tokens s' = of_int (?m - g)" "rts_rate s' = of_int R" "rts_lastRefill s' = ?now"
    by blast
  have g: "0 \<le> g" "- b \<le> ?m - g" using k Cons.prems(8) pos by (auto simp: g_def)
  have exact: "exact_requests R (?m - g - k * R) b xs"
    using xs(1) g(1) by (fastforce simp: exact_requests_def algebra_simps)
  have gap: "\<forall>(w, k', n)\<in>set xs. k \<le> k' \<and> (k' - k) * R \<le> 2 ^ 53"
  proof clarify
    fix w1 k1 n1 assume "(w1, k1, n1) \<in> set xs"
    then have "k \<le> k1" "(k1 - u) * R \<le> 2 ^ 53" using xs(2) Cons.prems(6) by (auto simp: x)
    moreover have "(k1 - k) * R \<le> (k1 - u) * R"
      using k(2) Cons.prems(2) by (intro mult_right_mono) auto
    ultimately show "k \<le> k1 \<and> (k1 - k) * R \<le> 2 ^ 53" by linarith
  qed
  note IH = Cons.IH [OF s'(2) Cons.prems(2) s'(1,3) exact gap k(1) g(2) Cons.prems(9,10)]
  have "rts_run s (map (call_at m0) (x # xs)) = (fst (rts_run s' (map (call_at m0) xs)),
      (g, v) # snd (rts_run s' (map (call_at m0) xs)))"
    by (simp add: x call_at_def req case_prod_beta Let_def)
  then show ?case
    using IH by (cases "xs = []") (simp_all add: x last_second_def algebra_simps)
qed

section \<open>Properties\<close>

text \<open>
  C8. Bounded debt. From a new server, while the clock does not go back, after any sequence
  of requests for at most \<open>b\<close> tokens each the level is at least \<open>- b\<close>: the server never
  lends more than one batch.
\<close>

theorem remote_debt_bounded:
  assumes "0 < rate" and "0 \<le> burst" and "b \<le> 2 ^ 53" and "0 \<le> b"
    and "\<forall>i\<in>set rs. 0 \<le> snd i \<and> snd i \<le> b" and "forward ((start, 0) # rs)"
  shows "- of_int b \<le> rts_tokens (fst (rts_run (NewRemoteTokenServer start rate burst) rs))"
proof -
  have "forward ((rts_lastRefill (NewRemoteTokenServer start rate burst), 0) # rs)"
    using assms(6) by (simp add: NewRemoteTokenServer_def)
  then have "rts_ok (fst (rts_run (NewRemoteTokenServer start rate burst) rs)) b"
    using assms by (intro rts_run_ok rts_ok_new) auto
  then show ?thesis by (simp add: rts_ok_def)
qed

theorem remote_debt_bounded_witness:
  "- 10 \<le> rts_tokens (fst (rts_run (NewRemoteTokenServer (now_at 0 0) 2 3)
      [(now_at 5 5, 10), (now_at 6 6, 10), (now_at 7 7, 4)]))"
  using remote_debt_bounded [of 2 3 10 "[(now_at 5 5, 10), (now_at 6 6, 10), (now_at 7 7, 4)]" "now_at 0 0"]
  by (simp add: forward_def time_diff_now_at)

text \<open>
  C9. Conservation. For requests at whole seconds in the exact range, what is granted is
  the burst plus the rate for every second since the start, less the level at the end; so
  it is at most that plus one batch of debt.
\<close>

theorem remote_conservation:
  fixes w0 m0 :: int
  assumes "0 < rate" and "rate \<le> 2 ^ 53" and "0 \<le> burst" and "burst \<le> 2 ^ 53"
    and "0 \<le> b" and "b \<le> 2 ^ 53" and "exact_requests rate burst b xs"
  defines "run \<equiv> rts_run (NewRemoteTokenServer (now_at w0 m0) rate burst) (map (call_at m0) xs)"
  shows "of_int (sum_list (map fst (snd run))) + rts_tokens (fst run)
    = of_int (burst + last_second 0 xs * rate)"
proof -
  let ?s = "NewRemoteTokenServer (now_at w0 m0) rate burst"
  have s: "rts_rate ?s = of_int rate" "rts_tokens ?s = of_int burst"
    "rts_lastRefill ?s = now_at w0 (m0 + 0 * second)"
    using assms(1-4) by (simp_all add: NewRemoteTokenServer_def)
  have ex: "exact_requests rate (burst - 0 * rate) b xs"
    using assms(7) by simp
  have "\<forall>(w, k, n)\<in>set xs. 0 \<le> k \<and> (k - 0) * rate \<le> 2 ^ 53"
    using assms(3,7) by (fastforce simp: exact_requests_def)
  from rts_run_int [OF s(1) assms(1) s(2,3) ex this _ _ assms(5,6)] show ?thesis
    using assms(3,5) by (simp add: run_def)
qed

theorem remote_conservation_witness:
  "of_int (sum_list (map fst (snd (rts_run (NewRemoteTokenServer (now_at 0 7) 2 3)
      (map (call_at 7) [(1, 0, 10), (2, 1, 10), (3, 4, 10)])))))
    + rts_tokens (fst (rts_run (NewRemoteTokenServer (now_at 0 7) 2 3)
      (map (call_at 7) [(1, 0, 10), (2, 1, 10), (3, 4, 10)]))) = 11"
  using remote_conservation [of 2 3 10 "[(1, 0, 10), (2, 1, 10), (3, 4, 10)]" 0 7]
  by (simp add: exact_requests_def last_second_def)

text \<open>
  The burst is only the initial level, not a cap: after \<open>k\<close> idle seconds a single
  request for the burst and all the tokens of those seconds is granted in full with no wait.
\<close>

lemma remote_burst_not_enforced:
  assumes "0 < rate" and "rate \<le> 2 ^ 53" and "0 \<le> burst" and "0 \<le> k" and "k \<le> 2 ^ 33"
    and "burst + k * rate \<le> 2 ^ 53"
  shows "snd (RequestTokens (NewRemoteTokenServer (now_at w0 m0) rate burst)
      (now_at w (m0 + k * second)) (burst + k * rate)) = (burst + k * rate, 0)"
proof -
  let ?s = "NewRemoteTokenServer (now_at w0 m0) rate burst"
  have k: "0 \<le> k * rate" using assms by simp
  then have b: "\<bar>burst\<bar> \<le> 2 ^ 53" using assms(3,6) by linarith
  have s: "rts_rate ?s = of_int rate" "rts_tokens ?s = of_int burst"
    "rts_lastRefill ?s = now_at w0 (m0 + 0 * second)"
    using assms b by (simp_all add: NewRemoteTokenServer_def)
  have "rts_refilled ?s (now_at w (m0 + k * second)) = of_int (burst + (k - 0) * rate)"
    by (rule rts_refilled_int [OF s(1) assms(1) s(2,3)]) (use assms k in auto)
  moreover have "fsub (of_int (burst + k * rate)) (of_int (burst + k * rate)) = 0"
    by (simp add: fsub_def)
  moreover have "i2f (burst + k * rate) = of_int (burst + k * rate)" using assms k by simp
  moreover have "\<not> (of_int (burst + k * rate) < (0 :: rat))" using assms k by (simp add: not_less flip: of_int_add of_int_mult)
  ultimately show ?thesis by (simp add: RequestTokens_cases Let_def del: of_int_add of_int_mult)
qed

lemma remote_burst_not_enforced_witness:
  "snd (RequestTokens (NewRemoteTokenServer (now_at 0 0) 10000 1000) (now_at 9 60000000000) 601000)
    = (601000, 0)"
  using remote_burst_not_enforced [of 10000 1000 60 0 0 9] by (simp add: second_def)

end
