(* ===== verification/LocalCached.thy ===== *)
theory LocalCached
  imports RemoteTokens
begin

text \<open>
  \<^verbatim>\<open>LocalCachedLimiter\<close> of \<^verbatim>\<open>pkg/ratelimiter/localcached.go\<close>: a server-side cache of
  tokens with a single fetcher and a condition variable the other callers wait on.

  \<open>local_cached_body\<close> is one pass of the \<^verbatim>\<open>for\<close> loop of \<^verbatim>\<open>AllowN\<close> with the mutex held. The
  goroutines are a step relation \<open>lc_step\<close>: a step is what a goroutine does from taking the
  mutex to releasing it, or one of the two actions outside the mutex (the request to the
  remote server, the late read of \<^verbatim>\<open>l.localTokens\<close> for the result). The remote server is
  shared with the limiters of the other servers, whose requests are steps of the
  environment. Every step takes its clock readings as arguments.

  Shown: at most one goroutine fetches; none sleeps unless a fetch is in progress that will
  wake it; \<^verbatim>\<open>l.waiters\<close> counts the waiting goroutines; no state is stuck; what is admitted
  never exceeds what the remote server granted.
\<close>

section \<open>The limiter\<close>

record local_cached =
  lc_localTokens :: int64
  lc_rejectUntil :: gotime
  lc_prefetchCount :: int64
  lc_checkDelay :: duration
  lc_checkJitter :: duration
  lc_fetching :: bool
  lc_waiters :: int64
  lc_config :: rate_limiter_config

definition NewLocalCachedLimiter ::
    "rate_limiter_config \<Rightarrow> int \<Rightarrow> int \<Rightarrow> int \<Rightarrow> local_cached" where
  "NewLocalCachedLimiter config prefetch delayMs jitterMs =
     \<lparr>lc_localTokens = 0, lc_rejectUntil = zero_time, lc_prefetchCount = prefetch,
      lc_checkDelay = w64 (delayMs * millisecond), lc_checkJitter = w64 (jitterMs * millisecond),
      lc_fetching = False, lc_waiters = 0, lc_config = config\<rparr>"

definition LocalCached_Reset :: "local_cached \<Rightarrow> string \<Rightarrow> local_cached" where
  "LocalCached_Reset l key = l\<lparr>lc_localTokens := 0, lc_rejectUntil := zero_time\<rparr>"

text \<open>
  Where a goroutine that called \<^verbatim>\<open>AllowN\<close> with \<open>n\<close> is: about to take the mutex, inside
  \<^verbatim>\<open>fetchCond.Wait\<close> since a time, notified and about to take the mutex again, in
  \<^verbatim>\<open>performFetch\<close> for a batch, back from it with a grant and a back-off, admitted and about
  to read \<^verbatim>\<open>l.localTokens\<close> outside the mutex, or returned.
\<close>

datatype lc_pc =
    Ready int64
  | Waiting int64 gotime
  | Woken int64 gotime
  | Fetching int64 int64 gotime
  | Fetched int64 int64 duration
  | Unlocked int64
  | Done rate_limit_result

definition lc_batch :: "local_cached \<Rightarrow> int64" where
  "lc_batch l = (if lc_prefetchCount l < lc_waiters l then lc_waiters l else lc_prefetchCount l)"

text \<open>One pass of the loop at \<open>now\<close>; \<open>now'\<close> is the clock at \<^verbatim>\<open>startWait\<close> or \<^verbatim>\<open>start\<close>.\<close>

definition local_cached_body ::
    "local_cached \<Rightarrow> gotime \<Rightarrow> gotime \<Rightarrow> int64 \<Rightarrow> local_cached \<times> lc_pc" where
  "local_cached_body l now now' n =
     (if n \<le> lc_localTokens l then (l\<lparr>lc_localTokens := w64 (lc_localTokens l - n)\<rparr>, Unlocked n)
      else if time_before now (lc_rejectUntil l)
        then (l, Done (zero_result\<lparr>Allowed := False, RetryAfter := time_sub (lc_rejectUntil l) now,
                                   LimitedBy := ''local_cached_reject_period''\<rparr>))
      else if lc_fetching l then (l\<lparr>lc_waiters := w64 (lc_waiters l + 1)\<rparr>, Waiting n now')
      else (l\<lparr>lc_fetching := True\<rparr>, Fetching n (lc_batch l) now'))"

text \<open>The least time \<^verbatim>\<open>performFetch\<close> sleeps, given the clock it takes its jitter from.\<close>

definition unix_nano :: "gotime \<Rightarrow> int64" where
  "unix_nano t = w64 (wall t - unix_offset * second)"

definition fetch_delay :: "local_cached \<Rightarrow> gotime \<Rightarrow> duration" where
  "fetch_delay l now =
     (if 0 < lc_checkDelay l
      then (if 0 < lc_checkJitter l
            then w64 (lc_checkDelay l + remn (unix_nano now) (lc_checkJitter l))
            else lc_checkDelay l)
      else 0)"

text \<open>The return from the fetch, with the mutex taken again, before the loop goes round.\<close>

definition local_cached_fetched :: "local_cached \<Rightarrow> int64 \<Rightarrow> duration \<Rightarrow> gotime \<Rightarrow> local_cached" where
  "local_cached_fetched l granted retryAfter now =
     (let l = l\<lparr>lc_fetching := False, lc_localTokens := w64 (lc_localTokens l + granted)\<rparr>
      in if 0 < retryAfter then l\<lparr>lc_rejectUntil := time_add now retryAfter\<rparr> else l)"

section \<open>The goroutines\<close>

record lc_sys =
  lim :: local_cached
  remote :: remote_token_server
  pcs :: "nat \<rightharpoonup> lc_pc"

text \<open>What a step does to the tokens, for the accounting of a run.\<close>

datatype lc_event = Called int64 | Granted int64 | Admitted int64 | Dropped int64

definition admit_events :: "lc_pc \<Rightarrow> lc_event list" where
  "admit_events p = (case p of Unlocked n \<Rightarrow> [Admitted n] | _ \<Rightarrow> [])"

text \<open>\<^verbatim>\<open>fetchCond.Broadcast()\<close> moves every sleeping goroutine to the mutex.\<close>

fun wake :: "lc_pc \<Rightarrow> lc_pc" where
  "wake (Waiting n t) = Woken n t"
| "wake p = p"

definition broadcast :: "(nat \<rightharpoonup> lc_pc) \<Rightarrow> (nat \<rightharpoonup> lc_pc)" where
  "broadcast m = (\<lambda>t. map_option wake (m t))"

inductive lc_step :: "lc_sys \<Rightarrow> lc_event list \<Rightarrow> lc_sys \<Rightarrow> bool" where
  call: "pcs s t = None \<Longrightarrow> lc_step s [Called n] (s\<lparr>pcs := (pcs s)(t \<mapsto> Ready n)\<rparr>)"
| enter: "pcs s t = Some (Ready n) \<Longrightarrow> local_cached_body (lim s) now now' n = (l, p) \<Longrightarrow>
    lc_step s (admit_events p) (s\<lparr>lim := l, pcs := (pcs s)(t \<mapsto> p)\<rparr>)"
| resume: "pcs s t = Some (Woken n since) \<Longrightarrow>
    local_cached_body ((lim s)\<lparr>lc_waiters := w64 (lc_waiters (lim s) - 1)\<rparr>) now now' n = (l, p) \<Longrightarrow>
    lc_step s (admit_events p) (s\<lparr>lim := l, pcs := (pcs s)(t \<mapsto> p)\<rparr>)"
| fetch: "pcs s t = Some (Fetching n b start) \<Longrightarrow> fetch_delay (lim s) now' \<le> time_sub now start \<Longrightarrow>
    RequestTokens (remote s) now b = (r, g, w) \<Longrightarrow>
    lc_step s [Granted g] (s\<lparr>remote := r, pcs := (pcs s)(t \<mapsto> Fetched n g w)\<rparr>)"
| finish: "pcs s t = Some (Fetched n g w) \<Longrightarrow>
    local_cached_body (local_cached_fetched (lim s) g w now1) now now' n = (l, p) \<Longrightarrow>
    lc_step s (admit_events p) (s\<lparr>lim := l, pcs := (broadcast (pcs s))(t \<mapsto> p)\<rparr>)"
| read: "pcs s t = Some (Unlocked n) \<Longrightarrow>
    lc_step s [] (s\<lparr>pcs := (pcs s)(t \<mapsto>
      Done (zero_result\<lparr>Allowed := True, Remaining := lc_localTokens (lim s)\<rparr>))\<rparr>)"
| reset: "lc_step s [Dropped (lc_localTokens (lim s))] (s\<lparr>lim := LocalCached_Reset (lim s) key\<rparr>)"
| other: "RequestTokens (remote s) now m = (r, g, w) \<Longrightarrow> lc_step s [] (s\<lparr>remote := r\<rparr>)"

inductive lc_run :: "lc_sys \<Rightarrow> lc_event list \<Rightarrow> lc_sys \<Rightarrow> bool" where
  start: "lc_run s [] s"
| step: "lc_run s es s' \<Longrightarrow> lc_step s' fs s'' \<Longrightarrow> lc_run s (es @ fs) s''"

definition lc_init :: "local_cached \<Rightarrow> remote_token_server \<Rightarrow> lc_sys" where
  "lc_init l r = \<lparr>lim = l, remote = r, pcs = Map.empty\<rparr>"

section \<open>Who fetches, who waits\<close>

definition is_fetcher :: "lc_pc \<Rightarrow> bool" where
  "is_fetcher p = (case p of Fetching _ _ _ \<Rightarrow> True | Fetched _ _ _ \<Rightarrow> True | _ \<Rightarrow> False)"

definition is_waiter :: "lc_pc \<Rightarrow> bool" where
  "is_waiter p = (case p of Waiting _ _ \<Rightarrow> True | Woken _ _ \<Rightarrow> True | _ \<Rightarrow> False)"

definition is_asleep :: "lc_pc \<Rightarrow> bool" where
  "is_asleep p = (case p of Waiting _ _ \<Rightarrow> True | _ \<Rightarrow> False)"

definition goroutines :: "(lc_pc \<Rightarrow> bool) \<Rightarrow> lc_sys \<Rightarrow> nat set" where
  "goroutines P s = {t. \<exists>p. pcs s t = Some p \<and> P p}"

lemmas pc_kinds = is_fetcher_def is_waiter_def is_asleep_def

lemma in_goroutines: "pcs s t = Some p \<Longrightarrow> t \<in> goroutines P s \<longleftrightarrow> P p"
  by (simp add: goroutines_def)

lemma goroutines_upd:
  "goroutines P (s\<lparr>pcs := (pcs s)(t \<mapsto> p)\<rparr>) = (if P p then insert t (goroutines P s) else goroutines P s - {t})"
  by (auto simp: goroutines_def)

lemma goroutines_broadcast:
  "goroutines P (s\<lparr>pcs := (broadcast (pcs s))(t \<mapsto> p)\<rparr>) =
     (if P p then insert t (goroutines (P \<circ> wake) s) else goroutines (P \<circ> wake) s - {t})"
  by (auto simp: goroutines_def broadcast_def)

lemma wake_kinds [simp]:
  "is_fetcher (wake p) = is_fetcher p" "is_waiter (wake p) = is_waiter p" "is_asleep (wake p) = False"
  by (cases p; simp add: pc_kinds)+

lemma goroutines_frame [simp]:
  "goroutines P (s\<lparr>lim := l\<rparr>) = goroutines P s" "goroutines P (s\<lparr>remote := r\<rparr>) = goroutines P s"
  "goroutines P (s\<lparr>lim := l, pcs := m\<rparr>) = goroutines P (s\<lparr>pcs := m\<rparr>)"
  "goroutines P (s\<lparr>remote := r, pcs := m\<rparr>) = goroutines P (s\<lparr>pcs := m\<rparr>)"
  by (simp_all add: goroutines_def)

definition lc_inv :: "lc_sys \<Rightarrow> bool" where
  "lc_inv s \<longleftrightarrow> finite (dom (pcs s)) \<and> in64 (lc_checkDelay (lim s))
     \<and> (lc_fetching (lim s) \<longrightarrow> (\<exists>t. goroutines is_fetcher s = {t}))
     \<and> (\<not> lc_fetching (lim s) \<longrightarrow> goroutines is_fetcher s = {})
     \<and> (goroutines is_asleep s \<noteq> {} \<longrightarrow> lc_fetching (lim s))
     \<and> lc_waiters (lim s) = w64 (int (card (goroutines is_waiter s)))"

lemma lc_inv_init:
  "\<not> lc_fetching l \<Longrightarrow> lc_waiters l = 0 \<Longrightarrow> in64 (lc_checkDelay l) \<Longrightarrow> lc_inv (lc_init l r)"
  by (simp add: lc_inv_def lc_init_def goroutines_def w64_id in64_def)

lemma body_cases:
  assumes "local_cached_body l now now' n = (l', p)"
  obtains (admit) "n \<le> lc_localTokens l" "l' = l\<lparr>lc_localTokens := w64 (lc_localTokens l - n)\<rparr>" "p = Unlocked n"
  | (reject) r where "lc_localTokens l < n" "time_before now (lc_rejectUntil l)" "l' = l" "p = Done r"
      "\<not> Allowed r"
  | (wait) "lc_localTokens l < n" "\<not> time_before now (lc_rejectUntil l)" "lc_fetching l"
      "l' = l\<lparr>lc_waiters := w64 (lc_waiters l + 1)\<rparr>" "p = Waiting n now'"
  | (fetch) "lc_localTokens l < n" "\<not> time_before now (lc_rejectUntil l)" "\<not> lc_fetching l"
      "l' = l\<lparr>lc_fetching := True\<rparr>" "p = Fetching n (lc_batch l) now'"
  using assms by (auto simp: local_cached_body_def split: if_splits)

text \<open>
  A goroutine that leaves the mutex at a new place: if the invariant holds without it, one
  pass of the loop restores the invariant with it.
\<close>

lemma goroutines_removed: "goroutines P (s\<lparr>pcs := m(t := None)\<rparr>) = goroutines P (s\<lparr>pcs := m\<rparr>) - {t}"
  by (auto simp: goroutines_def)

lemma goroutines_added:
  "goroutines P (s\<lparr>pcs := m(t \<mapsto> p)\<rparr>) =
     (if P p then insert t (goroutines P (s\<lparr>pcs := m(t := None)\<rparr>)) else goroutines P (s\<lparr>pcs := m(t := None)\<rparr>))"
  by (auto simp: goroutines_def)

lemma goroutines_finite: "finite (dom (pcs s)) \<Longrightarrow> finite (goroutines P s)"
  by (rule finite_subset [of _ "dom (pcs s)"]) (auto simp: goroutines_def)

lemma lc_inv_body:
  assumes inv: "lc_inv (s\<lparr>lim := l, pcs := m(t := None)\<rparr>)"
    and body: "local_cached_body l now now' n = (l', p)"
  shows "lc_inv (s\<lparr>lim := l', pcs := m(t \<mapsto> p)\<rparr>)"
proof -
  let ?G = "\<lambda>P. goroutines P (s\<lparr>pcs := m(t := None)\<rparr>)"
  have fin: "finite (dom m)" using inv by (simp add: lc_inv_def)
  then have W: "finite (?G is_waiter)" by (intro goroutines_finite) simp
  have t: "t \<notin> ?G P" for P by (simp add: goroutines_def)
  show ?thesis
    using body
  proof (cases rule: body_cases)
    case wait
    then show ?thesis
      using inv fin W t by (simp add: lc_inv_def goroutines_added pc_kinds add.commute)
  qed (use inv fin in \<open>simp_all add: lc_inv_def goroutines_added pc_kinds\<close>)
qed

lemma lc_inv_cong:
  assumes "lc_inv s" and "finite (dom (pcs s'))" and "lc_checkDelay (lim s') = lc_checkDelay (lim s)"
    and "lc_fetching (lim s') = lc_fetching (lim s)" and "lc_waiters (lim s') = lc_waiters (lim s)"
    and "goroutines is_fetcher s' = goroutines is_fetcher s"
    and "goroutines is_waiter s' = goroutines is_waiter s" and "goroutines is_asleep s' = goroutines is_asleep s"
  shows "lc_inv s'"
  using assms by (simp add: lc_inv_def)

lemma goroutines_same_kind:
  "pcs s t = Some p \<Longrightarrow> P p = P p' \<Longrightarrow> goroutines P (s\<lparr>pcs := (pcs s)(t \<mapsto> p')\<rparr>) = goroutines P s"
  by (auto simp: goroutines_def)

lemma goroutines_not_kind:
  "pcs s t = Some p \<Longrightarrow> \<not> P p \<Longrightarrow> goroutines P s - {t} = goroutines P s"
  by (auto simp: goroutines_def)

lemma lc_step_inv: "lc_step s es s' \<Longrightarrow> lc_inv s \<Longrightarrow> lc_inv s'"
proof (induction rule: lc_step.induct)
  case (call s t n)
  then have "t \<notin> goroutines P s" for P by (simp add: goroutines_def)
  then show ?case
    by (intro lc_inv_cong [OF call.prems]) (use call.prems in \<open>auto simp: lc_inv_def goroutines_upd pc_kinds\<close>)
next
  case (enter s t n now now' l p)
  have "lc_inv (s\<lparr>lim := lim s, pcs := (pcs s)(t := None)\<rparr>)"
    using enter.hyps(1) by (intro lc_inv_cong [OF enter.prems])
      (use enter.prems in \<open>simp_all add: lc_inv_def goroutines_removed pc_kinds goroutines_not_kind\<close>)
  then show ?case using enter.hyps(2) by (rule lc_inv_body)
next
  case (resume s t n since now now' l p)
  have t: "t \<in> goroutines is_waiter s" using resume.hyps(1) by (simp add: goroutines_def pc_kinds)
  have fin: "finite (goroutines is_waiter s)"
    using resume.prems by (intro goroutines_finite) (simp add: lc_inv_def)
  have "card (goroutines is_waiter s) = Suc (card (goroutines is_waiter s - {t}))"
    using t fin by (metis card.remove)
  then have "lc_inv (s\<lparr>lim := (lim s)\<lparr>lc_waiters := w64 (lc_waiters (lim s) - 1)\<rparr>, pcs := (pcs s)(t := None)\<rparr>)"
    using resume.prems resume.hyps(1) unfolding lc_inv_def
    by (auto simp: goroutines_removed goroutines_not_kind [OF resume.hyps(1)] is_fetcher_def)
  then show ?case using resume.hyps(2) by (rule lc_inv_body)
next
  case (fetch s t n b start now' now r g w)
  then show ?case
    by (intro lc_inv_cong [OF fetch.prems])
      (auto simp: lc_inv_def goroutines_same_kind pc_kinds)
next
  case (finish s t n g w now1 now now' l p)
  let ?m = "broadcast (pcs s)"
  have t: "t \<in> goroutines is_fetcher s" using finish.hyps(1) by (simp add: goroutines_def pc_kinds)
  then have f: "lc_fetching (lim s)" "goroutines is_fetcher s = {t}"
    using finish.prems by (auto simp: lc_inv_def)
  have dom: "dom ?m = dom (pcs s)" by (auto simp: broadcast_def dom_def)
  have G: "goroutines P (s\<lparr>pcs := ?m(t := None)\<rparr>) = goroutines (P \<circ> wake) s - {t}" for P
    by (auto simp: goroutines_def broadcast_def)
  have kinds: "is_fetcher \<circ> wake = is_fetcher" "is_waiter \<circ> wake = is_waiter"
    "is_asleep \<circ> wake = (\<lambda>_. False)" by auto
  have sel: "lc_fetching (local_cached_fetched (lim s) g w now1) = False"
    "lc_waiters (local_cached_fetched (lim s) g w now1) = lc_waiters (lim s)"
    "lc_checkDelay (local_cached_fetched (lim s) g w now1) = lc_checkDelay (lim s)"
    by (simp_all add: local_cached_fetched_def Let_def)
  have "lc_inv (s\<lparr>lim := local_cached_fetched (lim s) g w now1, pcs := ?m(t := None)\<rparr>)"
    using finish.prems finish.hyps(1) f unfolding lc_inv_def goroutines_frame G kinds
    by (simp add: dom sel goroutines_not_kind [OF finish.hyps(1)] is_waiter_def)
      (simp add: goroutines_def)
  then show ?case using finish.hyps(2) by (rule lc_inv_body)
next
  case (read s t n)
  then show ?case
    by (intro lc_inv_cong [OF read.prems])
      (auto simp: lc_inv_def goroutines_same_kind pc_kinds)
next
  case (reset s key)
  then show ?case
    by (intro lc_inv_cong [OF reset.prems]) (auto simp: lc_inv_def LocalCached_Reset_def)
next
  case (other s now m r g w)
  then show ?case
    by (intro lc_inv_cong [OF other.prems]) (auto simp: lc_inv_def)
qed

lemma lc_run_inv: "lc_run s es s' \<Longrightarrow> lc_inv s \<Longrightarrow> lc_inv s'"
  by (induction rule: lc_run.induct) (auto intro: lc_step_inv)

section \<open>No state is stuck\<close>

text \<open>A fetch returns: the clock can always have advanced far enough.\<close>

lemma fetch_enabled:
  assumes "in64 (lc_checkDelay (lim s))" and "pcs s t = Some (Fetching n b start)"
  shows "\<exists>g r w. lc_step s [Granted g] (s\<lparr>remote := r, pcs := (pcs s)(t \<mapsto> Fetched n g w)\<rparr>)"
proof -
  let ?now = "\<lparr>wall = wall start + 2 ^ 63, mono = None\<rparr>"
  obtain r g w where req: "RequestTokens (remote s) ?now b = (r, g, w)" by (metis prod_cases3)
  have "time_sub ?now start = 2 ^ 63 - 1" by (simp add: time_sub_def time_diff_def sat64_def)
  moreover have "w64 x \<le> 2 ^ 63 - 1" for x using in64_w64 [of x] by (simp add: in64_def)
  ultimately have "fetch_delay (lim s) zero_time \<le> time_sub ?now start"
    using assms(1) by (auto simp: fetch_delay_def in64_def)
  from lc_step.fetch [OF assms(2) this req] show ?thesis by blast
qed

text \<open>A step of a goroutine that has called and not yet returned.\<close>

definition moves :: "lc_sys \<Rightarrow> lc_sys \<Rightarrow> bool" where
  "moves s s' \<longleftrightarrow> dom (pcs s') = dom (pcs s) \<and> (\<exists>t. pcs s' t \<noteq> pcs s t)"

lemma body_result: obtains l' p where "local_cached_body l now now' n = (l', p)" by fastforce

lemma fetcher_moves:
  assumes "lc_inv s" and "t \<in> goroutines is_fetcher s"
  shows "\<exists>es s'. lc_step s es s' \<and> moves s s'"
proof -
  from assms(2) obtain p where p: "pcs s t = Some p" "is_fetcher p" by (auto simp: goroutines_def)
  then consider n b start where "pcs s t = Some (Fetching n b start)"
    | n g w where "pcs s t = Some (Fetched n g w)"
    by (cases p) (auto simp: is_fetcher_def)
  then show ?thesis
  proof cases
    case 1
    have "in64 (lc_checkDelay (lim s))" using assms(1) by (simp add: lc_inv_def)
    from fetch_enabled [OF this 1] show ?thesis
      using 1 by (fastforce simp: moves_def dom_def)
  next
    case 2
    obtain l p where b: "local_cached_body (local_cached_fetched (lim s) g w zero_time) zero_time zero_time n = (l, p)"
      by (rule body_result)
    have "p \<noteq> Fetched n g w" using b by (cases rule: body_cases) auto
    then have "moves s (s\<lparr>lim := l, pcs := (broadcast (pcs s))(t \<mapsto> p)\<rparr>)"
      using 2 by (auto simp: moves_def broadcast_def dom_def)
    with lc_step.finish [OF 2 b] show ?thesis by blast
  qed
qed

lemma lc_progress:
  assumes "lc_inv s" and "pcs s t = Some p" and "\<forall>r. p \<noteq> Done r"
  shows "\<exists>es s'. lc_step s es s' \<and> moves s s'"
proof (cases p)
  case (Ready n)
  obtain l q where b: "local_cached_body (lim s) zero_time zero_time n = (l, q)" by (rule body_result)
  have "q \<noteq> Ready n" using b by (cases rule: body_cases) auto
  then have "moves s (s\<lparr>lim := l, pcs := (pcs s)(t \<mapsto> q)\<rparr>)"
    using assms(2) Ready by (auto simp: moves_def dom_def)
  with lc_step.enter [OF assms(2) [unfolded Ready] b] show ?thesis by blast
next
  case (Waiting n since)
  then have "goroutines is_asleep s \<noteq> {}"
    using in_goroutines [OF assms(2), of is_asleep] by (auto simp: is_asleep_def)
  then obtain u where "u \<in> goroutines is_fetcher s" using assms(1) by (auto simp: lc_inv_def)
  with assms(1) show ?thesis by (rule fetcher_moves)
next
  case (Woken n since)
  obtain l q where b: "local_cached_body ((lim s)\<lparr>lc_waiters := w64 (lc_waiters (lim s) - 1)\<rparr>)
      zero_time zero_time n = (l, q)" by (rule body_result)
  have "q \<noteq> Woken n since" using b by (cases rule: body_cases) auto
  then have "moves s (s\<lparr>lim := l, pcs := (pcs s)(t \<mapsto> q)\<rparr>)"
    using assms(2) Woken by (auto simp: moves_def dom_def)
  with lc_step.resume [OF assms(2) [unfolded Woken] b] show ?thesis by blast
next
  case (Unlocked n)
  then have "moves s (s\<lparr>pcs := (pcs s)(t \<mapsto>
      Done (zero_result\<lparr>Allowed := True, Remaining := lc_localTokens (lim s)\<rparr>))\<rparr>)"
    using assms(2) by (auto simp: moves_def dom_def)
  with lc_step.read [OF assms(2) [unfolded Unlocked]] show ?thesis by blast
qed (use assms fetcher_moves in_goroutines [OF assms(2), of is_fetcher] in \<open>auto simp: is_fetcher_def\<close>)

section \<open>The account of the tokens\<close>

definition granted_of :: "lc_event list \<Rightarrow> int" where
  "granted_of es = sum_list (map (\<lambda>e. case e of Granted g \<Rightarrow> g | _ \<Rightarrow> 0) es)"

definition admitted_of :: "lc_event list \<Rightarrow> int" where
  "admitted_of es = sum_list (map (\<lambda>e. case e of Admitted n \<Rightarrow> n | _ \<Rightarrow> 0) es)"

definition dropped_of :: "lc_event list \<Rightarrow> int" where
  "dropped_of es = sum_list (map (\<lambda>e. case e of Dropped k \<Rightarrow> k | _ \<Rightarrow> 0) es)"

lemmas account_defs = granted_of_def admitted_of_def dropped_of_def

lemma account_append [simp]:
  "granted_of (es @ fs) = granted_of es + granted_of fs"
  "admitted_of (es @ fs) = admitted_of es + admitted_of fs"
  "dropped_of (es @ fs) = dropped_of es + dropped_of fs"
  by (simp_all add: account_defs)

text \<open>Tokens granted and not yet added to the cache.\<close>

definition flight :: "lc_pc \<Rightarrow> int" where
  "flight p = (case p of Fetched _ g _ \<Rightarrow> g | _ \<Rightarrow> 0)"

definition in_flight :: "(nat \<rightharpoonup> lc_pc) \<Rightarrow> int" where
  "in_flight m = (\<Sum>t\<in>dom m. flight (the (m t)))"

lemma in_flight_upd:
  "finite (dom m) \<Longrightarrow> in_flight (m(t \<mapsto> p)) = in_flight (m(t := None)) + flight p"
proof -
  assume "finite (dom m)"
  then have fin: "finite (dom m - {t})" by simp
  have "(\<Sum>u\<in>insert t (dom m - {t}). flight (the ((m(t \<mapsto> p)) u)))
      = flight p + (\<Sum>u\<in>dom m - {t}. flight (the ((m(t \<mapsto> p)) u)))"
    by (subst sum.insert) (use fin in auto)
  also have "(\<Sum>u\<in>dom m - {t}. flight (the ((m(t \<mapsto> p)) u))) = (\<Sum>u\<in>dom m - {t}. flight (the ((m(t := None)) u)))"
    by (rule sum.cong) auto
  finally show ?thesis by (simp add: in_flight_def insert_Diff_if add.commute)
qed

lemma in_flight_split: "finite (dom m) \<Longrightarrow> m t = Some q \<Longrightarrow> in_flight m = in_flight (m(t := None)) + flight q"
  using in_flight_upd [of m t q] by (simp add: fun_upd_idem)

lemma flight_wake [simp]: "flight (wake p) = flight p"
  by (cases p) (simp_all add: flight_def)

lemma dom_broadcast [simp]: "dom (broadcast m) = dom m"
  by (auto simp: broadcast_def dom_def)

lemma in_flight_broadcast [simp]: "in_flight (broadcast m) = in_flight m"
  unfolding in_flight_def dom_broadcast by (rule sum.cong) (auto simp: broadcast_def dom_def)

lemma in_flight_nonneg: "\<forall>t p. m t = Some p \<longrightarrow> 0 \<le> flight p \<Longrightarrow> 0 \<le> in_flight m"
  unfolding in_flight_def by (rule sum_nonneg) auto

definition pc_ok :: "lc_pc \<Rightarrow> bool" where
  "pc_ok p = (case p of Ready n \<Rightarrow> 0 \<le> n | Waiting n _ \<Rightarrow> 0 \<le> n | Woken n _ \<Rightarrow> 0 \<le> n
     | Fetching n b _ \<Rightarrow> 0 \<le> n \<and> 0 \<le> b | Fetched n g _ \<Rightarrow> 0 \<le> n \<and> 0 \<le> g | Unlocked n \<Rightarrow> 0 \<le> n | Done _ \<Rightarrow> True)"

text \<open>
  The account of a state reached with the events \<open>es\<close>: everything granted is in the cache,
  in flight, admitted or dropped by a reset.
\<close>

definition lc_account :: "lc_event list \<Rightarrow> lc_sys \<Rightarrow> bool" where
  "lc_account es s \<longleftrightarrow> finite (dom (pcs s)) \<and> 0 \<le> lc_prefetchCount (lim s)
     \<and> (\<forall>t p. pcs s t = Some p \<longrightarrow> pc_ok p) \<and> 0 \<le> lc_localTokens (lim s)
     \<and> 0 \<le> admitted_of es \<and> 0 \<le> dropped_of es
     \<and> lc_localTokens (lim s) + in_flight (pcs s) + admitted_of es + dropped_of es = granted_of es"

text \<open>Calls with a cost that is not negative, and grants that fit in an \<^verbatim>\<open>int64\<close> together.\<close>

definition events_ok :: "lc_event list \<Rightarrow> bool" where
  "events_ok es \<longleftrightarrow> (\<forall>n. Called n \<in> set es \<longrightarrow> 0 \<le> n) \<and> granted_of es < 2 ^ 63"

lemma pc_ok_flight: "pc_ok p \<Longrightarrow> 0 \<le> flight p"
  by (cases p) (simp_all add: pc_ok_def flight_def)

lemma pc_ok_wake [simp]: "pc_ok (wake p) = pc_ok p"
  by (cases p) (simp_all add: pc_ok_def)

lemma lc_batch_nonneg: "0 \<le> lc_prefetchCount l \<Longrightarrow> 0 \<le> lc_batch l"
  by (simp add: lc_batch_def)

text \<open>One pass of the loop by a goroutine with nothing in flight, charged to the account.\<close>

lemma account_body:
  assumes fin: "finite (dom m)" and prefetch: "0 \<le> lc_prefetchCount l"
    and pcs: "\<forall>u p. m u = Some p \<longrightarrow> pc_ok p" and local: "0 \<le> lc_localTokens l" "lc_localTokens l < 2 ^ 63"
    and acc: "0 \<le> admitted_of es" "0 \<le> dropped_of es"
      "lc_localTokens l + in_flight (m(t := None)) + admitted_of es + dropped_of es = granted_of es"
    and n: "0 \<le> n" and body: "local_cached_body l now now' n = (l', p)"
  shows "lc_account (es @ admit_events p) (s\<lparr>lim := l', pcs := m(t \<mapsto> p)\<rparr>)"
  using body
proof (cases rule: body_cases)
  case admit
  have "w64 (lc_localTokens l - n) = lc_localTokens l - n"
    using admit n local by (intro w64_id) (simp add: in64_def)
  then show ?thesis
    using admit fin prefetch pcs local acc n
    by (auto simp: lc_account_def in_flight_upd flight_def pc_ok_def admit_events_def account_defs)
qed (use fin prefetch pcs local acc n lc_batch_nonneg [OF prefetch] in
    \<open>auto simp: lc_account_def in_flight_upd flight_def pc_ok_def admit_events_def account_defs\<close>)

lemma account_drop:
  assumes "lc_account es s" and "pcs s t = Some q"
  shows "lc_localTokens (lim s) + flight q + in_flight ((pcs s)(t := None)) + admitted_of es + dropped_of es = granted_of es"
    and "0 \<le> in_flight ((pcs s)(t := None))"
    and "\<forall>u p. pcs s u = Some p \<longrightarrow> pc_ok p" and "pc_ok q"
  using assms in_flight_split [of "pcs s" t q]
  by (auto simp: lc_account_def intro!: in_flight_nonneg pc_ok_flight split: if_splits)

lemma account_local:
  assumes "lc_account es s" and "granted_of es < 2 ^ 63"
  shows "lc_localTokens (lim s) < 2 ^ 63"
proof -
  have "0 \<le> in_flight (pcs s)"
    using assms(1) by (intro in_flight_nonneg) (auto simp: lc_account_def pc_ok_flight)
  with assms show ?thesis by (auto simp: lc_account_def)
qed

lemma granted_admit_events [simp]: "granted_of (admit_events p) = 0"
  by (cases p) (simp_all add: account_defs admit_events_def)

text \<open>The costs in a state are not negative, whatever the grants add up to.\<close>

definition pcs_ok :: "lc_sys \<Rightarrow> bool" where
  "pcs_ok s \<longleftrightarrow> 0 \<le> lc_prefetchCount (lim s) \<and> (\<forall>t p. pcs s t = Some p \<longrightarrow> pc_ok p)"

lemma body_pc_ok:
  assumes "local_cached_body l now now' n = (l', p)" and "0 \<le> n" and "0 \<le> lc_prefetchCount l"
  shows "pc_ok p \<and> lc_prefetchCount l' = lc_prefetchCount l"
  using assms(1) by (cases rule: body_cases) (use assms lc_batch_nonneg in \<open>auto simp: pc_ok_def\<close>)

lemma pcs_ok_step:
  "lc_step s fs s' \<Longrightarrow> pcs_ok s \<Longrightarrow> (\<forall>n. Called n \<in> set fs \<longrightarrow> 0 \<le> n) \<Longrightarrow> pcs_ok s' \<and> 0 \<le> granted_of fs"
proof (induction rule: lc_step.induct)
  case (enter s t n now now' l p)
  then have "pc_ok (Ready n)" by (auto simp: pcs_ok_def)
  then show ?case
    using enter body_pc_ok [OF enter.hyps(2)] by (auto simp: pcs_ok_def pc_ok_def split: if_splits)
next
  case (resume s t n since now now' l p)
  then have "pc_ok (Woken n since)" by (auto simp: pcs_ok_def)
  then show ?case
    using resume body_pc_ok [OF resume.hyps(2)] by (auto simp: pcs_ok_def pc_ok_def split: if_splits)
next
  case (fetch s t n b start now' now r g w)
  then have "pc_ok (Fetching n b start)" by (auto simp: pcs_ok_def)
  with fetch granted_cases [OF fetch.hyps(3)] show ?case
    by (auto simp: pcs_ok_def pc_ok_def account_defs split: if_splits)
next
  case (finish s t n g w now1 now now' l p)
  then have "pc_ok (Fetched n g w)" by (auto simp: pcs_ok_def)
  then show ?case
    using finish body_pc_ok [OF finish.hyps(2)]
    by (auto simp: pcs_ok_def pc_ok_def broadcast_def local_cached_fetched_def Let_def split: if_splits)
      (metis pc_ok_def pc_ok_wake)+
qed (auto simp: pcs_ok_def pc_ok_def account_defs LocalCached_Reset_def split: if_splits)

lemma account_step: "lc_step s fs s' \<Longrightarrow> lc_account es s \<Longrightarrow> events_ok (es @ fs) \<Longrightarrow> lc_account (es @ fs) s'"
proof (induction rule: lc_step.induct)
  case (call s t n)
  then have "in_flight ((pcs s)(t := None)) = in_flight (pcs s)" by (simp add: fun_upd_idem)
  with call show ?case
    by (auto simp: lc_account_def in_flight_upd account_defs flight_def pc_ok_def events_ok_def)
next
  case (enter s t n now now' l p)
  note d = account_drop [OF enter.prems(1) enter.hyps(1)]
  show ?case
    using enter.prems d account_local [OF enter.prems(1)]
    by (intro account_body [OF _ _ _ _ _ _ _ _ _ enter.hyps(2)])
      (auto simp: lc_account_def events_ok_def pc_ok_def flight_def)
next
  case (resume s t n since now now' l p)
  note d = account_drop [OF resume.prems(1) resume.hyps(1)]
  show ?case
    using resume.prems d account_local [OF resume.prems(1)]
    by (intro account_body [OF _ _ _ _ _ _ _ _ _ resume.hyps(2)])
      (auto simp: lc_account_def events_ok_def pc_ok_def flight_def)
next
  case (fetch s t n b start now' now r g w)
  note d = account_drop [OF fetch.prems(1) fetch.hyps(1)]
  from granted_cases [OF fetch.hyps(3)] d(4) have "0 \<le> g" "0 \<le> n" by (auto simp: pc_ok_def)
  with fetch.prems d show ?case
    by (auto simp: lc_account_def in_flight_upd account_defs flight_def pc_ok_def)
next
  case (finish s t n g w now1 now now' l p)
  note d = account_drop [OF finish.prems(1) finish.hyps(1)]
  let ?l = "local_cached_fetched (lim s) g w now1"
  have b: "in_flight ((broadcast (pcs s))(t := None)) = in_flight ((pcs s)(t := None))"
  proof -
    have "(broadcast (pcs s))(t := None) = broadcast ((pcs s)(t := None))"
      by (auto simp: broadcast_def)
    then show ?thesis by simp
  qed
  have g: "0 \<le> g" "0 \<le> n" using d(4) by (auto simp: pc_ok_def)
  have small: "lc_localTokens (lim s) + g < 2 ^ 63"
    using finish.prems d by (auto simp: lc_account_def events_ok_def flight_def)
  have l: "lc_localTokens ?l = lc_localTokens (lim s) + g"
    using small g finish.prems(1) by (simp add: local_cached_fetched_def Let_def w64_id in64_def lc_account_def)
  have frame: "lc_prefetchCount ?l = lc_prefetchCount (lim s)"
    by (simp add: local_cached_fetched_def Let_def)
  have wake: "\<forall>u p. broadcast (pcs s) u = Some p \<longrightarrow> pc_ok p"
    using d(3) by (auto simp: broadcast_def)
  show ?case
    by (rule account_body [OF _ _ wake _ _ _ _ _ g(2) finish.hyps(2)])
      (use finish.prems d g small in \<open>auto simp: l b frame lc_account_def flight_def\<close>)
next
  case (read s t n)
  note d = account_drop [OF read.prems(1) read.hyps]
  with read.prems show ?case
    by (auto simp: lc_account_def in_flight_upd account_defs flight_def pc_ok_def)
next
  case (reset s key)
  then show ?case
    by (auto simp: lc_account_def LocalCached_Reset_def account_defs)
next
  case (other s now m r g w)
  then show ?case by (auto simp: lc_account_def)
qed

lemma account_run:
  "lc_run s es s' \<Longrightarrow> pcs_ok s \<Longrightarrow> (\<forall>n. Called n \<in> set es \<longrightarrow> 0 \<le> n) \<Longrightarrow> lc_account [] s \<Longrightarrow>
    pcs_ok s' \<and> (granted_of es < 2 ^ 63 \<longrightarrow> lc_account es s')"
proof (induction rule: lc_run.induct)
  case (step s es s' fs s'')
  then have IH: "pcs_ok s'" "granted_of es < 2 ^ 63 \<longrightarrow> lc_account es s'" by auto
  moreover have "pcs_ok s'' \<and> 0 \<le> granted_of fs"
    using step.prems(2) by (intro pcs_ok_step [OF step.hyps(2) IH(1)]) auto
  ultimately show ?case
    using step.prems(2) account_step [OF step.hyps(2)] by (auto simp: events_ok_def)
qed simp

lemma account_init:
  "lc_localTokens l = 0 \<Longrightarrow> 0 \<le> lc_prefetchCount l \<Longrightarrow> lc_account [] (lc_init l r) \<and> pcs_ok (lc_init l r)"
  by (simp add: lc_account_def pcs_ok_def lc_init_def in_flight_def account_defs)

section \<open>One caller at a time\<close>

text \<open>
  \<^verbatim>\<open>AllowN\<close> as a caller that is alone runs it: the loop, with the clock readings of each pass
  as arguments. A pass reads the clock at its top, at the start of the fetch, in
  \<^verbatim>\<open>RequestTokens\<close> and when it sets \<^verbatim>\<open>l.rejectUntil\<close>. The list of passes is the fuel: \<open>None\<close>
  says the call has not returned within them (or sleeps for a fetch that is not its own).
\<close>

record lc_clock =
  at_top :: gotime
  at_start :: gotime
  at_request :: gotime
  at_return :: gotime

fun local_cached_AllowN :: "lc_clock list \<Rightarrow> local_cached \<Rightarrow> remote_token_server \<Rightarrow> int64
    \<Rightarrow> (local_cached \<times> remote_token_server \<times> rate_limit_result) option" where
  "local_cached_AllowN [] l r n = None"
| "local_cached_AllowN (c # cs) l r n =
     (case local_cached_body l (at_top c) (at_start c) n of
        (l, Unlocked n) \<Rightarrow> Some (l, r, zero_result\<lparr>Allowed := True, Remaining := lc_localTokens l\<rparr>)
      | (l, Done res) \<Rightarrow> Some (l, r, res)
      | (l, Fetching n batch start) \<Rightarrow>
          (let (r, granted, retryAfter) = RequestTokens r (at_request c) batch
           in local_cached_AllowN cs (local_cached_fetched l granted retryAfter (at_return c)) r n)
      | (l, _) \<Rightarrow> None)"

text \<open>What a pass that reaches the fetch leaves behind.\<close>

lemma fetch_pass:
  assumes "lc_localTokens l < n" and "\<not> time_before (at_top c) (lc_rejectUntil l)" and "\<not> lc_fetching l"
    and "RequestTokens r (at_request c) (lc_batch l) = (r', g, w)"
  shows "local_cached_AllowN (c # cs) l r n =
    local_cached_AllowN cs (local_cached_fetched (l\<lparr>lc_fetching := True\<rparr>) g w (at_return c)) r' n"
  using assms by (simp add: local_cached_body_def)

lemma admit_pass:
  assumes "n \<le> lc_localTokens l"
  shows "\<exists>l'. local_cached_AllowN (c # cs) l r n =
    Some (l', r, zero_result\<lparr>Allowed := True, Remaining := w64 (lc_localTokens l - n)\<rparr>)"
  using assms by (simp add: local_cached_body_def)

text \<open>A server that is not in debt stays so when nothing is asked of it.\<close>

definition solvent :: "remote_token_server \<Rightarrow> bool" where
  "solvent r \<longleftrightarrow> 0 < rts_rate r \<and> 0 \<le> rts_tokens r"

lemma request_nothing:
  assumes "solvent r" and "0 \<le> time_diff now (rts_lastRefill r)"
  obtains r' where "RequestTokens r now 0 = (r', 0, 0)" and "solvent r'" and "rts_lastRefill r' = now"
proof -
  have "0 \<le> tb_credit (rts_rate r) now (rts_lastRefill r)"
    using assms by (intro tb_credit_nonneg) (auto simp: solvent_def)
  then have "0 \<le> rts_refilled r now"
    using assms(1) unfolding rts_refilled_def fadd_def by (intro rnd_nonneg) (auto simp: solvent_def)
  moreover have "0 \<le> fsub (rts_refilled r now) (i2f 0)"
    using calculation unfolding fsub_def by (intro rnd_nonneg) simp
  ultimately show ?thesis
    using assms(1) that by (simp add: RequestTokens_cases Let_def solvent_def)
qed

definition clocks_forward :: "gotime \<Rightarrow> lc_clock list \<Rightarrow> bool" where
  "clocks_forward t cs \<longleftrightarrow> forward ((t, 0) # map (\<lambda>c. (at_request c, 0)) cs)"

lemma clocks_forward_Cons:
  "clocks_forward t (c # cs) \<Longrightarrow> 0 \<le> time_diff (at_request c) t \<and> clocks_forward (at_request c) cs"
  by (simp add: clocks_forward_def forward_def)

lemma never_returns:
  assumes "lc_prefetchCount l = 0" and "lc_waiters l = 0" and "\<not> lc_fetching l" and "in64 (lc_localTokens l)"
    and "lc_localTokens l < n" and "\<forall>c\<in>set cs. \<not> time_before (at_top c) (lc_rejectUntil l)"
    and "solvent r" and "clocks_forward (rts_lastRefill r) cs"
  shows "local_cached_AllowN cs l r n = None"
  using assms
proof (induction cs arbitrary: l r)
  case Nil
  then show ?case by simp
next
  case (Cons c cs)
  have fwd: "0 \<le> time_diff (at_request c) (rts_lastRefill r)" "clocks_forward (at_request c) cs"
    using clocks_forward_Cons [OF Cons.prems(8)] by auto
  obtain r' where req: "RequestTokens r (at_request c) 0 = (r', 0, 0)" "solvent r'" "rts_lastRefill r' = at_request c"
    using request_nothing [OF Cons.prems(7) fwd(1)] .
  let ?l = "local_cached_fetched (l\<lparr>lc_fetching := True\<rparr>) 0 0 (at_return c)"
  have l: "?l = l"
    using Cons.prems(3,4) by (intro local_cached.equality) (simp_all add: local_cached_fetched_def w64_id)
  have "local_cached_AllowN (c # cs) l r n = local_cached_AllowN cs ?l r' n"
    using Cons.prems req(1) by (intro fetch_pass) (auto simp: lc_batch_def)
  also have "\<dots> = None"
    unfolding l using Cons.prems(1-6) req fwd(2) by (intro Cons.IH) auto
  finally show ?case .
qed

section \<open>Two runs\<close>

definition demo_cached :: local_cached where
  "demo_cached = NewLocalCachedLimiter demo_config 2 0 0"

definition demo_remote :: remote_token_server where
  "demo_remote = NewRemoteTokenServer (now_at 0 0) 10 5"

text \<open>One goroutine fetches a batch of two, another sleeps until it is back.\<close>

definition demo_waiting :: lc_sys where
  "demo_waiting = \<lparr>lim = demo_cached\<lparr>lc_fetching := True, lc_waiters := 1\<rparr>, remote = demo_remote,
     pcs = [0 \<mapsto> Fetching 1 2 (now_at 0 0), 1 \<mapsto> Waiting 1 (now_at 0 0)]\<rparr>"

text \<open>The fetch has returned two tokens, one of which admitted the fetcher.\<close>

definition demo_admitted :: lc_sys where
  "demo_admitted = \<lparr>lim = demo_cached\<lparr>lc_waiters := 1, lc_localTokens := 1\<rparr>,
     remote = demo_remote\<lparr>rts_tokens := 3\<rparr>, pcs = [0 \<mapsto> Unlocked 1, 1 \<mapsto> Woken 1 (now_at 0 0)]\<rparr>"

lemmas demo_defs = demo_cached_def demo_remote_def demo_waiting_def demo_admitted_def
  NewLocalCachedLimiter_def NewRemoteTokenServer_def lc_init_def local_cached_body_def lc_batch_def
  admit_events_def zero_time_def time_before_def time_diff_def now_at_def w64_id in64_def

lemma lc_run_snoc: "lc_run s es s' \<Longrightarrow> lc_step s' fs s'' \<Longrightarrow> gs = es @ fs \<Longrightarrow> lc_run s gs s''"
  using lc_run.step by blast

lemma demo_waiting_run: "lc_run (lc_init demo_cached demo_remote) [Called 1, Called 1] demo_waiting"
proof -
  let ?init = "lc_init demo_cached demo_remote"
  let ?s1 = "?init\<lparr>pcs := (pcs ?init)(0 \<mapsto> Ready 1)\<rparr>"
  let ?s2 = "?s1\<lparr>pcs := (pcs ?s1)(1 \<mapsto> Ready 1)\<rparr>"
  have "lc_run ?init [Called 1] ?s1"
    by (rule lc_run_snoc [OF lc_run.start lc_step.call]) (simp_all add: lc_init_def)
  then have r2: "lc_run ?init [Called 1, Called 1] ?s2"
    by (rule lc_run_snoc [OF _ lc_step.call]) (simp_all add: lc_init_def)
  have "local_cached_body (lim ?s2) (now_at 0 0) (now_at 0 0) 1
    = (demo_cached\<lparr>lc_fetching := True\<rparr>, Fetching 1 2 (now_at 0 0))"
    by (simp add: demo_defs)
  from lc_run_snoc [OF r2 lc_step.enter [where t = 0, OF _ this]]
  have r3: "lc_run ?init [Called 1, Called 1] (?s2\<lparr>lim := demo_cached\<lparr>lc_fetching := True\<rparr>,
      pcs := (pcs ?s2)(0 \<mapsto> Fetching 1 2 (now_at 0 0))\<rparr>)" (is "lc_run _ _ ?s3")
    by (simp add: lc_init_def admit_events_def)
  have b: "local_cached_body (lim ?s3) (now_at 0 0) (now_at 0 0) 1
    = (demo_cached\<lparr>lc_fetching := True, lc_waiters := 1\<rparr>, Waiting 1 (now_at 0 0))"
    by (simp add: demo_defs)
  have "lc_run ?init [Called 1, Called 1] (?s3\<lparr>lim := demo_cached\<lparr>lc_fetching := True, lc_waiters := 1\<rparr>,
      pcs := (pcs ?s3)(1 \<mapsto> Waiting 1 (now_at 0 0))\<rparr>)"
    by (rule lc_run_snoc [OF r3 lc_step.enter [where t = 1, OF _ b]]) (simp_all add: lc_init_def admit_events_def)
  then show ?thesis by (simp add: demo_waiting_def lc_init_def fun_upd_twist)
qed

lemma demo_admitted_run:
  "lc_run (lc_init demo_cached demo_remote) [Called 1, Called 1, Granted 2, Admitted 1] demo_admitted"
proof -
  let ?init = "lc_init demo_cached demo_remote"
  let ?l = "demo_cached\<lparr>lc_waiters := 1, lc_localTokens := 1\<rparr>"
  have req: "RequestTokens (remote demo_waiting) (now_at 0 0) 2 = (demo_remote\<lparr>rts_tokens := 3\<rparr>, 2, 0)"
    by (simp add: demo_waiting_def demo_remote_def NewRemoteTokenServer_def RequestTokens_cases rts_refilled_def
        tb_credit_def seconds_whole [of 0, simplified] fadd_int [of 5 0, simplified] fsub_int [of 5 2, simplified]
        fmul_def Let_def)
  have r: "lc_run ?init [Called 1, Called 1, Granted 2] (demo_waiting\<lparr>remote := demo_remote\<lparr>rts_tokens := 3\<rparr>,
      pcs := (pcs demo_waiting)(0 \<mapsto> Fetched 1 2 0)\<rparr>)" (is "lc_run _ _ ?s")
    by (rule lc_run_snoc [OF demo_waiting_run lc_step.fetch [where t = 0, OF _ _ req]])
      (simp_all add: demo_waiting_def fetch_delay_def demo_cached_def NewLocalCachedLimiter_def w64_id in64_def, simp)
  have b: "local_cached_body (local_cached_fetched (lim ?s) 2 0 (now_at 0 0)) (now_at 0 0) (now_at 0 0) 1
    = (?l, Unlocked 1)"
    by (simp add: demo_defs local_cached_fetched_def)
  have "lc_run ?init [Called 1, Called 1, Granted 2, Admitted 1]
      (?s\<lparr>lim := ?l, pcs := (broadcast (pcs ?s))(0 \<mapsto> Unlocked 1)\<rparr>)"
    by (rule lc_run_snoc [OF r lc_step.finish [where t = 0, OF _ b]]) (simp_all add: admit_events_def)
  moreover have "(broadcast (pcs ?s))(0 \<mapsto> Unlocked 1) = [0 \<mapsto> Unlocked 1, 1 \<mapsto> Woken 1 (now_at 0 0)]"
    by (auto simp: broadcast_def demo_waiting_def)
  ultimately show ?thesis by (simp add: demo_admitted_def demo_waiting_def)
qed

section \<open>Properties\<close>

lemma new_inv: "lc_inv (lc_init (NewLocalCachedLimiter config prefetch delayMs jitterMs) r)"
  by (rule lc_inv_init) (simp_all add: NewLocalCachedLimiter_def)

text \<open>
  C10. Single flight. In every state reached from a new limiter, by any interleaving, at most
  one goroutine is fetching and the flag says whether one is; if any goroutine sleeps on
  the condition variable a fetch is in progress that will broadcast; and \<^verbatim>\<open>l.waiters\<close> counts
  the goroutines inside \<^verbatim>\<open>Wait\<close>.
\<close>

theorem local_cached_single_flight:
  assumes "lc_run (lc_init (NewLocalCachedLimiter config prefetch delayMs jitterMs) r) es s"
  shows "card (goroutines is_fetcher s) = (if lc_fetching (lim s) then 1 else 0)
    \<and> (goroutines is_asleep s \<noteq> {} \<longrightarrow> lc_fetching (lim s))
    \<and> lc_waiters (lim s) = w64 (int (card (goroutines is_waiter s)))"
  using lc_run_inv [OF assms new_inv] by (auto simp: lc_inv_def)

theorem local_cached_single_flight_witness:
  "card (goroutines is_fetcher demo_waiting) = 1 \<and> lc_waiters (lim demo_waiting) = 1"
  using local_cached_single_flight [OF demo_waiting_run [unfolded demo_cached_def]]
  by (simp add: demo_waiting_def)

text \<open>
  C11. No deadlock. In every reachable state in which some call has not returned, some
  goroutine inside \<^verbatim>\<open>AllowN\<close> can take a step (no new call and no request of another server
  is needed).
\<close>

theorem local_cached_no_deadlock:
  assumes "lc_run (lc_init (NewLocalCachedLimiter config prefetch delayMs jitterMs) r) es s"
    and "pcs s t = Some p" and "\<forall>res. p \<noteq> Done res"
  shows "\<exists>fs s'. lc_step s fs s' \<and> dom (pcs s') = dom (pcs s) \<and> (\<exists>u. pcs s' u \<noteq> pcs s u)"
  using lc_progress [OF lc_run_inv [OF assms(1) new_inv] assms(2,3)] by (simp add: moves_def)

theorem local_cached_no_deadlock_witness:
  "\<exists>fs s'. lc_step demo_waiting fs s' \<and> dom (pcs s') = dom (pcs demo_waiting) \<and> (\<exists>u. pcs s' u \<noteq> pcs demo_waiting u)"
  by (rule local_cached_no_deadlock [OF demo_waiting_run [unfolded demo_cached_def], of 1])
    (auto simp: demo_waiting_def)

text \<open>
  C12. Conservation. However the callers interleave and whatever else asks the remote server,
  the tokens admitted, the tokens cached, the tokens lost to \<^verbatim>\<open>Reset\<close> and the tokens on
  their way back from a fetch add up to the tokens granted; so the limiter never admits
  more than the remote server granted it.
\<close>

theorem local_cached_conservation:
  assumes "lc_run (lc_init (NewLocalCachedLimiter config prefetch delayMs jitterMs) r) es s"
    and "0 \<le> prefetch" and "\<forall>n. Called n \<in> set es \<longrightarrow> 0 \<le> n" and "granted_of es < 2 ^ 63"
  shows "admitted_of es + lc_localTokens (lim s) + dropped_of es + in_flight (pcs s) = granted_of es
    \<and> admitted_of es \<le> granted_of es \<and> 0 \<le> lc_localTokens (lim s)"
proof -
  have "lc_account [] (lc_init (NewLocalCachedLimiter config prefetch delayMs jitterMs) r)
      \<and> pcs_ok (lc_init (NewLocalCachedLimiter config prefetch delayMs jitterMs) r)"
    using assms(2) by (intro account_init) (simp_all add: NewLocalCachedLimiter_def)
  then have "lc_account es s" using account_run [OF assms(1)] assms(3,4) by blast
  moreover have "0 \<le> in_flight (pcs s)"
    using calculation by (intro in_flight_nonneg) (auto simp: lc_account_def pc_ok_flight)
  ultimately show ?thesis by (simp add: lc_account_def)
qed

theorem local_cached_conservation_witness:
  "in_flight (pcs demo_admitted) = 0 \<and> lc_localTokens (lim demo_admitted) = 1
    \<and> admitted_of [Called 1, Called 1, Granted 2, Admitted 1] = 1"
  using local_cached_conservation [OF demo_admitted_run [unfolded demo_cached_def]]
  by (simp add: account_defs demo_admitted_def)

text \<open>
  C13. A lone call returns. With a batch that covers the cost, a caller that is alone returns
  within two passes of the loop, admitted if the cache had the tokens or the remote server
  was not in debt; if it was in debt, the call is rejected on the second pass provided that
  pass starts within the wait it was told.
\<close>

theorem local_cached_returns:
  assumes "0 \<le> n" and "n \<le> lc_prefetchCount l" and "lc_waiters l = 0" and "\<not> lc_fetching l"
    and "0 \<le> lc_localTokens l" and "lc_localTokens l + lc_prefetchCount l < 2 ^ 63"
    and "\<not> time_before (at_top c1) (lc_rejectUntil l)"
    and "RequestTokens r (at_request c1) (lc_prefetchCount l) = (r', g, w)"
    and "rts_refilled r (at_request c1) < 0 \<longrightarrow>
      0 < w \<and> time_before (at_top c2) (time_add (at_return c1) w)"
  shows "\<exists>l' r'' res. local_cached_AllowN [c1, c2] l r n = Some (l', r'', res)
    \<and> (Allowed res \<longleftrightarrow> n \<le> lc_localTokens l \<or> 0 \<le> rts_refilled r (at_request c1))"
proof (cases "n \<le> lc_localTokens l")
  case True
  then show ?thesis using admit_pass [OF True, of c1 "[c2]" r] by auto
next
  case False
  have b: "lc_batch l = lc_prefetchCount l" using assms(1-3) by (simp add: lc_batch_def)
  let ?l = "local_cached_fetched (l\<lparr>lc_fetching := True\<rparr>) g w (at_return c1)"
  have pass: "local_cached_AllowN [c1, c2] l r n = local_cached_AllowN [c2] ?l r' n"
    using False assms b by (intro fetch_pass) auto
  show ?thesis
  proof (cases "rts_refilled r (at_request c1) < 0")
    case True
    then have "g = 0" "0 < w" "time_before (at_top c2) (time_add (at_return c1) w)"
      using granted_cases [OF assms(8)] assms(9) by auto
    then show ?thesis
      using False True assms(5,6) assms(1,2) unfolding pass
      by (simp add: local_cached_fetched_def local_cached_body_def Let_def w64_id in64_def)
  next
    case False
    then have "g = lc_prefetchCount l" using granted_cases [OF assms(8)] by auto
    then have "lc_localTokens ?l = lc_localTokens l + lc_prefetchCount l"
      using assms(1,2,5,6) by (simp add: local_cached_fetched_def Let_def w64_id in64_def)
    then have "n \<le> lc_localTokens ?l" using assms(2,5) by simp
    from admit_pass [OF this, of c2 "[]" r'] obtain l' where
      "local_cached_AllowN [c2] ?l r' n =
        Some (l', r', zero_result\<lparr>Allowed := True, Remaining := w64 (lc_localTokens ?l - n)\<rparr>)"
      by blast
    then show ?thesis using False unfolding pass by (simp del: local_cached_AllowN.simps)
  qed
qed

definition demo_clock :: lc_clock where
  "demo_clock = \<lparr>at_top = now_at 0 0, at_start = now_at 0 0, at_request = now_at 0 0, at_return = now_at 0 0\<rparr>"

lemma demo_refilled: "rts_refilled demo_remote (now_at 0 0) = 5"
  by (simp add: demo_remote_def NewRemoteTokenServer_def rts_refilled_def tb_credit_def
      seconds_whole [of 0, simplified] fadd_int [of 5 0, simplified] fmul_def)

theorem local_cached_returns_witness:
  "\<exists>l' r'' res. local_cached_AllowN [demo_clock, demo_clock] demo_cached demo_remote 1 = Some (l', r'', res)
    \<and> Allowed res"
proof -
  obtain r' g w where req: "RequestTokens demo_remote (now_at 0 0) 2 = (r', g, w)" by (metis prod_cases3)
  show ?thesis
    using local_cached_returns [of 1 demo_cached demo_clock demo_remote r' g w demo_clock] req
    by (simp add: demo_clock_def demo_refilled)
      (simp add: demo_cached_def NewLocalCachedLimiter_def zero_time_def time_before_def time_diff_def)
qed

text \<open>
  C14. Livelock without a batch. With \<^verbatim>\<open>prefetch_count: 0\<close>, which \<^verbatim>\<open>Validate\<close> accepts, a
  lone caller never returns while the remote server is solvent: every fetch asks for
  nothing, is granted nothing and is told no wait, so no number of passes is enough.
\<close>

theorem local_cached_livelock:
  assumes "0 < n" and "0 < rate" and "0 \<le> burst" and "clocks_forward start cs"
    and "\<forall>c\<in>set cs. \<not> time_before (at_top c) zero_time"
  shows "local_cached_AllowN cs (NewLocalCachedLimiter config 0 delayMs jitterMs)
    (NewRemoteTokenServer start rate burst) n = None"
  using assms i2f_nonneg [of burst]
  by (intro never_returns) (auto simp: NewLocalCachedLimiter_def NewRemoteTokenServer_def solvent_def i2f_pos in64_def)

theorem local_cached_livelock_witness:
  "local_cached_AllowN (replicate 3 demo_clock) (NewLocalCachedLimiter demo_config 0 0 0)
    (NewRemoteTokenServer (now_at 0 0) 10 5) 1 = None"
  by (rule local_cached_livelock)
    (simp_all add: numeral_3_eq_3 clocks_forward_def forward_def demo_clock_def zero_time_def
      time_before_def time_diff_def)

end
