(* ===== verification/FixedWindow.thy ===== *)
theory FixedWindow
  imports LimiterSpec
begin

text \<open>
  The fixed window counter of \<^verbatim>\<open>pkg/ratelimiter/limiter.go\<close>. \<open>fixed_window_step\<close> is the
  critical section of \<^verbatim>\<open>AllowN\<close> on the state of the key; \<open>FixedWindow_AllowN\<close> wraps it in
  the shard's lookup and store.

  Shown: the admitted cost of one window never exceeds the rate, a request is refused only
  when it does not fit, and what the unchecked \<^verbatim>\<open>state.count+n\<close> admits when it overflows.
\<close>

record fixed_window_state =
  fw_count :: int64
  fw_windowStart :: gotime

record fixed_window =
  fw_base :: "fixed_window_state base_limiter"
  fw_rate :: int64
  fw_window :: duration

definition NewFixedWindow :: "rate_limiter_config \<Rightarrow> error + fixed_window" where
  "NewFixedWindow config =
     (if Rate config \<le> 0 then Inl RateNotPositive
      else let window = (if Window config \<le> 0 then second else Window config)
           in Inr \<lparr>fw_base = newBaseLimiter config, fw_rate = Rate config, fw_window = window\<rparr>)"

definition fixed_window_step :: "fixed_window \<Rightarrow> string \<Rightarrow> fixed_window_state option
    \<Rightarrow> gotime \<times> int64 \<Rightarrow> fixed_window_state \<times> rate_limit_result" where
  "fixed_window_step f key st = (\<lambda>(now, n).
     let currentWindow = time_truncate now (fw_window f);
         fresh = \<lparr>fw_count = 0, fw_windowStart = currentWindow\<rparr>;
         state = (case st of
             None \<Rightarrow> fresh
           | Some s \<Rightarrow> if time_before (fw_windowStart s) currentWindow then fresh else s);
         elapsed = time_sub now currentWindow;
         result = zero_result\<lparr>Remaining := w64 (fw_rate f - fw_count state),
                              ResetAfter := w64 (fw_window f - elapsed)\<rparr>
     in if w64 (fw_count state + n) \<le> fw_rate f
        then let state = state\<lparr>fw_count := w64 (fw_count state + n)\<rparr>
             in (state, result\<lparr>Allowed := True, Remaining := w64 (fw_rate f - fw_count state)\<rparr>)
        else (state, result\<lparr>Allowed := False, LimitedBy := key,
                            RetryAfter := w64 (fw_window f - elapsed)\<rparr>))"

definition FixedWindow_AllowN :: "fixed_window allow_fun" where
  "FixedWindow_AllowN f now key n =
     (let (s, r) = fixed_window_step f key (shard_get (fw_base f) key) (now, n)
      in (f\<lparr>fw_base := shard_put (fw_base f) key s\<rparr>, Inr r))"

definition FixedWindow_Allow ::
    "fixed_window \<Rightarrow> gotime \<Rightarrow> string \<Rightarrow> fixed_window \<times> (error + rate_limit_result)" where
  "FixedWindow_Allow f now key = FixedWindow_AllowN f now key 1"

definition FixedWindow_Reset :: "fixed_window \<Rightarrow> string \<Rightarrow> fixed_window" where
  "FixedWindow_Reset f key = f\<lparr>fw_base := shard_delete (fw_base f) key\<rparr>"

section \<open>The contract of a limiter\<close>

definition fixed_window_ok :: "fixed_window \<Rightarrow> bool" where
  "fixed_window_ok f \<longleftrightarrow> base_ok (fw_base f) \<and> 0 < fw_rate f \<and> in64 (fw_rate f)
     \<and> 0 < fw_window f \<and> in64 (fw_window f)"

lemma fixed_window_step_cong:
  "fw_rate f = fw_rate g \<Longrightarrow> fw_window f = fw_window g \<Longrightarrow> fixed_window_step f = fixed_window_step g"
  unfolding fixed_window_step_def [abs_def] by (simp only:)

lemma FixedWindow_AllowN_sel [simp]:
  "fw_rate (fst (FixedWindow_AllowN f now key n)) = fw_rate f"
  "fw_window (fst (FixedWindow_AllowN f now key n)) = fw_window f"
  by (simp_all add: FixedWindow_AllowN_def case_prod_beta Let_def)

interpretation fw: rate_limiter FixedWindow_AllowN FixedWindow_Reset
  "\<lambda>f. shard_get (fw_base f)" fixed_window_step fixed_window_ok
  by unfold_locales
    (auto simp: FixedWindow_AllowN_def FixedWindow_Reset_def fixed_window_ok_def case_prod_beta
      Let_def shard_store.get_put shard_store.get_del intro!: fixed_window_step_cong)

lemma fixed_window_ok_new:
  assumes "NewFixedWindow config = Inr f" and "in64 (rl_Shards config)" and "in64 (Rate config)"
    and "in64 (Window config)"
  shows "fixed_window_ok f" and "shard_get (fw_base f) key = None"
  using assms
  by (auto simp: NewFixedWindow_def fixed_window_ok_def base_ok_new shard_get_new Let_def second_def
      in64_def split: if_splits)

section \<open>The quota of a window\<close>

text \<open>The cost already counted in the window of \<open>now\<close>.\<close>

definition fw_used :: "fixed_window \<Rightarrow> fixed_window_state option \<Rightarrow> gotime \<Rightarrow> int64" where
  "fw_used f st now = (case st of None \<Rightarrow> 0
     | Some s \<Rightarrow> if time_before (fw_windowStart s) (time_truncate now (fw_window f)) then 0
               else fw_count s)"

lemma fixed_window_step_allowed:
  "Allowed (snd (fixed_window_step f key st (now, n))) \<longleftrightarrow> w64 (fw_used f st now + n) \<le> fw_rate f"
  by (simp add: fixed_window_step_def fw_used_def Let_def split: option.splits)

lemma fixed_window_step_count:
  "fw_count (fst (fixed_window_step f key st (now, n))) =
     (if w64 (fw_used f st now + n) \<le> fw_rate f then w64 (fw_used f st now + n) else fw_used f st now)"
  by (simp add: fixed_window_step_def fw_used_def Let_def split: option.splits)

definition fw_state_ok :: "fixed_window \<Rightarrow> fixed_window_state \<Rightarrow> bool" where
  "fw_state_ok f s \<longleftrightarrow> 0 \<le> fw_count s \<and> fw_count s \<le> fw_rate f \<and>
     mono (fw_windowStart s) = None \<and> fw_window f dvd wall (fw_windowStart s)"

definition fw_req_ok :: "fixed_window \<Rightarrow> gotime \<times> int64 \<Rightarrow> bool" where
  "fw_req_ok f i \<longleftrightarrow> 0 \<le> snd i \<and> snd i + fw_rate f < 2 ^ 63"

lemma fw_used_bounds:
  assumes "fixed_window_ok f" and "\<forall>s. st = Some s \<longrightarrow> fw_state_ok f s"
  shows "0 \<le> fw_used f st now" and "fw_used f st now \<le> fw_rate f"
  using assms by (auto simp: fw_used_def fw_state_ok_def fixed_window_ok_def split: option.splits)

lemma fw_no_wrap:
  assumes "fixed_window_ok f" and "\<forall>s. st = Some s \<longrightarrow> fw_state_ok f s" and "fw_req_ok f (now, n)"
  shows "w64 (fw_used f st now + n) = fw_used f st now + n"
  using assms(3) fw_used_bounds [OF assms(1,2), of now]
  by (intro w64_id) (auto simp: in64_def fw_req_ok_def)

lemma fw_windowStart_step:
  "fw_windowStart (fst (fixed_window_step f key st (now, n))) =
     (case st of None \<Rightarrow> time_truncate now (fw_window f)
      | Some s \<Rightarrow> if time_before (fw_windowStart s) (time_truncate now (fw_window f))
                then time_truncate now (fw_window f) else fw_windowStart s)"
  by (simp add: fixed_window_step_def Let_def split: option.splits)

lemma fw_state_ok_step:
  assumes "fixed_window_ok f" and "\<forall>s. st = Some s \<longrightarrow> fw_state_ok f s" and "fw_req_ok f i"
  shows "fw_state_ok f (fst (fixed_window_step f key st i))"
proof -
  obtain now n where i: "i = (now, n)" by fastforce
  have "0 \<le> n" using assms(3) by (simp add: i fw_req_ok_def)
  moreover have "fw_window f dvd wall (time_truncate now (fw_window f))"
    using assms(1) by (intro truncate_dvd) (simp add: fixed_window_ok_def)
  ultimately show ?thesis
    using assms(2) fw_used_bounds [OF assms(1,2), of now] fw_no_wrap [OF assms(1,2) assms(3) [unfolded i]]
    unfolding i fw_state_ok_def fixed_window_step_count fw_windowStart_step
    by (auto split: option.splits simp: fw_state_ok_def)
qed

definition in_window :: "fixed_window \<Rightarrow> gotime \<Rightarrow> gotime \<times> int64 \<Rightarrow> bool" where
  "in_window f w i \<longleftrightarrow> time_truncate (fst i) (fw_window f) = w"

text \<open>
  Under a wall clock that does not go back, the state counts exactly the cost admitted in
  the current window, and its window is the one of the last request.
\<close>

definition fw_run :: "fixed_window \<Rightarrow> string \<Rightarrow> (gotime \<times> int64) list
    \<Rightarrow> fixed_window_state option \<times> rate_limit_result list" where
  "fw_run f key is = solo (fixed_window_step f key) None is"

lemma fw_run_state_ok:
  assumes "fixed_window_ok f" and "\<forall>i\<in>set is. fw_req_ok f i"
  shows "\<forall>s. fst (fw_run f key is) = Some s \<longrightarrow> fw_state_ok f s"
  unfolding fw_run_def by (rule solo_invariant) (use assms fw_state_ok_step in auto)

lemma truncate_mono_f: "fixed_window_ok f \<Longrightarrow> wall t \<le> wall u \<Longrightarrow>
    wall (time_truncate t (fw_window f)) \<le> wall (time_truncate u (fw_window f))"
  by (intro truncate_mono) (simp add: fixed_window_ok_def)

lemma fw_run_window:
  assumes "fixed_window_ok f" and "\<forall>i\<in>set is. fw_req_ok f i" and "sorted (map (wall \<circ> fst) is)"
    and "fst (fw_run f key is) = Some s"
  shows "is \<noteq> [] \<and> fw_windowStart s = time_truncate (fst (last is)) (fw_window f)"
  using assms
proof (induction "is" arbitrary: s rule: rev_induct)
  case Nil
  then show ?case by (simp add: fw_run_def)
next
  case (snoc i "is")
  obtain now n where i: "i = (now, n)" by fastforce
  have prev: "fw_windowStart s' = time_truncate (fst (last is)) (fw_window f)
      \<and> is \<noteq> [] \<and> fw_state_ok f s'"
    if "fst (fw_run f key is) = Some s'" for s'
    using snoc.IH [of s'] snoc.prems(1-3) that fw_run_state_ok [of f "is" key]
    by (auto simp: sorted_append)
  have "wall (fw_windowStart s') \<le> wall (time_truncate now (fw_window f))"
    if "fst (fw_run f key is) = Some s'" for s'
    using prev [OF that] snoc.prems(1,3) last_in_set [of "is"]
    by (auto simp: i sorted_append intro!: truncate_mono_f)
  then have "fw_windowStart s = time_truncate now (fw_window f)"
    using snoc.prems(4) prev
    by (fastforce simp: fw_run_def solo_snoc i fw_windowStart_step time_before_def go_time
        fw_state_ok_def intro: truncate_eqI split: option.splits if_splits)
  then show ?case by (simp add: i)
qed

lemma fw_run_used:
  assumes "fixed_window_ok f" and "\<forall>i\<in>set is. fw_req_ok f i" and "sorted (map (wall \<circ> fst) is)"
    and "\<forall>i\<in>set is. wall (fst i) \<le> wall now"
  shows "fw_used f (fst (fw_run f key is)) now =
    admitted (in_window f (time_truncate now (fw_window f))) is (snd (fw_run f key is))"
  using assms
proof (induction "is" arbitrary: now rule: rev_induct)
  case Nil
  then show ?case by (simp add: fw_run_def fw_used_def)
next
  case (snoc i "is")
  obtain t n where i: "i = (t, n)" by fastforce
  let ?st = "fst (fw_run f key is)" and ?w = "time_truncate now (fw_window f)"
  let ?s = "fst (fixed_window_step f key ?st i)"
  have st: "\<forall>s. ?st = Some s \<longrightarrow> fw_state_ok f s"
    using snoc.prems by (intro fw_run_state_ok) auto
  have run: "fst (fw_run f key (is @ [i])) = Some ?s" by (simp add: fw_run_def solo_snoc)
  have start: "fw_windowStart ?s = time_truncate t (fw_window f)"
    using fw_run_window [OF snoc.prems(1,2,3) run] by (simp add: i)
  have le: "wall (time_truncate t (fw_window f)) \<le> wall ?w"
    using snoc.prems by (intro truncate_mono_f) (auto simp: i)
  show ?case
  proof (cases "time_truncate t (fw_window f) = ?w")
    case True
    have "fw_used f ?st t = admitted (in_window f ?w) is (snd (fw_run f key is))"
      using snoc.IH [of t] snoc.prems True by (auto simp: i sorted_append)
    moreover have "fw_used f (Some ?s) now = fw_count ?s"
      using start True by (simp add: fw_used_def time_before_def)
    ultimately show ?thesis
      using True fw_no_wrap [OF snoc.prems(1) st, of t n] snoc.prems(2) run
      unfolding fw_run_def admitted_snoc
      by (auto simp: fixed_window_step_allowed fixed_window_step_count i in_window_def)
  next
    case False
    then have less: "wall (time_truncate t (fw_window f)) < wall ?w"
      using le truncate_eqI [of "time_truncate t (fw_window f)" ?w] by fastforce
    have "wall (time_truncate (fst j) (fw_window f)) \<le> wall (time_truncate t (fw_window f))"
      if "j \<in> set (is @ [i])" for j
      using that snoc.prems(1,3) by (intro truncate_mono_f) (auto simp: sorted_append i)
    then have "\<forall>j\<in>set (is @ [i]). \<not> in_window f ?w j"
      using less by (fastforce simp: in_window_def)
    then have "admitted (in_window f ?w) (is @ [i]) (snd (fw_run f key (is @ [i]))) = 0"
      by (rule admitted_none)
    then show ?thesis
      using less start by (simp add: run fw_used_def time_before_def go_time)
  qed
qed

lemma fw_run_quota:
  assumes "fixed_window_ok f" and "\<forall>i\<in>set is. fw_req_ok f i" and "sorted (map (wall \<circ> fst) is)"
  shows "admitted (in_window f w) is (snd (fw_run f key is)) \<le> fw_rate f"
  using assms
proof (induction "is" rule: rev_induct)
  case Nil
  then show ?case by (simp add: fixed_window_ok_def)
next
  case (snoc i "is")
  obtain t n where i: "i = (t, n)" by fastforce
  let ?st = "fst (fw_run f key is)"
  have st: "\<forall>s. ?st = Some s \<longrightarrow> fw_state_ok f s"
    using snoc.prems by (intro fw_run_state_ok) auto
  have "fw_used f ?st t = admitted (in_window f (time_truncate t (fw_window f))) is (snd (fw_run f key is))"
    using snoc.prems by (intro fw_run_used) (auto simp: i sorted_append o_def)
  moreover have "in_window f w i \<longleftrightarrow> w = time_truncate t (fw_window f)"
    by (auto simp: i in_window_def)
  ultimately show ?case
    using snoc.IH snoc.prems fw_no_wrap [OF snoc.prems(1) st, of t n]
    by (auto simp: fw_run_def admitted_snoc i fixed_window_step_allowed sorted_append)
qed

section \<open>Properties\<close>

text \<open>
  C1. Fixed window quota. However requests for many keys are interleaved and spread over
  the shards, if the wall clock readings of one key's requests do not go back, the total
  cost admitted for that key in any one window is at most the configured rate.
\<close>

theorem fixed_window_quota:
  assumes "NewFixedWindow config = Inr f"
    and "in64 (rl_Shards config)" and "in64 (Rate config)" and "in64 (Window config)"
    and "sorted (map (wall \<circ> fst) (of_key key rs))"
    and "\<forall>i\<in>set (of_key key rs). fw_req_ok f i"
  shows "admitted (in_window f w) (of_key key rs) (results_of FixedWindow_AllowN f key rs) \<le> fw_rate f"
proof -
  have ok: "fixed_window_ok f" and fresh: "shard_get (fw_base f) key = None"
    using assms(1-4) by (rule fixed_window_ok_new)+
  show ?thesis
    unfolding fw.results_of_solo [OF ok] fresh fw_run_def [symmetric]
    using ok assms(6,5) by (rule fw_run_quota)
qed

text \<open>
  C2. Fixed window, exact decision. After any such run a request is admitted exactly when
  the cost already admitted for its key in its window leaves room for it.
\<close>

theorem fixed_window_decision:
  assumes "NewFixedWindow config = Inr f"
    and "in64 (rl_Shards config)" and "in64 (Rate config)" and "in64 (Window config)"
    and "sorted (map (wall \<circ> fst) (of_key key rs @ [(now, n)]))"
    and "\<forall>i\<in>set (of_key key rs @ [(now, n)]). fw_req_ok f i"
  shows "\<exists>r. snd (FixedWindow_AllowN (fst (run_allow FixedWindow_AllowN f rs)) now key n) = Inr r
    \<and> (Allowed r \<longleftrightarrow>
        admitted (in_window f (time_truncate now (fw_window f))) (of_key key rs)
          (results_of FixedWindow_AllowN f key rs) + n \<le> fw_rate f)"
proof -
  have ok: "fixed_window_ok f" and fresh: "shard_get (fw_base f) key = None"
    using assms(1-4) by (rule fixed_window_ok_new)+
  let ?f = "fst (run_allow FixedWindow_AllowN f rs)" and ?is = "of_key key rs"
  have view: "shard_get (fw_base ?f) key = fst (fw_run f key ?is)"
    using fw.run_view [OF ok, of rs key] by (simp add: fw_run_def fresh)
  have st: "\<forall>s. fst (fw_run f key ?is) = Some s \<longrightarrow> fw_state_ok f s"
    using assms(6) ok by (intro fw_run_state_ok) auto
  have used: "fw_used f (fst (fw_run f key ?is)) now =
      admitted (in_window f (time_truncate now (fw_window f))) ?is (snd (fw_run f key ?is))"
    using assms(5,6) ok by (intro fw_run_used) (auto simp: sorted_append)
  show ?thesis
    using fw.result_allowN [OF fw.ok_run [OF ok, of rs], of now key n] used assms(6)
      fw_no_wrap [OF ok st, of now n]
    by (simp add: view fw.step_run fixed_window_step_allowed fw.results_of_solo [OF ok] fresh
        flip: fw_run_def)
qed

theorem fixed_window_quota_witness:
  "let f = projr (NewFixedWindow demo_config) in
     sorted (map (wall \<circ> fst) (of_key ''a'' demo_requests)) \<and>
     admitted (in_window f (time_truncate (now_at 0 0) (fw_window f))) (of_key ''a'' demo_requests)
       (results_of FixedWindow_AllowN f ''a'' demo_requests) \<le> 2"
proof -
  let ?f = "projr (NewFixedWindow demo_config)"
  have new: "NewFixedWindow demo_config = Inr ?f" and rate: "fw_rate ?f = 2"
    by (simp_all add: NewFixedWindow_def demo_config_def Let_def)
  show ?thesis
    using fixed_window_quota [OF new, of "''a''" demo_requests] unfolding Let_def rate
    by (simp add: demo_config_def demo_requests_def in64_def fw_req_ok_def NewFixedWindow_def)
qed

theorem fixed_window_decision_witness:
  "let f = projr (NewFixedWindow demo_config) in
     \<exists>r. snd (FixedWindow_AllowN (fst (run_allow FixedWindow_AllowN f demo_requests))
            (now_at 150000000 150000000) ''a'' 1) = Inr r
     \<and> (Allowed r \<longleftrightarrow>
          admitted (in_window f (time_truncate (now_at 150000000 150000000) (fw_window f)))
            (of_key ''a'' demo_requests) (results_of FixedWindow_AllowN f ''a'' demo_requests) + 1 \<le> 2)"
proof -
  let ?f = "projr (NewFixedWindow demo_config)"
  have new: "NewFixedWindow demo_config = Inr ?f" and rate: "fw_rate ?f = 2"
    by (simp_all add: NewFixedWindow_def demo_config_def Let_def)
  show ?thesis
    using fixed_window_decision [OF new, of "''a''" demo_requests "now_at 150000000 150000000" 1]
    unfolding Let_def rate
    by (simp add: demo_config_def demo_requests_def in64_def fw_req_ok_def NewFixedWindow_def)
qed

text \<open>
  The addition \<^verbatim>\<open>state.count+n\<close> is not checked for overflow: after one request of cost 1
  a request of cost 2^63 - 1 is admitted in the same window whatever the rate, and the
  counter is left at -2^63.
\<close>

lemma fixed_window_overflow:
  assumes "fixed_window_ok f"
  shows "\<exists>s. fst (fw_run f key [(now, 1), (now, 2 ^ 63 - 1)]) = Some s \<and> fw_count s = - (2 ^ 63)
    \<and> (\<forall>r\<in>set (snd (fw_run f key [(now, 1), (now, 2 ^ 63 - 1)])). Allowed r)"
proof -
  let ?s1 = "fst (fixed_window_step f key None (now, 1))"
  have rate: "1 \<le> fw_rate f" "- (2 ^ 63) \<le> fw_rate f" using assms by (auto simp: fixed_window_ok_def)
  have w: "w64 1 = 1" "w64 (1 + (2 ^ 63 - 1)) = - (2 ^ 63)" by (simp_all add: w64_def)
  have first: "fw_used f None now = 0" by (simp add: fw_used_def)
  have s1: "fw_count ?s1 = 1" "fw_windowStart ?s1 = time_truncate now (fw_window f)"
    using rate w by (simp_all add: fixed_window_step_count first fw_windowStart_step)
  have used: "fw_used f (Some ?s1) now = 1"
    by (simp add: fw_used_def s1 time_before_def)
  show ?thesis
    unfolding fw_run_def solo_Cons_fst solo_Cons_snd solo.simps(1)
    using rate w by (simp add: fixed_window_step_allowed fixed_window_step_count used first)
qed

lemma fixed_window_overflow_witness:
  "let f = projr (NewFixedWindow demo_config) in
     \<exists>s. fst (fw_run f ''a'' [(now_at 0 0, 1), (now_at 0 0, 2 ^ 63 - 1)]) = Some s
       \<and> fw_count s = - (2 ^ 63)"
proof -
  have "fixed_window_ok (projr (NewFixedWindow demo_config))"
    by (rule fixed_window_ok_new [of demo_config])
      (simp_all add: NewFixedWindow_def demo_config_def in64_def Let_def)
  from fixed_window_overflow [OF this, of "''a''" "now_at 0 0"] show ?thesis
    by (auto simp: Let_def)
qed

end
