(* ===== verification/SlidingWindow.thy ===== *)
theory SlidingWindow
  imports FixedWindow GoFloat
begin

text \<open>
  The sliding window limiter of \<^verbatim>\<open>pkg/ratelimiter/limiter.go\<close>. \<open>sliding_window_step\<close> is
  the critical section of \<^verbatim>\<open>AllowN\<close>, the weighted count in double precision included.

  Shown: both window starts are multiples of the window, so the test "more than one window
  has passed" (\<^verbatim>\<open>>= s.window\<close>) holds at every transition; the previous count is never
  carried over, and the limiter answers every sequence of calls exactly as the fixed window
  limiter does.
\<close>

record sliding_window_state =
  sw_prevCount :: int64
  sw_currCount :: int64
  sw_windowStart :: gotime

record sliding_window =
  sw_base :: "sliding_window_state base_limiter"
  sw_rate :: int64
  sw_window :: duration

definition NewSlidingWindow :: "rate_limiter_config \<Rightarrow> error + sliding_window" where
  "NewSlidingWindow config =
     (if Rate config \<le> 0 then Inl RateNotPositive
      else let window = (if Window config \<le> 0 then second else Window config)
           in Inr \<lparr>sw_base = newBaseLimiter config, sw_rate = Rate config, sw_window = window\<rparr>)"

text \<open>The handling of a window transition, before the count is weighed.\<close>

definition sliding_window_roll ::
    "sliding_window \<Rightarrow> sliding_window_state option \<Rightarrow> gotime \<Rightarrow> sliding_window_state" where
  "sliding_window_roll s st now =
     (let state = (case st of
             None \<Rightarrow> \<lparr>sw_prevCount = 0, sw_currCount = 0,
                      sw_windowStart = time_truncate now (sw_window s)\<rparr>
           | Some x \<Rightarrow> x);
          currentWindow = time_truncate now (sw_window s)
      in if time_after currentWindow (sw_windowStart state)
         then (if sw_window s \<le> time_sub currentWindow (sw_windowStart state)
               then state\<lparr>sw_prevCount := 0, sw_currCount := 0\<rparr>
               else state\<lparr>sw_prevCount := sw_currCount state, sw_currCount := 0\<rparr>)
              \<lparr>sw_windowStart := currentWindow\<rparr>
         else state)"

definition sliding_window_step :: "sliding_window \<Rightarrow> string \<Rightarrow> sliding_window_state option
    \<Rightarrow> gotime \<times> int64 \<Rightarrow> sliding_window_state \<times> rate_limit_result" where
  "sliding_window_step s key st = (\<lambda>(now, n).
     let state = sliding_window_roll s st now;
         currentWindow = time_truncate now (sw_window s);
         elapsed = time_sub now currentWindow;
         weight = fdiv (i2f (w64 (sw_window s - elapsed))) (i2f (sw_window s));
         weightedCount = fadd (fmul (i2f (sw_prevCount state)) weight) (i2f (sw_currCount state));
         result = zero_result\<lparr>Remaining := w64 (sw_rate s - f2i weightedCount),
                              ResetAfter := w64 (sw_window s - elapsed)\<rparr>
     in if w64 (f2i weightedCount + n) \<le> sw_rate s
        then (state\<lparr>sw_currCount := w64 (sw_currCount state + n)\<rparr>,
              result\<lparr>Allowed := True,
                     Remaining := w64 (w64 (sw_rate s - f2i weightedCount) - n)\<rparr>)
        else (state, result\<lparr>Allowed := False, LimitedBy := key,
                            RetryAfter := w64 (sw_window s - elapsed)\<rparr>))"

definition SlidingWindow_AllowN :: "sliding_window allow_fun" where
  "SlidingWindow_AllowN s now key n =
     (let (st, r) = sliding_window_step s key (shard_get (sw_base s) key) (now, n)
      in (s\<lparr>sw_base := shard_put (sw_base s) key st\<rparr>, Inr r))"

definition SlidingWindow_Allow ::
    "sliding_window \<Rightarrow> gotime \<Rightarrow> string \<Rightarrow> sliding_window \<times> (error + rate_limit_result)" where
  "SlidingWindow_Allow s now key = SlidingWindow_AllowN s now key 1"

definition SlidingWindow_Reset :: "sliding_window \<Rightarrow> string \<Rightarrow> sliding_window" where
  "SlidingWindow_Reset s key = s\<lparr>sw_base := shard_delete (sw_base s) key\<rparr>"

section \<open>The contract of a limiter\<close>

definition sliding_window_ok :: "sliding_window \<Rightarrow> bool" where
  "sliding_window_ok s \<longleftrightarrow> base_ok (sw_base s) \<and> 0 < sw_rate s \<and> in64 (sw_rate s)
     \<and> 0 < sw_window s \<and> in64 (sw_window s)"

lemma sliding_window_step_cong:
  "sw_rate s = sw_rate t \<Longrightarrow> sw_window s = sw_window t \<Longrightarrow> sliding_window_step s = sliding_window_step t"
  unfolding sliding_window_step_def [abs_def] sliding_window_roll_def by (simp only:)

interpretation sw: rate_limiter SlidingWindow_AllowN SlidingWindow_Reset
  "\<lambda>s. shard_get (sw_base s)" sliding_window_step sliding_window_ok
  by unfold_locales
    (auto simp: SlidingWindow_AllowN_def SlidingWindow_Reset_def sliding_window_ok_def case_prod_beta
      Let_def shard_store.get_put shard_store.get_del intro!: sliding_window_step_cong)

lemma sliding_window_ok_new:
  assumes "NewSlidingWindow config = Inr s" and "in64 (rl_Shards config)" and "in64 (Rate config)"
    and "in64 (Window config)"
  shows "sliding_window_ok s" and "shard_get (sw_base s) key = None"
  using assms
  by (auto simp: NewSlidingWindow_def sliding_window_ok_def base_ok_new shard_get_new Let_def
      second_def in64_def split: if_splits)

section \<open>The previous count is always dropped\<close>

definition sw_state_ok :: "sliding_window \<Rightarrow> sliding_window_state \<Rightarrow> bool" where
  "sw_state_ok s x \<longleftrightarrow> sw_prevCount x = 0 \<and> mono (sw_windowStart x) = None
     \<and> sw_window s dvd wall (sw_windowStart x)"

lemma sw_roll:
  assumes "sliding_window_ok s" and "\<forall>x. st = Some x \<longrightarrow> sw_state_ok s x"
  shows "sliding_window_roll s st now =
    (case st of None \<Rightarrow> \<lparr>sw_prevCount = 0, sw_currCount = 0,
                        sw_windowStart = time_truncate now (sw_window s)\<rparr>
     | Some x \<Rightarrow> if time_before (sw_windowStart x) (time_truncate now (sw_window s))
               then \<lparr>sw_prevCount = 0, sw_currCount = 0,
                     sw_windowStart = time_truncate now (sw_window s)\<rparr>
               else x)"
proof (cases st)
  case None
  then show ?thesis by (simp add: sliding_window_roll_def Let_def time_after_def)
next
  case (Some x)
  let ?cw = "time_truncate now (sw_window s)"
  have x: "mono (sw_windowStart x) = None" "sw_window s dvd wall (sw_windowStart x)"
    using assms(2) Some by (auto simp: sw_state_ok_def)
  have w: "0 < sw_window s" "in64 (sw_window s)" using assms(1) by (auto simp: sliding_window_ok_def)
  have after: "time_after ?cw (sw_windowStart x) \<longleftrightarrow> wall (sw_windowStart x) < wall ?cw"
    and before: "time_before (sw_windowStart x) ?cw \<longleftrightarrow> wall (sw_windowStart x) < wall ?cw"
    using x by (auto simp: time_after_def time_before_def time_diff_no_mono)
  have gap: "sw_window s \<le> time_sub ?cw (sw_windowStart x)"
    if "wall (sw_windowStart x) < wall ?cw"
  proof -
    have "sw_window s \<le> wall ?cw - wall (sw_windowStart x)"
      using dvd_gap [OF x(2) truncate_dvd [OF w(1)] that w(1)] .
    then have "sat64 (sw_window s) \<le> time_sub ?cw (sw_windowStart x)"
      using x by (simp add: time_sub_def time_diff_no_mono sat64_mono)
    then show ?thesis using w by (simp add: sat64_id)
  qed
  show ?thesis
    using gap unfolding Some sliding_window_roll_def Let_def option.case after before
    by (auto intro: sliding_window_state.equality)
qed

lemma sw_state_ok_step:
  assumes "sliding_window_ok s" and "\<forall>x. st = Some x \<longrightarrow> sw_state_ok s x"
  shows "sw_state_ok s (fst (sliding_window_step s key st i))"
proof -
  obtain now n where i: "i = (now, n)" by fastforce
  have "sw_window s dvd wall (time_truncate now (sw_window s))"
    using assms(1) by (intro truncate_dvd) (simp add: sliding_window_ok_def)
  then have "sw_state_ok s (sliding_window_roll s st now)"
    using assms by (auto simp: sw_roll sw_state_ok_def split: option.splits)
  then show ?thesis
    by (simp add: i sliding_window_step_def sw_state_ok_def Let_def)
qed

section \<open>Simulation by the fixed window\<close>

text \<open>With no previous count the weighted count is the current one, exactly.\<close>

lemma sw_weighted_count:
  assumes "0 \<le> c" and "c \<le> 2 ^ 53"
  shows "f2i (fadd (fmul (i2f 0) weight) (i2f c)) = c"
proof -
  have "in64 c" using assms by (simp add: in64_def)
  then show ?thesis using assms by (simp add: fadd_def fmul_def rnd_int)
qed

definition sw_fw_linked :: "sliding_window \<Rightarrow> fixed_window \<Rightarrow> bool" where
  "sw_fw_linked s f \<longleftrightarrow> sw_rate s = fw_rate f \<and> sw_window s = fw_window f"

definition sw_req_ok :: "sliding_window \<Rightarrow> gotime \<times> int64 \<Rightarrow> bool" where
  "sw_req_ok s i \<longleftrightarrow> 0 \<le> snd i \<and> snd i + sw_rate s < 2 ^ 63 \<and> sw_rate s \<le> 2 ^ 53"

definition sw_fw_rel :: "sliding_window \<Rightarrow> sliding_window_state \<Rightarrow> fixed_window_state \<Rightarrow> bool" where
  "sw_fw_rel s x y \<longleftrightarrow> sw_state_ok s x \<and> sw_currCount x = fw_count y
     \<and> sw_windowStart x = fw_windowStart y \<and> 0 \<le> fw_count y \<and> fw_count y \<le> sw_rate s"

lemma sw_fw_sim_step:
  assumes "sliding_window_ok s" and "fixed_window_ok f" and "sw_fw_linked s f" and "sw_req_ok s i"
    and "rel_option (sw_fw_rel s) st su"
  shows "sw_fw_rel s (fst (sliding_window_step s key st i)) (fst (fixed_window_step f key su i))
    \<and> snd (sliding_window_step s key st i) = snd (fixed_window_step f key su i)"
proof -
  obtain now n where i: "i = (now, n)" by fastforce
  let ?w = "time_truncate now (sw_window s)"
  have eq: "sw_rate s = fw_rate f" "sw_window s = fw_window f"
    using assms(3) by (simp_all add: sw_fw_linked_def)
  have x: "\<forall>x. st = Some x \<longrightarrow> sw_state_ok s x"
    using assms(5) by (auto simp: sw_fw_rel_def option_rel_Some1)
  define x' where "x' = sliding_window_roll s st now"
  define y' where "y' = (case su of None \<Rightarrow> \<lparr>fw_count = 0, fw_windowStart = ?w\<rparr>
    | Some y \<Rightarrow> if time_before (fw_windowStart y) ?w then \<lparr>fw_count = 0, fw_windowStart = ?w\<rparr> else y)"
  have rel: "sw_fw_rel s x' y'"
    using assms(1,5) sw_roll [OF assms(1) x, of now] truncate_dvd [of "sw_window s" now]
    by (cases st; cases su)
      (auto simp: x'_def y'_def sw_fw_rel_def sw_state_ok_def sliding_window_ok_def)
  let ?c = "fw_count y'"
  have c: "0 \<le> ?c" "?c \<le> sw_rate s" "sw_rate s \<le> 2 ^ 53" "sw_prevCount x' = 0" "sw_currCount x' = ?c"
    using rel assms(4) by (auto simp: sw_fw_rel_def sw_state_ok_def sw_req_ok_def)
  have nn: "0 \<le> n" "n + sw_rate s < 2 ^ 63" using assms(4) by (auto simp: i sw_req_ok_def)
  have wt: "f2i (fadd (fmul (i2f (sw_prevCount x')) wt) (i2f ?c)) = ?c" for wt
    unfolding c(4) using c(1-3) by (intro sw_weighted_count) auto
  have w1: "w64 (?c + n) = ?c + n" "w64 (sw_rate s - ?c) = sw_rate s - ?c"
    using c nn by (intro w64_id; simp add: in64_def)+
  have w2: "w64 (sw_rate s - ?c - n) = w64 (sw_rate s - (?c + n))" by (simp add: algebra_simps)
  have sw: "sliding_window_step s key st i = (let r = zero_result\<lparr>Remaining := sw_rate s - ?c,
        ResetAfter := w64 (sw_window s - time_sub now ?w)\<rparr> in
      if ?c + n \<le> sw_rate s
      then (x'\<lparr>sw_currCount := ?c + n\<rparr>, r\<lparr>Allowed := True, Remaining := w64 (sw_rate s - ?c - n)\<rparr>)
      else (x', r\<lparr>Allowed := False, LimitedBy := key, RetryAfter := w64 (sw_window s - time_sub now ?w)\<rparr>))"
    unfolding sliding_window_step_def i prod.case x'_def [symmetric] Let_def c(5) wt w1 ..
  have fw: "fixed_window_step f key su i = (let r = zero_result\<lparr>Remaining := sw_rate s - ?c,
        ResetAfter := w64 (sw_window s - time_sub now ?w)\<rparr> in
      if ?c + n \<le> sw_rate s
      then (y'\<lparr>fw_count := ?c + n\<rparr>, r\<lparr>Allowed := True, Remaining := w64 (sw_rate s - (?c + n))\<rparr>)
      else (y', r\<lparr>Allowed := False, LimitedBy := key, RetryAfter := w64 (sw_window s - time_sub now ?w)\<rparr>))"
    unfolding fixed_window_step_def i prod.case Let_def eq [symmetric] y'_def [symmetric] w1 by simp
  show ?thesis
    unfolding sw fw Let_def using rel nn c w2
    by (auto simp: sw_fw_rel_def sw_state_ok_def)
qed

interpretation sw_fw: limiter_simulation
  SlidingWindow_AllowN SlidingWindow_Reset "\<lambda>s. shard_get (sw_base s)" sliding_window_step
    sliding_window_ok
  FixedWindow_AllowN FixedWindow_Reset "\<lambda>f. shard_get (fw_base f)" fixed_window_step fixed_window_ok
  sw_fw_linked sw_req_ok sw_fw_rel
proof unfold_locales
  have sel: "sw_rate (fst (SlidingWindow_AllowN s now key n)) = sw_rate s"
    "sw_window (fst (SlidingWindow_AllowN s now key n)) = sw_window s" for s now key n
    by (simp_all add: SlidingWindow_AllowN_def case_prod_beta Let_def)
  show "sw_fw_linked (fst (SlidingWindow_AllowN a now key n)) (fst (FixedWindow_AllowN b now key n))"
    if "sw_fw_linked a b" for a b now key n
    using that by (simp add: sw_fw_linked_def sel)
  show "sw_req_ok (fst (SlidingWindow_AllowN a now key n)) = sw_req_ok a" for a now key n
    by (simp add: sw_req_ok_def sel fun_eq_iff)
  show "sw_fw_rel (fst (SlidingWindow_AllowN a now key n)) = sw_fw_rel a" for a now key n
    by (simp add: sw_fw_rel_def sw_state_ok_def sel fun_eq_iff)
qed (rule sw_fw_sim_step)

section \<open>Properties\<close>

text \<open>
  C3. The sliding window limiter never slides: for the same configuration (rates up to
  2^53) it gives, on every sequence of calls for any keys at any times, the same results as
  the fixed window limiter, every field of every result included.
\<close>

theorem sliding_window_is_fixed_window:
  assumes "NewSlidingWindow config = Inr s" and "NewFixedWindow config = Inr f"
    and "in64 (rl_Shards config)" and "Rate config \<le> 2 ^ 53" and "in64 (Window config)"
    and "\<forall>(key, now, n)\<in>set rs. 0 \<le> n \<and> n + Rate config < 2 ^ 63"
  shows "snd (run_allow SlidingWindow_AllowN s rs) = snd (run_allow FixedWindow_AllowN f rs)"
proof -
  have rate: "sw_rate s = Rate config" "fw_rate f = Rate config" "sw_window s = fw_window f"
      "0 < Rate config"
    using assms(1,2) by (auto simp: NewSlidingWindow_def NewFixedWindow_def Let_def split: if_splits)
  then have in64: "in64 (Rate config)" using assms(4) by (simp add: in64_def)
  note sw = sliding_window_ok_new [OF assms(1,3) in64 assms(5)]
  note fw = fixed_window_ok_new [OF assms(2,3) in64 assms(5)]
  show ?thesis
    by (rule sw_fw.same_answers [OF sw(1) fw(1)])
      (use assms(4,6) rate sw(2) fw(2) in \<open>auto simp: sw_fw_linked_def sw_req_ok_def\<close>)
qed

theorem sliding_window_is_fixed_window_witness:
  "snd (run_allow SlidingWindow_AllowN (projr (NewSlidingWindow demo_config)) demo_requests)
    = snd (run_allow FixedWindow_AllowN (projr (NewFixedWindow demo_config)) demo_requests)"
  by (rule sliding_window_is_fixed_window [where config = demo_config])
    (simp_all add: NewSlidingWindow_def NewFixedWindow_def demo_config_def demo_requests_def in64_def Let_def)

end
