(* ===== verification/LeakyBucket.thy ===== *)
theory LeakyBucket
  imports TokenBucket
begin

text \<open>
  The leaky bucket of \<^verbatim>\<open>pkg/ratelimiter/limiter.go\<close>. \<open>leaky_bucket_step\<close> is the critical
  section of \<^verbatim>\<open>AllowN\<close>; the water level is a double.

  Shown: the water stays between zero and the capacity while the clock does not go back,
  and where the numbers are exact the limiter is the token bucket seen from the other side:
  it admits the same calls.
\<close>

record leaky_bucket_state =
  lb_water :: float64
  lb_lastUpdate :: gotime

record leaky_bucket =
  lb_base :: "leaky_bucket_state base_limiter"
  lb_rate :: float64
  lb_capacity :: float64

definition NewLeakyBucket :: "rate_limiter_config \<Rightarrow> error + leaky_bucket" where
  "NewLeakyBucket config =
     (if Rate config \<le> 0 then Inl RateNotPositive
      else let capacity = (if Burst config \<le> 0 then Rate config else Burst config)
           in Inr \<lparr>lb_base = newBaseLimiter config, lb_rate = i2f (Rate config),
                   lb_capacity = i2f capacity\<rparr>)"

text \<open>The water left after the leak of the elapsed time.\<close>

definition leaky_bucket_drain :: "leaky_bucket \<Rightarrow> leaky_bucket_state option \<Rightarrow> gotime \<Rightarrow> float64" where
  "leaky_bucket_drain l st now =
     (let state = (case st of None \<Rightarrow> \<lparr>lb_water = 0, lb_lastUpdate = now\<rparr> | Some s \<Rightarrow> s);
          elapsed = seconds (time_sub now (lb_lastUpdate state));
          water = fsub (lb_water state) (fmul elapsed (lb_rate l))
      in if water < 0 then 0 else water)"

definition leaky_bucket_step :: "leaky_bucket \<Rightarrow> string \<Rightarrow> leaky_bucket_state option
    \<Rightarrow> gotime \<times> int64 \<Rightarrow> leaky_bucket_state \<times> rate_limit_result" where
  "leaky_bucket_step l key st = (\<lambda>(now, n).
     let cost = i2f n;
         water = leaky_bucket_drain l st now;
         result = zero_result\<lparr>Remaining := f2i (fsub (lb_capacity l) water)\<rparr>
     in if fadd water cost \<le> lb_capacity l
        then (\<lparr>lb_water = fadd water cost, lb_lastUpdate = now\<rparr>,
              result\<lparr>Allowed := True, Remaining := f2i (fsub (lb_capacity l) (fadd water cost))\<rparr>)
        else (\<lparr>lb_water = water, lb_lastUpdate = now\<rparr>,
              result\<lparr>Allowed := False, LimitedBy := key,
                     RetryAfter := f2i (fmul (fdiv (fsub (fadd water cost) (lb_capacity l)) (lb_rate l))
                                       1000000000)\<rparr>))"

definition LeakyBucket_AllowN :: "leaky_bucket allow_fun" where
  "LeakyBucket_AllowN l now key n =
     (let (s, r) = leaky_bucket_step l key (shard_get (lb_base l) key) (now, n)
      in (l\<lparr>lb_base := shard_put (lb_base l) key s\<rparr>, Inr r))"

definition LeakyBucket_Allow ::
    "leaky_bucket \<Rightarrow> gotime \<Rightarrow> string \<Rightarrow> leaky_bucket \<times> (error + rate_limit_result)" where
  "LeakyBucket_Allow l now key = LeakyBucket_AllowN l now key 1"

definition LeakyBucket_Reset :: "leaky_bucket \<Rightarrow> string \<Rightarrow> leaky_bucket" where
  "LeakyBucket_Reset l key = l\<lparr>lb_base := shard_delete (lb_base l) key\<rparr>"

section \<open>The contract of a limiter\<close>

definition leaky_bucket_ok :: "leaky_bucket \<Rightarrow> bool" where
  "leaky_bucket_ok l \<longleftrightarrow> base_ok (lb_base l) \<and> 0 < lb_rate l \<and> 0 < lb_capacity l
     \<and> rnd (lb_capacity l) = lb_capacity l"

lemma leaky_bucket_step_cong:
  "lb_rate l = lb_rate k \<Longrightarrow> lb_capacity l = lb_capacity k \<Longrightarrow> leaky_bucket_step l = leaky_bucket_step k"
  unfolding leaky_bucket_step_def [abs_def] leaky_bucket_drain_def by (simp only:)

interpretation lb: rate_limiter LeakyBucket_AllowN LeakyBucket_Reset
  "\<lambda>l. shard_get (lb_base l)" leaky_bucket_step leaky_bucket_ok
  by unfold_locales
    (auto simp: LeakyBucket_AllowN_def LeakyBucket_Reset_def leaky_bucket_ok_def case_prod_beta
      Let_def shard_store.get_put shard_store.get_del intro!: leaky_bucket_step_cong)

lemma leaky_bucket_ok_new:
  assumes "NewLeakyBucket config = Inr l" and "in64 (rl_Shards config)"
  shows "leaky_bucket_ok l" and "shard_get (lb_base l) key = None"
  using assms
  by (auto simp: NewLeakyBucket_def leaky_bucket_ok_def base_ok_new shard_get_new Let_def i2f_pos
      split: if_splits)

section \<open>The level stays in the bucket\<close>

definition lb_level_ok :: "leaky_bucket \<Rightarrow> float64 \<Rightarrow> bool" where
  "lb_level_ok l x \<longleftrightarrow> 0 \<le> x \<and> x \<le> lb_capacity l"

lemma leaky_bucket_step_simps:
  "Allowed (snd (leaky_bucket_step l key st (now, n))) \<longleftrightarrow>
     fadd (leaky_bucket_drain l st now) (i2f n) \<le> lb_capacity l"
  "lb_water (fst (leaky_bucket_step l key st (now, n))) =
     (if fadd (leaky_bucket_drain l st now) (i2f n) \<le> lb_capacity l
      then fadd (leaky_bucket_drain l st now) (i2f n) else leaky_bucket_drain l st now)"
  "lb_lastUpdate (fst (leaky_bucket_step l key st (now, n))) = now"
  by (simp_all add: leaky_bucket_step_def Let_def)

lemma lb_drain_None [simp]: "leaky_bucket_drain l None now = 0"
  by (simp add: leaky_bucket_drain_def fsub_def fmul_def)

lemma lb_drain_Some:
  "leaky_bucket_drain l (Some s) now =
     max 0 (fsub (lb_water s) (tb_credit (lb_rate l) now (lb_lastUpdate s)))"
  by (simp add: leaky_bucket_drain_def tb_credit_def max_def Let_def)

lemma lb_drain_ok:
  assumes "leaky_bucket_ok l"
    and "\<forall>s. st = Some s \<longrightarrow> lb_level_ok l (lb_water s) \<and> 0 \<le> time_diff now (lb_lastUpdate s)"
  shows "lb_level_ok l (leaky_bucket_drain l st now)"
proof (cases st)
  case None
  then show ?thesis using assms(1) by (simp add: lb_level_ok_def leaky_bucket_ok_def)
next
  case (Some s)
  have "0 \<le> tb_credit (lb_rate l) now (lb_lastUpdate s)"
    using assms Some by (intro tb_credit_nonneg) (auto simp: leaky_bucket_ok_def)
  then have "fsub (lb_water s) (tb_credit (lb_rate l) now (lb_lastUpdate s)) \<le> lb_capacity l"
    using assms Some unfolding fsub_def
    by (intro dbl.round_le) (auto simp: lb_level_ok_def leaky_bucket_ok_def)
  then show ?thesis
    using assms(1) by (simp add: Some lb_drain_Some lb_level_ok_def leaky_bucket_ok_def)
qed

lemma lb_step_level:
  assumes "leaky_bucket_ok l"
    and "\<forall>s. st = Some s \<longrightarrow> lb_level_ok l (lb_water s) \<and> 0 \<le> time_diff now (lb_lastUpdate s)"
    and "0 \<le> n"
  shows "lb_level_ok l (lb_water (fst (leaky_bucket_step l key st (now, n))))"
proof -
  have x: "lb_level_ok l (leaky_bucket_drain l st now)" using assms(1,2) by (rule lb_drain_ok)
  then have "0 \<le> fadd (leaky_bucket_drain l st now) (i2f n)"
    using i2f_nonneg [OF assms(3)] unfolding fadd_def by (intro rnd_nonneg) (simp add: lb_level_ok_def)
  then show ?thesis using x by (auto simp: leaky_bucket_step_simps lb_level_ok_def)
qed

definition lb_run :: "leaky_bucket \<Rightarrow> string \<Rightarrow> (gotime \<times> int64) list
    \<Rightarrow> leaky_bucket_state option \<times> rate_limit_result list" where
  "lb_run l key is = solo (leaky_bucket_step l key) None is"

lemma lb_run_level:
  assumes "leaky_bucket_ok l" and "forward is" and "\<forall>i\<in>set is. 0 \<le> snd i"
  shows "\<forall>s. fst (lb_run l key is) = Some s \<longrightarrow>
    lb_level_ok l (lb_water s) \<and> is \<noteq> [] \<and> lb_lastUpdate s = fst (last is)"
  using assms
proof (induction "is" rule: rev_induct)
  case Nil
  then show ?case by (simp add: lb_run_def)
next
  case (snoc i "is")
  obtain now n where i: "i = (now, n)" by fastforce
  have "\<forall>s. fst (lb_run l key is) = Some s \<longrightarrow>
      lb_level_ok l (lb_water s) \<and> is \<noteq> [] \<and> lb_lastUpdate s = fst (last is)"
    using snoc by (auto simp: forward_snoc)
  then have "\<forall>s. fst (lb_run l key is) = Some s \<longrightarrow>
      lb_level_ok l (lb_water s) \<and> 0 \<le> time_diff now (lb_lastUpdate s)"
    using snoc.prems(2) by (auto simp: forward_snoc i)
  then show ?case
    using snoc.prems lb_step_level [of l "fst (lb_run l key is)" now n key]
    by (auto simp: lb_run_def solo_snoc i leaky_bucket_step_simps)
qed

section \<open>The bucket over integers, from the other side\<close>

lemma lb_drain_int:
  assumes "lb_rate l = of_int R" and "lb_capacity l = of_int B" and "0 < R"
    and "lb_water s = of_int (B - m)" and "lb_lastUpdate s = now_at w' (m0 + u * second)"
    and "0 \<le> m" and "m \<le> B" and "0 \<le> u" and "u \<le> k" and "k \<le> 2 ^ 33" and "k * R + B \<le> 2 ^ 53"
  shows "leaky_bucket_drain l (Some s) (now_at w (m0 + k * second)) = of_int (B - min B (m + (k - u) * R))"
proof -
  have le: "(k - u) * R \<le> k * R" using assms by (intro mult_right_mono) auto
  have ge: "0 \<le> (k - u) * R" using assms by simp
  have "\<bar>(k - u) * R\<bar> \<le> 2 ^ 53" "\<bar>B - m - (k - u) * R\<bar> \<le> 2 ^ 53" using le ge assms by linarith+
  then have "fsub (of_int (B - m)) (fmul (of_int (k - u)) (of_int R)) = of_int (B - m - (k - u) * R)"
    by (simp add: fmul_int fsub_int del: of_int_mult of_int_diff of_int_add)
  then have "leaky_bucket_drain l (Some s) (now_at w (m0 + k * second))
      = of_int (max 0 (B - m - (k - u) * R))"
    using assms sub_at_seconds [of u k w m0 w']
    by (simp add: lb_drain_Some tb_credit_def of_int_max del: of_int_mult of_int_diff of_int_add)
  also have "max 0 (B - m - (k - u) * R) = B - min B (m + (k - u) * R)" by simp
  finally show ?thesis .
qed

lemma lb_solo_int:
  assumes "lb_rate l = of_int R" and "lb_capacity l = of_int B" and "0 < R"
    and "exact_calls R B xs" and "\<forall>(w, k, n)\<in>set xs. u \<le> k" and "\<forall>(w, k, n)\<in>set xs. n + B \<le> 2 ^ 53"
    and "st = Some s" and "lb_water s = of_int (B - m)" and "lb_lastUpdate s = now_at w' (m0 + u * second)"
    and "0 \<le> m" and "m \<le> B" and "0 \<le> u"
  shows "map Allowed (snd (solo (leaky_bucket_step l key) st (map (call_at m0) xs)))
    = int_bucket R B m u (map snd xs)"
  using assms(4-)
proof (induction xs arbitrary: st s m u w')
  case Nil
  then show ?case by simp
next
  case (Cons x xs)
  obtain w k n where x: "x = (w, k, n)" by (cases x)
  let ?m = "min B (m + (k - u) * R)" and ?now = "now_at w (m0 + k * second)"
  have k: "0 \<le> k" "u \<le> k" "k \<le> 2 ^ 33" "k * R + B \<le> 2 ^ 53" "0 \<le> n" "n \<le> 2 ^ 53" "n + B \<le> 2 ^ 53"
    and xs: "exact_calls R B xs" "\<forall>(w, k', n)\<in>set xs. k \<le> k'" "\<forall>(w, k, n)\<in>set xs. n + B \<le> 2 ^ 53"
    using Cons.prems(1-3) by (auto simp: x exact_calls_Cons)
  have drain: "leaky_bucket_drain l st ?now = of_int (B - ?m)"
    using assms(1-3) Cons.prems k unfolding Cons.prems(4) by (intro lb_drain_int [of _ _ _ _ _ w']) auto
  have m: "0 \<le> ?m" "?m \<le> B" using Cons.prems(7-9) k(2) assms(3) by auto
  have n: "i2f n = of_int n" using k(5,6) by simp
  have add: "fadd (of_int (B - ?m)) (of_int n) = of_int (B - ?m + n)"
    using k m by (intro fadd_int) linarith
  have fits: "B - ?m + n \<le> B \<longleftrightarrow> n \<le> ?m" by linarith
  let ?s = "fst (leaky_bucket_step l key st (?now, n))"
  have "lb_water ?s = of_int (B - (if n \<le> ?m then ?m - n else ?m))"
    unfolding leaky_bucket_step_simps drain n add assms(2) of_int_le_iff fits by simp
  then have "map Allowed (snd (solo (leaky_bucket_step l key) (Some ?s) (map (call_at m0) xs)))
      = int_bucket R B (if n \<le> ?m then ?m - n else ?m) k (map snd xs)"
    using xs m k(1,5) by (intro Cons.IH [where w' = w]) (auto simp: leaky_bucket_step_simps)
  moreover have "Allowed (snd (leaky_bucket_step l key st (?now, n))) \<longleftrightarrow> n \<le> ?m"
    unfolding leaky_bucket_step_simps drain n add assms(2) of_int_le_iff fits ..
  ultimately show ?case by (simp add: x call_at_def solo_Cons_snd Let_def)
qed

lemma lb_run_int:
  assumes "lb_rate l = of_int R" and "lb_capacity l = of_int B" and "0 < R" and "0 < B"
    and "exact_calls R B xs" and "\<forall>(w, k, n)\<in>set xs. n + B \<le> 2 ^ 53"
  shows "map Allowed (snd (lb_run l key (map (call_at m0) xs)))
    = int_bucket R B B (case xs of [] \<Rightarrow> 0 | (w, k, n) # _ \<Rightarrow> k) (map snd xs)"
proof (cases xs)
  case Nil
  then show ?thesis by (simp add: lb_run_def)
next
  case (Cons x ys)
  obtain w k n where x: "x = (w, k, n)" by (cases x)
  let ?now = "now_at w (m0 + k * second)"
  let ?s = "\<lparr>lb_water = 0, lb_lastUpdate = ?now\<rparr>"
  have "leaky_bucket_step l key None (?now, n) = leaky_bucket_step l key (Some ?s) (?now, n)"
    by (simp add: leaky_bucket_step_def leaky_bucket_drain_def)
  then have "snd (lb_run l key (map (call_at m0) xs))
      = snd (solo (leaky_bucket_step l key) (Some ?s) (map (call_at m0) xs))"
    by (simp add: lb_run_def Cons x call_at_def solo_Cons_snd)
  also have "map Allowed \<dots> = int_bucket R B B k (map snd xs)"
    by (rule lb_solo_int [OF assms(1-3,5), where u = k and m = B and s = ?s and w' = w])
      (use assms in \<open>auto simp: Cons x exact_calls_Cons\<close>)
  finally show ?thesis by (simp add: Cons x)
qed

section \<open>Properties\<close>

text \<open>
  Leaky bucket level. After any interleaving of calls for any keys, if the clock did not
  go back between the calls for a key and their costs are not negative, the key's water
  is between zero and the capacity.
\<close>

lemma leaky_bucket_level:
  assumes "NewLeakyBucket config = Inr l" and "in64 (rl_Shards config)"
    and "forward (of_key key rs)" and "\<forall>i\<in>set (of_key key rs). 0 \<le> snd i"
    and "shard_get (lb_base (fst (run_allow LeakyBucket_AllowN l rs))) key = Some s"
  shows "0 \<le> lb_water s \<and> lb_water s \<le> lb_capacity l"
proof -
  note l = leaky_bucket_ok_new [OF assms(1,2)]
  have "fst (lb_run l key (of_key key rs)) = Some s"
    using lb.run_view [OF l(1), of rs key] assms(5) by (simp add: l(2) lb_run_def)
  with lb_run_level [OF l(1) assms(3,4)] show ?thesis by (auto simp: lb_level_ok_def)
qed

lemma leaky_bucket_level_witness:
  "\<exists>s. shard_get (lb_base (fst (run_allow LeakyBucket_AllowN (projr (NewLeakyBucket demo_config))
      demo_requests))) ''a'' = Some s \<and> 0 \<le> lb_water s \<and> lb_water s \<le> 2"
proof -
  let ?l = "projr (NewLeakyBucket demo_config)"
  have new: "NewLeakyBucket demo_config = Inr ?l" and i: "in64 (rl_Shards demo_config)"
    and b: "lb_capacity ?l = 2"
    by (simp_all add: NewLeakyBucket_def demo_config_def Let_def in64_def)
  have "\<exists>s. shard_get (lb_base (fst (run_allow LeakyBucket_AllowN ?l demo_requests))) ''a'' = Some s"
    using lb.run_view [OF leaky_bucket_ok_new(1) [OF new i], of demo_requests "''a''"]
    by (simp add: demo_requests_def solo_Cons_fst)
  moreover have "forward (of_key ''a'' demo_requests)" "\<forall>i\<in>set (of_key ''a'' demo_requests). 0 \<le> snd i"
    by (simp_all add: demo_requests_def forward_def time_diff_now_at)
  ultimately show ?thesis
    using leaky_bucket_level [OF new i, of "''a''" demo_requests] unfolding b by blast
qed

text \<open>
  C7. The leaky bucket is the token bucket seen from the other side: for the same
  configuration and calls at whole seconds in the exact range, both admit the same calls.
\<close>

theorem leaky_bucket_is_token_bucket:
  assumes "NewLeakyBucket config = Inr l" and "NewTokenBucket config = Inr t"
    and "in64 (rl_Shards config)" and "B = (if Burst config \<le> 0 then Rate config else Burst config)"
    and "Rate config \<le> 2 ^ 53" and "exact_calls (Rate config) B xs"
    and "\<forall>(w, k, n)\<in>set xs. n + B \<le> 2 ^ 53" and "B \<le> 2 ^ 53"
    and "of_key key rs = map (call_at m0) xs"
  shows "map Allowed (results_of LeakyBucket_AllowN l key rs)
    = map Allowed (results_of TokenBucket_AllowN t key rs)"
proof -
  note l = leaky_bucket_ok_new [OF assms(1,3)] and t = token_bucket_ok_new [OF assms(2,3)]
  have L: "0 < B" "0 < Rate config" "lb_rate l = of_int (Rate config)" "lb_capacity l = of_int B"
    using assms(1,4,5,8) by (auto simp: NewLeakyBucket_def Let_def split: if_splits)
  have T: "tb_rate t = of_int (Rate config)" "tb_burst t = of_int B"
    using assms(2,4,5,8) by (auto simp: NewTokenBucket_def Let_def split: if_splits)
  have "map Allowed (snd (lb_run l key (map (call_at m0) xs)))
      = map Allowed (snd (tb_run t key (map (call_at m0) xs)))"
    using lb_run_int [OF L(3,4,2,1) assms(6,7), of key m0]
      tb_run_int [OF T L(2,1) _ assms(6), of key m0] L(1) assms(8)
    by (simp add: rnd_int)
  then show ?thesis
    by (simp add: lb.results_of_solo [OF l(1)] l(2) tb.results_of_solo [OF t(1)] t(2) assms(9)
        flip: lb_run_def tb_run_def)
qed

theorem leaky_bucket_is_token_bucket_witness:
  "map Allowed (results_of LeakyBucket_AllowN (projr (NewLeakyBucket demo_config)) ''a''
      (map (\<lambda>x. (''a'', call_at 100 x)) demo_calls))
    = map Allowed (results_of TokenBucket_AllowN (projr (NewTokenBucket demo_config)) ''a''
      (map (\<lambda>x. (''a'', call_at 100 x)) demo_calls))"
  by (rule leaky_bucket_is_token_bucket [where config = demo_config and B = 2 and xs = demo_calls and ?m0.0 = 100])
    (simp_all add: NewLeakyBucket_def NewTokenBucket_def demo_config_def in64_def Let_def exact_calls_def
      demo_calls_def of_key_def)

end
