(* ===== verification/Registry.thy ===== *)
theory Registry
  imports SlidingWindow LeakyBucket
begin

text \<open>
  The registry of \<^verbatim>\<open>pkg/ratelimiter/limiter.go\<close>: the table of factories, filled by
  \<^verbatim>\<open>init\<close>, and the limiter values they return. A value of the interface type
  \<^verbatim>\<open>types.RateLimiter\<close> that a factory of \<^verbatim>\<open>init\<close> made is a \<open>limiter\<close>; a call through the
  interface is a case distinction on its type.

  Shown: what \<^verbatim>\<open>Create\<close> accepts, and that every limiter it makes satisfies the contract
  \<open>rate_limiter\<close>, so that keys do not interfere and the number of shards cannot be observed.
\<close>

section \<open>Limiters behind the interface\<close>

datatype limiter =
    TokenBucket token_bucket
  | SlidingWindow sliding_window
  | FixedWindow fixed_window
  | LeakyBucket leaky_bucket

fun limiter_AllowN :: "limiter allow_fun" where
  "limiter_AllowN (TokenBucket t) now key n = map_prod TokenBucket id (TokenBucket_AllowN t now key n)"
| "limiter_AllowN (SlidingWindow s) now key n = map_prod SlidingWindow id (SlidingWindow_AllowN s now key n)"
| "limiter_AllowN (FixedWindow f) now key n = map_prod FixedWindow id (FixedWindow_AllowN f now key n)"
| "limiter_AllowN (LeakyBucket l) now key n = map_prod LeakyBucket id (LeakyBucket_AllowN l now key n)"

fun limiter_Reset :: "limiter \<Rightarrow> string \<Rightarrow> limiter" where
  "limiter_Reset (TokenBucket t) key = TokenBucket (TokenBucket_Reset t key)"
| "limiter_Reset (SlidingWindow s) key = SlidingWindow (SlidingWindow_Reset s key)"
| "limiter_Reset (FixedWindow f) key = FixedWindow (FixedWindow_Reset f key)"
| "limiter_Reset (LeakyBucket l) key = LeakyBucket (LeakyBucket_Reset l key)"

text \<open>\<^verbatim>\<open>Config\<close> and \<^verbatim>\<open>Close\<close> are those of the embedded \<^verbatim>\<open>baseLimiter\<close>.\<close>

fun limiter_Config :: "limiter \<Rightarrow> rate_limiter_config" where
  "limiter_Config (TokenBucket t) = base_config (tb_base t)"
| "limiter_Config (SlidingWindow s) = base_config (sw_base s)"
| "limiter_Config (FixedWindow f) = base_config (fw_base f)"
| "limiter_Config (LeakyBucket l) = base_config (lb_base l)"

fun limiter_Close :: "limiter \<Rightarrow> limiter" where
  "limiter_Close (TokenBucket t) = TokenBucket (t\<lparr>tb_base := base_Close (tb_base t)\<rparr>)"
| "limiter_Close (SlidingWindow s) = SlidingWindow (s\<lparr>sw_base := base_Close (sw_base s)\<rparr>)"
| "limiter_Close (FixedWindow f) = FixedWindow (f\<lparr>fw_base := base_Close (fw_base f)\<rparr>)"
| "limiter_Close (LeakyBucket l) = LeakyBucket (l\<lparr>lb_base := base_Close (lb_base l)\<rparr>)"

section \<open>The registry\<close>

type_synonym factory = "rate_limiter_config \<Rightarrow> error + limiter"

definition Register :: "(string \<rightharpoonup> factory) \<Rightarrow> string \<Rightarrow> factory \<Rightarrow> (string \<rightharpoonup> factory)" where
  "Register registry name factory = registry(name \<mapsto> factory)"

definition Create :: "(string \<rightharpoonup> factory) \<Rightarrow> rate_limiter_config \<Rightarrow> error + limiter" where
  "Create registry config =
     (case registry (rl_Type config) of
        None \<Rightarrow> Inl (UnknownLimiter (rl_Type config))
      | Some factory \<Rightarrow> factory config)"

text \<open>The order of \<^verbatim>\<open>ListRegistered\<close> is that of Go's map iteration, unspecified: a set.\<close>

definition ListRegistered :: "(string \<rightharpoonup> factory) \<Rightarrow> string set" where
  "ListRegistered registry = dom registry"

definition init_registry :: "string \<rightharpoonup> factory" where
  "init_registry =
     (let registry = Map.empty;
          registry = Register registry ''token_bucket'' (map_sum id TokenBucket \<circ> NewTokenBucket);
          registry = Register registry ''sliding_window'' (map_sum id SlidingWindow \<circ> NewSlidingWindow);
          registry = Register registry ''fixed_window'' (map_sum id FixedWindow \<circ> NewFixedWindow);
          registry = Register registry ''leaky_bucket'' (map_sum id LeakyBucket \<circ> NewLeakyBucket)
      in registry)"

lemma init_registry_simps [simp]:
  "init_registry ''token_bucket'' = Some (map_sum id TokenBucket \<circ> NewTokenBucket)"
  "init_registry ''sliding_window'' = Some (map_sum id SlidingWindow \<circ> NewSlidingWindow)"
  "init_registry ''fixed_window'' = Some (map_sum id FixedWindow \<circ> NewFixedWindow)"
  "init_registry ''leaky_bucket'' = Some (map_sum id LeakyBucket \<circ> NewLeakyBucket)"
  by (simp_all add: init_registry_def Register_def)

lemma init_registry_dom:
  "ListRegistered init_registry = {''token_bucket'', ''sliding_window'', ''fixed_window'', ''leaky_bucket''}"
  by (simp add: ListRegistered_def init_registry_def Register_def insert_commute)

lemma registered_cases:
  assumes "init_registry name = Some f"
  obtains "name = ''token_bucket''" "f = map_sum id TokenBucket \<circ> NewTokenBucket"
  | "name = ''sliding_window''" "f = map_sum id SlidingWindow \<circ> NewSlidingWindow"
  | "name = ''fixed_window''" "f = map_sum id FixedWindow \<circ> NewFixedWindow"
  | "name = ''leaky_bucket''" "f = map_sum id LeakyBucket \<circ> NewLeakyBucket"
  using assms unfolding init_registry_def Register_def Let_def fun_upd_apply
  by (metis option.distinct(1) option.inject)

section \<open>The contract, for every registered type\<close>

datatype limiter_state =
    TokenBucketState token_bucket_state
  | SlidingWindowState sliding_window_state
  | FixedWindowState fixed_window_state
  | LeakyBucketState leaky_bucket_state

fun limiter_view :: "limiter \<Rightarrow> string \<Rightarrow> limiter_state option" where
  "limiter_view (TokenBucket t) key = map_option TokenBucketState (shard_get (tb_base t) key)"
| "limiter_view (SlidingWindow s) key = map_option SlidingWindowState (shard_get (sw_base s) key)"
| "limiter_view (FixedWindow f) key = map_option FixedWindowState (shard_get (fw_base f) key)"
| "limiter_view (LeakyBucket l) key = map_option LeakyBucketState (shard_get (lb_base l) key)"

text \<open>The type assertion \<^verbatim>\<open>shard.state[key].(*tokenBucketState)\<close> and its likes.\<close>

fun as_tb :: "limiter_state \<Rightarrow> token_bucket_state option" where
  "as_tb (TokenBucketState s) = Some s" | "as_tb _ = None"
fun as_sw :: "limiter_state \<Rightarrow> sliding_window_state option" where
  "as_sw (SlidingWindowState s) = Some s" | "as_sw _ = None"
fun as_fw :: "limiter_state \<Rightarrow> fixed_window_state option" where
  "as_fw (FixedWindowState s) = Some s" | "as_fw _ = None"
fun as_lb :: "limiter_state \<Rightarrow> leaky_bucket_state option" where
  "as_lb (LeakyBucketState s) = Some s" | "as_lb _ = None"

fun limiter_step :: "limiter \<Rightarrow> string \<Rightarrow> limiter_state option \<Rightarrow> gotime \<times> int64
    \<Rightarrow> limiter_state \<times> rate_limit_result" where
  "limiter_step (TokenBucket t) key st i =
     map_prod TokenBucketState id (token_bucket_step t key (Option.bind st as_tb) i)"
| "limiter_step (SlidingWindow s) key st i =
     map_prod SlidingWindowState id (sliding_window_step s key (Option.bind st as_sw) i)"
| "limiter_step (FixedWindow f) key st i =
     map_prod FixedWindowState id (fixed_window_step f key (Option.bind st as_fw) i)"
| "limiter_step (LeakyBucket l) key st i =
     map_prod LeakyBucketState id (leaky_bucket_step l key (Option.bind st as_lb) i)"

fun limiter_ok :: "limiter \<Rightarrow> bool" where
  "limiter_ok (TokenBucket t) = token_bucket_ok t"
| "limiter_ok (SlidingWindow s) = sliding_window_ok s"
| "limiter_ok (FixedWindow f) = fixed_window_ok f"
| "limiter_ok (LeakyBucket l) = leaky_bucket_ok l"

lemma bind_as [simp]:
  "Option.bind (map_option TokenBucketState x) as_tb = x"
  "Option.bind (map_option SlidingWindowState y) as_sw = y"
  "Option.bind (map_option FixedWindowState z) as_fw = z"
  "Option.bind (map_option LeakyBucketState w) as_lb = w"
  by (cases x; cases y; cases z; cases w; simp)+

lemma limiter_step_frame:
  "limiter_step (fst (limiter_AllowN l now key n)) = limiter_step l"
  "limiter_step (limiter_Reset l key) = limiter_step l"
  by (cases l; rule ext; simp add: fun_eq_iff tb.step_allowN sw.step_allowN fw.step_allowN lb.step_allowN
      tb.step_reset sw.step_reset fw.step_reset lb.step_reset)+

interpretation lims: rate_limiter limiter_AllowN limiter_Reset limiter_view limiter_step limiter_ok
proof unfold_locales
  fix l now key n k
  show "limiter_ok l \<Longrightarrow> limiter_ok (fst (limiter_AllowN l now key n))"
    by (cases l) (simp_all add: tb.ok_allowN sw.ok_allowN fw.ok_allowN lb.ok_allowN)
  show "limiter_ok l \<Longrightarrow> limiter_ok (limiter_Reset l key)"
    by (cases l) (simp_all add: tb.ok_reset sw.ok_reset fw.ok_reset lb.ok_reset)
  show "limiter_ok l \<Longrightarrow> limiter_view (fst (limiter_AllowN l now key n)) k =
      (if k = key then Some (fst (limiter_step l key (limiter_view l key) (now, n))) else limiter_view l k)"
    by (cases l) (simp_all add: tb.view_allowN sw.view_allowN fw.view_allowN lb.view_allowN)
  show "limiter_ok l \<Longrightarrow> snd (limiter_AllowN l now key n) =
      Inr (snd (limiter_step l key (limiter_view l key) (now, n)))"
    by (cases l) (simp_all add: tb.result_allowN sw.result_allowN fw.result_allowN lb.result_allowN)
  show "limiter_ok l \<Longrightarrow> limiter_view (limiter_Reset l key) k = (if k = key then None else limiter_view l k)"
    by (cases l) (simp_all add: tb.view_reset sw.view_reset fw.view_reset lb.view_reset)
qed (rule limiter_step_frame)+

section \<open>What \<^verbatim>\<open>Create\<close> makes\<close>

definition config_in64 :: "rate_limiter_config \<Rightarrow> bool" where
  "config_in64 config \<longleftrightarrow> in64 (Rate config) \<and> in64 (Burst config) \<and> in64 (Window config) \<and> in64 (rl_Shards config)"

lemmas factory_defs = NewTokenBucket_def NewSlidingWindow_def NewFixedWindow_def NewLeakyBucket_def
lemmas limiter_new_ok = token_bucket_ok_new sliding_window_ok_new fixed_window_ok_new leaky_bucket_ok_new

lemma Create_cases:
  assumes "Create init_registry config = Inr l"
  obtains t where "l = TokenBucket t" "NewTokenBucket config = Inr t" "rl_Type config = ''token_bucket''"
  | s where "l = SlidingWindow s" "NewSlidingWindow config = Inr s" "rl_Type config = ''sliding_window''"
  | f where "l = FixedWindow f" "NewFixedWindow config = Inr f" "rl_Type config = ''fixed_window''"
  | b where "l = LeakyBucket b" "NewLeakyBucket config = Inr b" "rl_Type config = ''leaky_bucket''"
proof -
  from assms obtain f where f: "init_registry (rl_Type config) = Some f" "f config = Inr l"
    by (auto simp: Create_def split: option.splits)
  from f(1) show thesis
    by (cases rule: registered_cases) (use f(2) that in \<open>auto simp: map_sum_def split: sum.splits\<close>)
qed

lemma Create_limiter_ok:
  assumes "Create init_registry config = Inr l" and "config_in64 config"
  shows "limiter_ok l" and "limiter_view l key = None" and "limiter_Config l = config"
proof -
  show "limiter_ok l" using assms(1)
    by (cases rule: Create_cases) (use assms(2) limiter_new_ok in \<open>auto simp: config_in64_def\<close>)
  show "limiter_view l key = None" using assms(1)
    by (cases rule: Create_cases) (use assms(2) limiter_new_ok in \<open>auto simp: config_in64_def\<close>)
  show "limiter_Config l = config" using assms(1)
    by (cases rule: Create_cases) (auto simp: factory_defs newBaseLimiter_def Let_def split: if_splits)
qed

text \<open>The factories read the shard count for the store only.\<close>

lemma Create_step:
  assumes "Create init_registry config = Inr l" and "Create init_registry (config\<lparr>rl_Shards := m\<rparr>) = Inr l'"
  shows "limiter_step l = limiter_step l'"
proof -
  have "token_bucket_step t = token_bucket_step u"
    if "NewTokenBucket config = Inr t" "NewTokenBucket (config\<lparr>rl_Shards := m\<rparr>) = Inr u" for t u
    using that by (intro token_bucket_step_cong) (auto simp: factory_defs Let_def split: if_splits)
  moreover have "sliding_window_step t = sliding_window_step u"
    if "NewSlidingWindow config = Inr t" "NewSlidingWindow (config\<lparr>rl_Shards := m\<rparr>) = Inr u" for t u
    using that by (intro sliding_window_step_cong) (auto simp: factory_defs Let_def split: if_splits)
  moreover have "fixed_window_step t = fixed_window_step u"
    if "NewFixedWindow config = Inr t" "NewFixedWindow (config\<lparr>rl_Shards := m\<rparr>) = Inr u" for t u
    using that by (intro fixed_window_step_cong) (auto simp: factory_defs Let_def split: if_splits)
  moreover have "leaky_bucket_step t = leaky_bucket_step u"
    if "NewLeakyBucket config = Inr t" "NewLeakyBucket (config\<lparr>rl_Shards := m\<rparr>) = Inr u" for t u
    using that by (intro leaky_bucket_step_cong) (auto simp: factory_defs Let_def split: if_splits)
  ultimately show ?thesis
    using assms by (elim Create_cases) (auto simp: fun_eq_iff)
qed

lemma Create_error:
  "Create init_registry config =
     (if rl_Type config \<notin> ListRegistered init_registry then Inl (UnknownLimiter (rl_Type config))
      else if Rate config \<le> 0 then Inl RateNotPositive
      else Inr (projr (Create init_registry config)))"
proof (cases "init_registry (rl_Type config)")
  case None
  then show ?thesis by (auto simp: Create_def ListRegistered_def)
next
  case (Some f)
  then have "rl_Type config \<in> ListRegistered init_registry" "Create init_registry config = f config"
    by (auto simp: ListRegistered_def Create_def)
  with Some show ?thesis
    by (cases rule: registered_cases) (auto simp: factory_defs Let_def)
qed

section \<open>Properties\<close>

text \<open>
  C15. \<^verbatim>\<open>Create\<close> makes a limiter exactly for the four registered types with a positive rate,
  and its two errors are an unknown type and, for a known one, a rate that is not positive.
\<close>

theorem create_outcomes:
  "(\<exists>l. Create init_registry config = Inr l) =
     (rl_Type config \<in> {''token_bucket'', ''sliding_window'', ''fixed_window'', ''leaky_bucket''} \<and> 0 < Rate config)
   \<and> (Create init_registry config = Inl (UnknownLimiter (rl_Type config))) =
     (rl_Type config \<notin> {''token_bucket'', ''sliding_window'', ''fixed_window'', ''leaky_bucket''})
   \<and> (Create init_registry config = Inl RateNotPositive) =
     (rl_Type config \<in> {''token_bucket'', ''sliding_window'', ''fixed_window'', ''leaky_bucket''} \<and> Rate config \<le> 0)"
  unfolding init_registry_dom [symmetric]
  using Create_error [of config] by (simp split: if_splits) (metis sum.distinct(1))

text \<open>
  C16. Keys do not interfere. For every limiter \<^verbatim>\<open>Create\<close> makes, what the requests of one key
  are answered in any interleaved run is what they are answered when that key's requests
  are run alone, even when keys share a shard.
\<close>

theorem limiter_keys_isolated:
  assumes "Create init_registry config = Inr l" and "config_in64 config"
  shows "of_key key (snd (run_allow limiter_AllowN l rs))
    = of_key key (snd (run_allow limiter_AllowN l (filter (\<lambda>r. fst r = key) rs)))"
  by (rule lims.isolation [OF Create_limiter_ok(1) [OF assms]])

lemma demo_config_in64: "config_in64 (demo_config\<lparr>rl_Type := t\<rparr>)" "config_in64 (demo_config\<lparr>rl_Shards := 1\<rparr>)"
  "config_in64 demo_config"
  by (simp_all add: config_in64_def demo_config_def in64_def)

definition demo_limiter :: limiter where
  "demo_limiter = projr (Create init_registry demo_config)"

lemma demo_created: "Create init_registry demo_config = Inr demo_limiter"
  using Create_error [of demo_config] unfolding init_registry_dom demo_limiter_def
  by (simp add: demo_config_def)

theorem limiter_keys_isolated_witness:
  "of_key ''a'' (snd (run_allow limiter_AllowN demo_limiter demo_requests))
    = of_key ''a'' (snd (run_allow limiter_AllowN demo_limiter (filter (\<lambda>r. fst r = ''a'') demo_requests)))"
  by (rule limiter_keys_isolated [OF demo_created demo_config_in64(3)])

text \<open>
  C17. The shards cannot be observed. Two limiters created from configurations that differ in
  the number of shards only answer every sequence of requests alike.
\<close>

theorem limiter_shards_irrelevant:
  assumes "Create init_registry config = Inr l" and "Create init_registry (config\<lparr>rl_Shards := m\<rparr>) = Inr l'"
    and "config_in64 config" and "in64 m"
  shows "snd (run_allow limiter_AllowN l rs) = snd (run_allow limiter_AllowN l' rs)"
proof -
  have "config_in64 (config\<lparr>rl_Shards := m\<rparr>)" using assms(3,4) by (simp add: config_in64_def)
  then show ?thesis
    using assms by (intro lims.same_start Create_step) (simp_all add: Create_limiter_ok)
qed

theorem limiter_shards_irrelevant_witness:
  "snd (run_allow limiter_AllowN demo_limiter demo_requests) =
    snd (run_allow limiter_AllowN (projr (Create init_registry (demo_config\<lparr>rl_Shards := 1\<rparr>))) demo_requests)"
proof -
  have "Create init_registry (demo_config\<lparr>rl_Shards := 1\<rparr>)
      = Inr (projr (Create init_registry (demo_config\<lparr>rl_Shards := 1\<rparr>)))"
    using Create_error [of "demo_config\<lparr>rl_Shards := 1\<rparr>"] unfolding init_registry_dom
    by (simp add: demo_config_def)
  then show ?thesis
    by (rule limiter_shards_irrelevant [OF demo_created _ demo_config_in64(3)]) (simp add: in64_def)
qed

end
