(* ===== verification/Balancer.thy ===== *)
theory Balancer
  imports Types "HOL-Library.Multiset"
begin

text \<open>
  The load balancers of \<^verbatim>\<open>pkg/loadbalancer/balancer.go\<close>. \<^verbatim>\<open>BaseBalancer\<close> is the list of
  servers; every operation runs under its mutex and is one function. The code holds pointers
  to \<^verbatim>\<open>ServerInfo\<close>; only the operations here write through them, so the list holds values.

  The locale \<open>load_balancer\<close> is the part of the interface \<^verbatim>\<open>types.LoadBalancer\<close> the clients
  rely on; each of the four algorithms is an interpretation of it. Shown besides: round
  robin and weighted selection are exactly fair over a full period, least connections picks
  a minimum, and through the interface alone it always picks the first healthy server.
\<close>

section \<open>The servers\<close>

record base_balancer =
  servers :: "server_info list"

definition RegisterServer :: "base_balancer \<Rightarrow> server_info \<Rightarrow> error + base_balancer" where
  "RegisterServer b server =
     (if list_ex (\<lambda>s. si_ID s = si_ID server) (servers b)
      then Inl (ServerAlreadyRegistered (si_ID server))
      else Inr (b\<lparr>servers := servers b @ [server\<lparr>Healthy := True\<rparr>]\<rparr>))"

fun remove_id :: "string \<Rightarrow> server_info list \<Rightarrow> server_info list option" where
  "remove_id serverID [] = None"
| "remove_id serverID (s # ss) =
     (if si_ID s = serverID then Some ss else map_option ((#) s) (remove_id serverID ss))"

definition RemoveServer :: "base_balancer \<Rightarrow> string \<Rightarrow> error + base_balancer" where
  "RemoveServer b serverID =
     (case remove_id serverID (servers b) of
        Some ss \<Rightarrow> Inr (b\<lparr>servers := ss\<rparr>)
      | None \<Rightarrow> Inl (ServerNotFound serverID))"

fun set_health :: "string \<Rightarrow> bool \<Rightarrow> server_info list \<Rightarrow> server_info list" where
  "set_health serverID h [] = []"
| "set_health serverID h (s # ss) =
     (if si_ID s = serverID then s\<lparr>Healthy := h\<rparr> # ss else s # set_health serverID h ss)"

definition MarkUnhealthy :: "base_balancer \<Rightarrow> string \<Rightarrow> base_balancer" where
  "MarkUnhealthy b serverID = b\<lparr>servers := set_health serverID False (servers b)\<rparr>"

definition MarkHealthy :: "base_balancer \<Rightarrow> string \<Rightarrow> base_balancer" where
  "MarkHealthy b serverID = b\<lparr>servers := set_health serverID True (servers b)\<rparr>"

definition Servers :: "base_balancer \<Rightarrow> server_info list" where
  "Servers b = servers b"

definition getHealthyServers :: "base_balancer \<Rightarrow> server_info list" where
  "getHealthyServers b = filter Healthy (servers b)"

section \<open>Round robin\<close>

record round_robin =
  rr_base :: base_balancer
  rr_current :: uint64

definition NewRoundRobin :: round_robin where
  "NewRoundRobin = \<lparr>rr_base = \<lparr>servers = []\<rparr>, rr_current = 0\<rparr>"

definition RoundRobin_PickServer :: "round_robin \<Rightarrow> round_robin \<times> (error + server_info)" where
  "RoundRobin_PickServer r =
     (let ss = getHealthyServers (rr_base r)
      in if ss = [] then (r, Inl NoHealthyServers)
         else let r = r\<lparr>rr_current := rr_current r + 1\<rparr>;
                  idx = rr_current r - 1
              in (r, Inr (ss ! unat (idx mod of_nat (length ss)))))"

section \<open>Random\<close>

record random_balancer =
  rnd_base :: base_balancer

definition NewRandom :: random_balancer where
  "NewRandom = \<lparr>rnd_base = \<lparr>servers = []\<rparr>\<rparr>"

text \<open>
  \<^verbatim>\<open>rand.Intn(n)\<close> returns some number below \<open>n\<close>: the model takes an arbitrary \<open>k\<close> and reduces it.
\<close>

definition rand_Intn :: "nat \<Rightarrow> nat \<Rightarrow> nat" where
  "rand_Intn k n = k mod n"

definition Random_PickServer ::
    "nat \<Rightarrow> random_balancer \<Rightarrow> random_balancer \<times> (error + server_info)" where
  "Random_PickServer k r =
     (let ss = getHealthyServers (rnd_base r)
      in if ss = [] then (r, Inl NoHealthyServers) else (r, Inr (ss ! rand_Intn k (length ss))))"

section \<open>Weighted\<close>

record weighted_balancer =
  wt_base :: base_balancer
  wt_current :: uint64

definition NewWeighted :: weighted_balancer where
  "NewWeighted = \<lparr>wt_base = \<lparr>servers = []\<rparr>, wt_current = 0\<rparr>"

definition effective_weight :: "server_info \<Rightarrow> int" where
  "effective_weight s = (if Weight s \<le> 0 then 1 else Weight s)"

definition total_weight :: "server_info list \<Rightarrow> int64" where
  "total_weight ss = foldl (\<lambda>totalWeight s. w64 (totalWeight + effective_weight s)) 0 ss"

fun weighted_walk :: "int64 \<Rightarrow> server_info list \<Rightarrow> server_info option" where
  "weighted_walk pick [] = None"
| "weighted_walk pick (s # ss) =
     (let pick = w64 (pick - effective_weight s)
      in if pick < 0 then Some s else weighted_walk pick ss)"

definition Weighted_PickServer :: "weighted_balancer \<Rightarrow> weighted_balancer \<times> (error + server_info)" where
  "Weighted_PickServer w =
     (let ss = getHealthyServers (wt_base w)
      in if ss = [] then (w, Inl NoHealthyServers)
         else let totalWeight = total_weight ss;
                  w = w\<lparr>wt_current := wt_current w + 1\<rparr>;
                  idx = wt_current w - 1
              in if totalWeight = 0 then (w, Inl DivideByZero)
                 else let pick = sint (idx mod word_of_int totalWeight)
                      in (w, Inr (case weighted_walk pick ss of Some s \<Rightarrow> s | None \<Rightarrow> ss ! 0)))"

section \<open>Least connections\<close>

record least_connections =
  lc_base :: base_balancer
  lc_connections :: "string \<rightharpoonup> int64"

definition NewLeastConnections :: least_connections where
  "NewLeastConnections = \<lparr>lc_base = \<lparr>servers = []\<rparr>, lc_connections = Map.empty\<rparr>"

definition connection_count :: "least_connections \<Rightarrow> server_info \<Rightarrow> int64" where
  "connection_count l s = (case lc_connections l (si_ID s) of Some c \<Rightarrow> c | None \<Rightarrow> 0)"

fun least_loop :: "(server_info \<Rightarrow> int64) \<Rightarrow> server_info option \<Rightarrow> int64 \<Rightarrow> server_info list
    \<Rightarrow> server_info option" where
  "least_loop cnt best bestCount [] = best"
| "least_loop cnt best bestCount (s # ss) =
     (if bestCount < 0 \<or> cnt s < bestCount then least_loop cnt (Some s) (cnt s) ss
      else least_loop cnt best bestCount ss)"

definition LeastConnections_PickServer :: "least_connections \<Rightarrow> least_connections \<times> (error + server_info)" where
  "LeastConnections_PickServer l =
     (let ss = getHealthyServers (lc_base l)
      in if ss = [] then (l, Inl NoHealthyServers)
         else (l, Inr (the (least_loop (connection_count l) None (-1) ss))))"

definition IncrementConnections :: "least_connections \<Rightarrow> string \<Rightarrow> least_connections" where
  "IncrementConnections l serverID =
     (let c = (case lc_connections l serverID of Some c \<Rightarrow> c | None \<Rightarrow> 0)
      in l\<lparr>lc_connections := (lc_connections l)(serverID \<mapsto> w64 (c + 1))\<rparr>)"

definition DecrementConnections :: "least_connections \<Rightarrow> string \<Rightarrow> least_connections" where
  "DecrementConnections l serverID =
     (case lc_connections l serverID of
        Some c \<Rightarrow> l\<lparr>lc_connections := (lc_connections l)(serverID \<mapsto> w64 (c - 1))\<rparr>
      | None \<Rightarrow> l)"

section \<open>The factory\<close>

datatype balancer =
    RoundRobin round_robin
  | Random random_balancer
  | Weighted weighted_balancer
  | LeastConnections least_connections

definition New :: "string \<Rightarrow> error + balancer" where
  "New algorithm =
     (if algorithm = ''round_robin'' then Inr (RoundRobin NewRoundRobin)
      else if algorithm = ''random'' then Inr (Random NewRandom)
      else if algorithm = ''weighted'' then Inr (Weighted NewWeighted)
      else if algorithm = ''least_conn'' then Inr (LeastConnections NewLeastConnections)
      else Inl (UnknownBalancer algorithm))"

fun PickServer :: "nat \<Rightarrow> balancer \<Rightarrow> balancer \<times> (error + server_info)" where
  "PickServer k (RoundRobin r) = map_prod RoundRobin id (RoundRobin_PickServer r)"
| "PickServer k (Random r) = map_prod Random id (Random_PickServer k r)"
| "PickServer k (Weighted w) = map_prod Weighted id (Weighted_PickServer w)"
| "PickServer k (LeastConnections l) = map_prod LeastConnections id (LeastConnections_PickServer l)"

text \<open>The embedded \<^verbatim>\<open>BaseBalancer\<close>, read and replaced.\<close>

fun balancer_base :: "balancer \<Rightarrow> base_balancer" where
  "balancer_base (RoundRobin r) = rr_base r"
| "balancer_base (Random r) = rnd_base r"
| "balancer_base (Weighted w) = wt_base w"
| "balancer_base (LeastConnections l) = lc_base l"

fun with_base :: "balancer \<Rightarrow> base_balancer \<Rightarrow> balancer" where
  "with_base (RoundRobin r) b = RoundRobin (r\<lparr>rr_base := b\<rparr>)"
| "with_base (Random r) b = Random (r\<lparr>rnd_base := b\<rparr>)"
| "with_base (Weighted w) b = Weighted (w\<lparr>wt_base := b\<rparr>)"
| "with_base (LeastConnections l) b = LeastConnections (l\<lparr>lc_base := b\<rparr>)"

section \<open>The contract of the interface\<close>

datatype lb_op =
    OpRegister server_info
  | OpRemove string
  | OpUnhealthy string
  | OpHealthy string
  | OpPick nat

text \<open>A call on the servers; one that returns an error leaves them as they are.\<close>

fun base_op :: "lb_op \<Rightarrow> base_balancer \<Rightarrow> base_balancer" where
  "base_op (OpRegister s) b = case_sum (\<lambda>_. b) id (RegisterServer b s)"
| "base_op (OpRemove i) b = case_sum (\<lambda>_. b) id (RemoveServer b i)"
| "base_op (OpUnhealthy i) b = MarkUnhealthy b i"
| "base_op (OpHealthy i) b = MarkHealthy b i"
| "base_op (OpPick k) b = b"

definition lb_apply :: "(nat \<Rightarrow> 'b \<Rightarrow> 'b \<times> 'r) \<Rightarrow> ('b \<Rightarrow> base_balancer)
    \<Rightarrow> ('b \<Rightarrow> base_balancer \<Rightarrow> 'b) \<Rightarrow> lb_op \<Rightarrow> 'b \<Rightarrow> 'b" where
  "lb_apply pick base upd op b =
     (case op of OpPick k \<Rightarrow> fst (pick k b) | _ \<Rightarrow> upd b (base_op op (base b)))"

definition distinct_ids :: "base_balancer \<Rightarrow> bool" where
  "distinct_ids b \<longleftrightarrow> distinct (map si_ID (servers b))"

definition weights_fit :: "base_balancer \<Rightarrow> bool" where
  "weights_fit b \<longleftrightarrow> sum_list (map effective_weight (servers b)) < 2 ^ 63"

text \<open>The server is registered and not healthy, or not registered.\<close>

definition down :: "string \<Rightarrow> base_balancer \<Rightarrow> bool" where
  "down i b \<longleftrightarrow> (\<forall>s\<in>set (servers b). si_ID s = i \<longrightarrow> \<not> Healthy s)"

text \<open>The calls that can bring a server back.\<close>

fun revives :: "string \<Rightarrow> lb_op \<Rightarrow> bool" where
  "revives i (OpRegister s) = (si_ID s = i)"
| "revives i (OpHealthy j) = (j = i)"
| "revives i _ = False"

lemma set_health_ids [simp]: "map si_ID (set_health i h ss) = map si_ID ss"
  by (induction ss) auto

lemma remove_id_some:
  "remove_id i ss = Some ts \<Longrightarrow> set ts \<subseteq> set ss"
  "remove_id i ss = Some ts \<Longrightarrow> distinct (map si_ID ss) \<Longrightarrow> distinct (map si_ID ts)"
  "remove_id i ss = Some ts \<Longrightarrow> distinct (map si_ID ss) \<Longrightarrow> s \<in> set ts \<Longrightarrow> si_ID s \<noteq> i"
proof -
  have *: "\<exists>us v vs. ss = us @ v # vs \<and> ts = us @ vs \<and> si_ID v = i" if "remove_id i ss = Some ts"
    using that
  proof (induction ss arbitrary: ts)
    case (Cons s ss)
    show ?case
    proof (cases "si_ID s = i")
      case True
      with Cons.prems have "s # ss = [] @ s # ss \<and> ts = [] @ ss \<and> si_ID s = i" by simp
      then show ?thesis by blast
    next
      case False
      with Cons.prems obtain ts' where ts': "remove_id i ss = Some ts'" "ts = s # ts'" by auto
      from Cons.IH [OF ts'(1)] obtain us v vs where "ss = us @ v # vs" "ts' = us @ vs" "si_ID v = i" by blast
      then have "s # ss = (s # us) @ v # vs \<and> ts = (s # us) @ vs \<and> si_ID v = i" by (simp add: ts'(2))
      then show ?thesis by blast
    qed
  qed simp
  show "remove_id i ss = Some ts \<Longrightarrow> set ts \<subseteq> set ss"
    and "remove_id i ss = Some ts \<Longrightarrow> distinct (map si_ID ss) \<Longrightarrow> distinct (map si_ID ts)"
    and "remove_id i ss = Some ts \<Longrightarrow> distinct (map si_ID ss) \<Longrightarrow> s \<in> set ts \<Longrightarrow> si_ID s \<noteq> i"
    using * by (auto simp: image_iff) (metis+)
qed

lemma set_health_set:
  "s \<in> set (set_health i h ss) \<Longrightarrow> s \<in> set ss \<or> si_ID s = i \<and> Healthy s = h"
  by (induction ss) (auto split: if_splits)

lemma set_health_down:
  "distinct (map si_ID ss) \<Longrightarrow> s \<in> set (set_health i False ss) \<Longrightarrow> si_ID s = i \<Longrightarrow> \<not> Healthy s"
proof (induction ss)
  case (Cons x ss)
  show ?case
  proof (cases "si_ID x = i")
    case True
    then have "i \<notin> si_ID ` set ss" using Cons.prems(1) by simp
    then show ?thesis using True Cons.prems(2,3) by (auto simp: image_iff)
  next
    case False
    then show ?thesis using Cons by (cases "s = x") simp_all
  qed
qed simp

lemma distinct_ids_op: "distinct_ids b \<Longrightarrow> distinct_ids (base_op op b)"
proof (cases op)
  case (OpRemove i)
  then show "distinct_ids b \<Longrightarrow> ?thesis"
    by (auto simp: distinct_ids_def RemoveServer_def split: option.splits dest: remove_id_some)
qed (auto simp: distinct_ids_def RegisterServer_def MarkUnhealthy_def MarkHealthy_def list_ex_iff)

lemma down_op: "down i b \<Longrightarrow> \<not> revives i op \<Longrightarrow> down i (base_op op b)"
proof (cases op)
  case (OpRemove j)
  then show "down i b \<Longrightarrow> ?thesis"
    by (auto simp: down_def RemoveServer_def split: option.splits dest: remove_id_some)
qed (auto simp: down_def RegisterServer_def MarkUnhealthy_def MarkHealthy_def dest: set_health_set)

lemma down_MarkUnhealthy: "distinct_ids b \<Longrightarrow> down i (MarkUnhealthy b i)"
  by (auto simp: distinct_ids_def down_def MarkUnhealthy_def dest: set_health_down)

lemma down_RemoveServer: "distinct_ids b \<Longrightarrow> RemoveServer b i = Inr b' \<Longrightarrow> down i b'"
  by (auto simp: distinct_ids_def down_def RemoveServer_def split: option.splits dest: remove_id_some)

locale load_balancer =
  fixes pick :: "nat \<Rightarrow> 'b \<Rightarrow> 'b \<times> (error + server_info)"
    and base :: "'b \<Rightarrow> base_balancer"
    and upd :: "'b \<Rightarrow> base_balancer \<Rightarrow> 'b"
  assumes base_pick: "base (fst (pick k b)) = base b"
    and base_upd: "base (upd b c) = c"
    and pick_none: "getHealthyServers (base b) = [] \<Longrightarrow> snd (pick k b) = Inl NoHealthyServers"
    and pick_some: "getHealthyServers (base b) \<noteq> [] \<Longrightarrow> weights_fit (base b) \<Longrightarrow>
      \<exists>s\<in>set (getHealthyServers (base b)). snd (pick k b) = Inr s"
begin

abbreviation run :: "lb_op list \<Rightarrow> 'b \<Rightarrow> 'b" where
  "run \<equiv> fold (lb_apply pick base upd)"

lemma base_apply: "base (lb_apply pick base upd op b) = base_op op (base b)"
  by (cases op) (simp_all add: lb_apply_def base_pick base_upd)

lemma base_run: "base (run ops b) = fold base_op ops (base b)"
  by (induction ops arbitrary: b) (simp_all add: base_apply)

lemma distinct_run: "distinct_ids (base b) \<Longrightarrow> distinct_ids (base (run ops b))"
  by (induction ops arbitrary: b) (simp_all add: base_apply distinct_ids_op)

lemma down_run: "down i (base b) \<Longrightarrow> \<forall>op\<in>set ops. \<not> revives i op \<Longrightarrow> down i (base (run ops b))"
  by (induction ops arbitrary: b) (simp_all add: base_apply down_op)

text \<open>A pick returns a server that is registered and healthy, or fails as none is.\<close>

lemma pick_sound:
  "weights_fit (base b) \<Longrightarrow>
    (case snd (pick k b) of
       Inr s \<Rightarrow> s \<in> set (servers (base b)) \<and> Healthy s
     | Inl e \<Rightarrow> e = NoHealthyServers \<and> (\<forall>s\<in>set (servers (base b)). \<not> Healthy s))"
  using pick_none [of b k] pick_some [of b k]
  by (cases "getHealthyServers (base b) = []") (auto simp: getHealthyServers_def filter_empty_conv)

lemma down_not_picked:
  assumes "weights_fit (base b)" and "down i (base b)" and "snd (pick k b) = Inr s"
  shows "si_ID s \<noteq> i"
  using pick_sound [OF assms(1), of k] assms(2,3) by (auto simp: down_def)

end

section \<open>Weights\<close>

lemma effective_weight_pos [simp]: "0 < effective_weight s"
  by (simp add: effective_weight_def)

lemma effective_weight_nonneg [simp]: "0 \<le> effective_weight s"
  by (simp add: effective_weight_def)

lemma weights_nonneg [simp]: "0 \<le> sum_list (map effective_weight ss)"
  by (intro sum_list_nonneg) (auto intro: less_imp_le)

lemma total_weight_foldl:
  "0 \<le> a \<Longrightarrow> a + sum_list (map effective_weight ss) < 2 ^ 63 \<Longrightarrow>
    foldl (\<lambda>totalWeight s. w64 (totalWeight + effective_weight s)) a ss = a + sum_list (map effective_weight ss)"
proof (induction ss arbitrary: a)
  case (Cons s ss)
  have "a + effective_weight s < 2 ^ 63" "- (2 ^ 63) \<le> a + effective_weight s"
    using Cons.prems weights_nonneg [of ss] effective_weight_pos [of s] unfolding list.map sum_list.Cons
    by linarith+
  then have "w64 (a + effective_weight s) = a + effective_weight s"
    by (intro w64_id) (simp add: in64_def)
  moreover have "0 \<le> a + effective_weight s" using Cons.prems(1) effective_weight_pos [of s] by linarith
  ultimately show ?case using Cons.IH [of "a + effective_weight s"] Cons.prems by (simp add: add.assoc)
qed simp

lemma total_weight_sum:
  "sum_list (map effective_weight ss) < 2 ^ 63 \<Longrightarrow> total_weight ss = sum_list (map effective_weight ss)"
  using total_weight_foldl [of 0 ss] by (simp add: total_weight_def)

lemma total_weight_pos:
  "ss \<noteq> [] \<Longrightarrow> sum_list (map effective_weight ss) < 2 ^ 63 \<Longrightarrow> 0 < total_weight ss"
  by (cases ss) (simp_all add: total_weight_sum add_pos_nonneg)

lemma sum_filter_le: "(\<forall>x\<in>set xs. (0::int) \<le> f x) \<Longrightarrow> sum_list (map f (filter P xs)) \<le> sum_list (map f xs)"
  by (induction xs) auto

lemma weights_fit_healthy:
  "weights_fit b \<Longrightarrow> sum_list (map effective_weight (getHealthyServers b)) < 2 ^ 63"
  using sum_filter_le [of "servers b" effective_weight Healthy]
  by (auto simp: weights_fit_def getHealthyServers_def less_imp_le)

lemma weighted_walk_in: "weighted_walk p ss = Some s \<Longrightarrow> s \<in> set ss"
  by (induction p ss rule: weighted_walk.induct) (auto simp: Let_def split: if_splits)

section \<open>Minimum\<close>

lemma least_loop_start: "least_loop cnt None (-1) (s # ss) = least_loop cnt (Some s) (cnt s) ss"
  by simp

lemma least_loop_in: "least_loop cnt (Some b) c ss = Some s \<Longrightarrow> s = b \<or> s \<in> set ss"
  by (induction ss arbitrary: b c) (fastforce split: if_splits)+

lemma least_loop_some: "\<exists>s. least_loop cnt (Some b) c ss = Some s"
  by (induction ss arbitrary: b c) simp_all

lemma least_loop_min:
  "\<forall>x\<in>set (b # ss). 0 \<le> cnt x \<Longrightarrow> least_loop cnt (Some b) (cnt b) ss = Some s \<Longrightarrow>
    cnt s \<le> cnt b \<and> (\<forall>x\<in>set ss. cnt s \<le> cnt x)"
proof (induction ss arbitrary: b)
  case (Cons x ss)
  show ?case
  proof (cases "cnt x < cnt b")
    case True
    then show ?thesis using Cons.IH [of x] Cons.prems by fastforce
  next
    case False
    then show ?thesis using Cons.IH [of b] Cons.prems by fastforce
  qed
qed simp

text \<open>Among equal counts the first server wins.\<close>

lemma least_loop_first: "\<forall>x\<in>set ss. c \<le> cnt x \<Longrightarrow> 0 \<le> c \<Longrightarrow> least_loop cnt (Some b) c ss = Some b"
  by (induction ss) auto

section \<open>The four algorithms keep the contract\<close>

lemma nth_mod_in: "ss \<noteq> [] \<Longrightarrow> ss ! (k mod length ss) \<in> set ss"
  by simp

lemma least_pick_in:
  assumes "getHealthyServers (lc_base l) \<noteq> []"
  shows "\<exists>s\<in>set (getHealthyServers (lc_base l)). snd (LeastConnections_PickServer l) = Inr s"
proof -
  obtain x xs where x: "getHealthyServers (lc_base l) = x # xs" using assms by (cases "getHealthyServers (lc_base l)") auto
  obtain s where "least_loop (connection_count l) (Some x) (connection_count l x) xs = Some s"
    using least_loop_some by blast
  then show ?thesis
    using least_loop_in by (fastforce simp: LeastConnections_PickServer_def x Let_def)
qed

text \<open>An address space has fewer than \<open>2 ^ 63\<close> elements; every server weighs at least one.\<close>

lemma length_le_weights: "int (length ss) \<le> sum_list (map effective_weight ss)"
proof (induction ss)
  case (Cons s ss)
  have "1 \<le> effective_weight s" using effective_weight_pos [of s] by linarith
  with Cons show ?case by simp
qed simp

lemma healthy_length: "weights_fit b \<Longrightarrow> length (getHealthyServers b) < 2 ^ 63"
  using weights_fit_healthy [of b] length_le_weights [of "getHealthyServers b"] by simp

interpretation rr: load_balancer "\<lambda>_. RoundRobin_PickServer" rr_base "\<lambda>r b. r\<lparr>rr_base := b\<rparr>"
proof unfold_locales
  fix k and b :: round_robin
  assume ne: "getHealthyServers (rr_base b) \<noteq> []" and fit: "weights_fit (rr_base b)"
  have n: "length (getHealthyServers (rr_base b)) < 2 ^ 64" using healthy_length [OF fit] by simp
  have "unat (rr_current b mod of_nat (length (getHealthyServers (rr_base b))))
      < length (getHealthyServers (rr_base b))"
    using ne by (subst word_index_less [OF _ n]) auto
  then show "\<exists>s\<in>set (getHealthyServers (rr_base b)). snd (RoundRobin_PickServer b) = Inr s"
    using ne by (simp add: RoundRobin_PickServer_def Let_def)
qed (simp_all add: RoundRobin_PickServer_def Let_def)

interpretation random: load_balancer Random_PickServer rnd_base "\<lambda>r b. r\<lparr>rnd_base := b\<rparr>"
  by unfold_locales (simp_all add: Random_PickServer_def rand_Intn_def Let_def)

interpretation wt: load_balancer "\<lambda>_. Weighted_PickServer" wt_base "\<lambda>w b. w\<lparr>wt_base := b\<rparr>"
proof unfold_locales
  fix k and b :: weighted_balancer
  let ?ss = "getHealthyServers (wt_base b)"
  assume ne: "?ss \<noteq> []" and fit: "weights_fit (wt_base b)"
  have "total_weight ?ss \<noteq> 0" using total_weight_pos [OF ne weights_fit_healthy [OF fit]] by simp
  then show "\<exists>s\<in>set ?ss. snd (Weighted_PickServer b) = Inr s"
    using ne weighted_walk_in by (auto simp: Weighted_PickServer_def Let_def split: option.splits)
qed (simp_all add: Weighted_PickServer_def Let_def)

interpretation least: load_balancer "\<lambda>_. LeastConnections_PickServer" lc_base "\<lambda>l b. l\<lparr>lc_base := b\<rparr>"
  using least_pick_in by unfold_locales (simp_all add: LeastConnections_PickServer_def Let_def)

interpretation lb: load_balancer PickServer balancer_base with_base
proof unfold_locales
  fix k b c
  show "balancer_base (fst (PickServer k b)) = balancer_base b"
    by (cases b) (simp_all add: rr.base_pick random.base_pick wt.base_pick least.base_pick)
  show "balancer_base (with_base b c) = c"
    by (cases b) simp_all
  show "getHealthyServers (balancer_base b) = [] \<Longrightarrow> snd (PickServer k b) = Inl NoHealthyServers"
    by (cases b) (simp_all add: rr.pick_none random.pick_none wt.pick_none least.pick_none)
  show "getHealthyServers (balancer_base b) \<noteq> [] \<Longrightarrow> weights_fit (balancer_base b) \<Longrightarrow>
      \<exists>s\<in>set (getHealthyServers (balancer_base b)). snd (PickServer k b) = Inr s"
    by (cases b) (simp_all add: rr.pick_some random.pick_some wt.pick_some least.pick_some)
qed

section \<open>Fairness over whole periods\<close>

text \<open>A counter that runs through whole periods hits every residue equally often.\<close>

lemma shifted_residues:
  assumes "0 < n"
  shows "mset (map (\<lambda>i. (c + i) mod n) [0..<n]) = mset [0..<n]"
proof -
  have eq: "i = j" if "i \<le> j" "j < n" "(c + i) mod n = (c + j) mod n" for i j
  proof -
    have "n dvd (c + j) - (c + i)" using that by (subst mod_eq_dvd_iff_nat [symmetric]) auto
    then have "n dvd j - i" by simp
    then show "i = j" using that by (auto dest: dvd_imp_le)
  qed
  have inj: "inj_on (\<lambda>i. (c + i) mod n) {0..<n}"
    using eq by (intro linorder_inj_onI) (auto, metis nat_less_le)
  moreover have "(\<lambda>i. (c + i) mod n) ` {0..<n} = {0..<n}"
    using inj assms by (intro card_subset_eq) (auto simp: card_image)
  ultimately have "set (map (\<lambda>i. (c + i) mod n) [0..<n]) = set [0..<n]"
    and "distinct (map (\<lambda>i. (c + i) mod n) [0..<n])"
    by (simp_all add: distinct_map)
  then show ?thesis by (metis distinct_upt set_eq_iff_mset_eq_distinct)
qed

lemma periods_mset:
  assumes "0 < n"
  shows "mset (map (\<lambda>i. g ((c + i) mod n)) [0..<k * n]) = repeat_mset k (mset (map g [0..<n]))"
proof (induction k)
  case (Suc k)
  have "mset (map (\<lambda>i. g ((c + i) mod n)) [k * n..<k * n + n])
      = mset (map (\<lambda>i. g ((c + i) mod n)) [0..<n])"
  proof -
    have "map (\<lambda>i. g ((c + i) mod n)) [k * n..<k * n + n] = map (\<lambda>i. g ((c + (i + k * n)) mod n)) [0..<n]"
      by (simp add: map_add_upt [symmetric] add.commute)
    also have "\<dots> = map (\<lambda>i. g ((c + i) mod n)) [0..<n]"
      by (rule map_cong) (simp, metis add.assoc mod_mult_self1)
    finally show ?thesis by simp
  qed
  also have "\<dots> = image_mset g (mset (map (\<lambda>i. (c + i) mod n) [0..<n]))"
    by (simp add: multiset.map_comp comp_def)
  also have "\<dots> = mset (map g [0..<n])"
    unfolding shifted_residues [OF assms] by simp
  finally have last: "mset (map (\<lambda>i. g ((c + i) mod n)) [k * n..<k * n + n]) = mset (map g [0..<n])" .
  have "[0..<Suc k * n] = [0..<k * n] @ [k * n..<k * n + n]"
    using upt_add_eq_append [of 0 "k * n" n] by (simp add: add.commute)
  then have up: "[0..<Suc k * n] = [0..<k * n] @ [k * n..<k * n + n]" .
  show ?case
    unfolding up map_append mset_append last Suc.IH repeat_mset_Suc by (rule add.commute)
qed simp

text \<open>Consecutive picks, with nothing else called in between.\<close>

fun picks :: "('b \<Rightarrow> 'b \<times> 'r) \<Rightarrow> nat \<Rightarrow> 'b \<Rightarrow> 'r list" where
  "picks pick 0 b = []"
| "picks pick (Suc m) b = (let (b', r) = pick b in r # picks pick m b')"

lemma rr_picks:
  assumes "getHealthyServers (rr_base r) = ss" and "ss \<noteq> []" and "length ss < 2 ^ 63"
    and "unat (rr_current r) + m \<le> 2 ^ 64"
  shows "picks RoundRobin_PickServer m r = map (\<lambda>i. Inr (ss ! ((unat (rr_current r) + i) mod length ss))) [0..<m]"
  using assms
proof (induction m arbitrary: r)
  case (Suc m)
  have idx: "unat (rr_current r mod of_nat (length ss)) = unat (rr_current r) mod length ss"
    using Suc.prems by (intro word_index_less) auto
  have pick: "RoundRobin_PickServer r
      = (r\<lparr>rr_current := rr_current r + 1\<rparr>, Inr (ss ! (unat (rr_current r) mod length ss)))"
    using Suc.prems(1,2) by (simp add: RoundRobin_PickServer_def Let_def idx)
  show ?case
  proof (cases m)
    case 0
    then show ?thesis by (simp add: pick)
  next
    case (Suc m')
    then have "unat (rr_current r + 1) = Suc (unat (rr_current r))"
      using Suc.prems(4) by (simp add: unat_word_ariths)
    then have "picks RoundRobin_PickServer m (r\<lparr>rr_current := rr_current r + 1\<rparr>)
        = map (\<lambda>i. Inr (ss ! ((Suc (unat (rr_current r)) + i) mod length ss))) [0..<m]"
      using Suc.IH [of "r\<lparr>rr_current := rr_current r + 1\<rparr>"] Suc.prems by simp
    then show ?thesis
      by (simp add: pick upt_conv_Cons map_Suc_upt [symmetric] del: upt_Suc)
  qed
qed simp

text \<open>The walk gives every server as many of the picks below the total as its weight.\<close>

lemma walk_all:
  "sum_list (map effective_weight ss) < 2 ^ 63 \<Longrightarrow>
    map (\<lambda>p. weighted_walk (int p) ss) [0..<nat (sum_list (map effective_weight ss))]
      = concat (map (\<lambda>s. replicate (nat (effective_weight s)) (Some s)) ss)"
proof (induction ss)
  case (Cons s ss)
  let ?w = "effective_weight s" and ?t = "sum_list (map effective_weight ss)"
  have t: "0 \<le> ?t" "0 < ?w" "?w + ?t < 2 ^ 63" using Cons.prems by simp_all
  have split: "[0..<nat (?w + ?t)] = [0..<nat ?w] @ map (\<lambda>q. q + nat ?w) [0..<nat ?t]"
    using t upt_add_eq_append [of 0 "nat ?w" "nat ?t"]
    by (simp add: nat_add_distrib map_add_upt less_imp_le add.commute)
  have first: "weighted_walk (int p) (s # ss) = Some s" if "p < nat ?w" for p
  proof -
    have "int p < ?w" "?w < 2 ^ 63" using that t by linarith+
    then show ?thesis by (simp add: Let_def w64_id in64_def)
  qed
  have rest: "weighted_walk (int (q + nat ?w)) (s # ss) = weighted_walk (int q) ss" if "q < nat ?t" for q
  proof -
    have "int q < 2 ^ 63" using that t by linarith
    then show ?thesis using t(2) by (simp add: Let_def w64_id in64_def nat_add_distrib)
  qed
  have A: "map (\<lambda>p. weighted_walk (int p) (s # ss)) [0..<nat ?w] = replicate (nat ?w) (Some s)"
    using first by (intro nth_equalityI) simp_all
  have B: "map (\<lambda>p. weighted_walk (int p) (s # ss)) (map (\<lambda>q. q + nat ?w) [0..<nat ?t])
      = map (\<lambda>q. weighted_walk (int q) ss) [0..<nat ?t]"
    unfolding map_map comp_def using rest by (intro map_cong) (simp_all del: weighted_walk.simps)
  have "?t < 2 ^ 63" using t by linarith
  from Cons.IH [OF this] show ?case
    unfolding list.map sum_list.Cons split map_append A B by simp
qed simp

definition weighted_choice :: "server_info list \<Rightarrow> nat \<Rightarrow> server_info" where
  "weighted_choice ss p = (case weighted_walk (int p) ss of Some s \<Rightarrow> s | None \<Rightarrow> ss ! 0)"

lemma choice_all:
  assumes "sum_list (map effective_weight ss) < 2 ^ 63"
  shows "map (weighted_choice ss) [0..<nat (sum_list (map effective_weight ss))]
    = concat (map (\<lambda>s. replicate (nat (effective_weight s)) s) ss)"
proof -
  let ?f = "\<lambda>x. case x of Some s \<Rightarrow> s | None \<Rightarrow> ss ! 0"
  have "map (weighted_choice ss) [0..<nat (sum_list (map effective_weight ss))]
      = map ?f (map (\<lambda>p. weighted_walk (int p) ss) [0..<nat (sum_list (map effective_weight ss))])"
    by (simp add: weighted_choice_def [abs_def] comp_def)
  also have "\<dots> = concat (map (\<lambda>s. replicate (nat (effective_weight s)) s) ss)"
    unfolding walk_all [OF assms] by (simp add: map_concat comp_def)
  finally show ?thesis .
qed

lemma sint_small: "unat (w :: uint64) < 2 ^ 63 \<Longrightarrow> sint w = int (unat w)"
proof -
  assume "unat w < 2 ^ 63"
  then have "int (unat w) < int (2 ^ 63)" by (simp only: of_nat_less_iff)
  then have "uint w < 2 ^ 63" by simp
  moreover have "0 \<le> uint w" by simp
  ultimately have "signed_take_bit 63 (uint w) = uint w"
    by (intro signed_take_bit_int_eq_self) linarith+
  then show ?thesis by (simp add: sint_uint)
qed

lemma weighted_pick_choice:
  assumes "getHealthyServers (wt_base w) = ss" and "ss \<noteq> []" and "sum_list (map effective_weight ss) < 2 ^ 63"
  shows "Weighted_PickServer w = (w\<lparr>wt_current := wt_current w + 1\<rparr>,
    Inr (weighted_choice ss (unat (wt_current w) mod nat (sum_list (map effective_weight ss)))))"
proof -
  let ?t = "sum_list (map effective_weight ss)"
  have pos: "0 < ?t" using total_weight_pos [OF assms(2,3)] by (simp add: total_weight_sum [OF assms(3)])
  have t: "(word_of_int ?t :: uint64) = of_nat (nat ?t)" using pos by simp
  have "unat (wt_current w mod word_of_int ?t) = unat (wt_current w) mod nat ?t"
    unfolding t using pos assms(3) by (intro word_index_less) auto
  moreover have "unat (wt_current w) mod nat ?t < nat ?t" using pos by (intro mod_less_divisor) simp
  moreover have "nat ?t < 2 ^ 63" using assms(3) pos by (simp add: nat_less_iff)
  ultimately have "sint (wt_current w mod word_of_int ?t) = int (unat (wt_current w) mod nat ?t)"
    by (subst sint_small) simp_all
  then show ?thesis
    using assms pos by (simp add: Weighted_PickServer_def Let_def total_weight_sum weighted_choice_def)
qed

lemma wt_picks:
  assumes "getHealthyServers (wt_base w) = ss" and "ss \<noteq> []" and "sum_list (map effective_weight ss) < 2 ^ 63"
    and "unat (wt_current w) + m \<le> 2 ^ 64"
  shows "picks Weighted_PickServer m w = map (\<lambda>i. Inr (weighted_choice ss
    ((unat (wt_current w) + i) mod nat (sum_list (map effective_weight ss))))) [0..<m]"
  using assms
proof (induction m arbitrary: w)
  case (Suc m)
  note pick = weighted_pick_choice [OF Suc.prems(1-3)]
  show ?case
  proof (cases m)
    case 0
    then show ?thesis by (simp add: pick)
  next
    case (Suc m')
    then have "unat (wt_current w + 1) = Suc (unat (wt_current w))"
      using Suc.prems(4) by (simp add: unat_word_ariths)
    then have "picks Weighted_PickServer m (w\<lparr>wt_current := wt_current w + 1\<rparr>)
        = map (\<lambda>i. Inr (weighted_choice ss ((Suc (unat (wt_current w)) + i)
            mod nat (sum_list (map effective_weight ss))))) [0..<m]"
      using Suc.IH [of "w\<lparr>wt_current := wt_current w + 1\<rparr>"] Suc.prems by simp
    then show ?thesis
      by (simp add: pick upt_conv_Cons map_Suc_upt [symmetric] del: upt_Suc)
  qed
qed simp

section \<open>Properties\<close>

definition demo_server :: "string \<Rightarrow> int \<Rightarrow> server_info" where
  "demo_server i w = \<lparr>si_ID = i, si_Address = ''localhost'', si_Port = 8080, Weight = w, Healthy = True\<rparr>"

definition demo_ops :: "lb_op list" where
  "demo_ops = [OpRegister (demo_server ''a'' 1), OpRegister (demo_server ''b'' 2),
     OpRegister (demo_server ''c'' 0), OpUnhealthy ''b'', OpPick 5]"

lemmas demo_lb_defs = demo_ops_def demo_server_def lb_apply_def RegisterServer_def MarkUnhealthy_def
  NewRoundRobin_def NewWeighted_def NewLeastConnections_def RoundRobin_PickServer_def
  Weighted_PickServer_def LeastConnections_PickServer_def getHealthyServers_def weights_fit_def effective_weight_def

lemma new_base: "New algorithm = Inr b \<Longrightarrow> servers (balancer_base b) = []"
  by (auto simp: New_def NewRoundRobin_def NewRandom_def NewWeighted_def NewLeastConnections_def split: if_splits)

lemma new_distinct: "New algorithm = Inr b \<Longrightarrow> distinct_ids (balancer_base b)"
  by (simp add: distinct_ids_def new_base)

text \<open>
  C18. For every algorithm and after any calls, a pick returns a registered healthy server,
  or fails because none is healthy; registered servers have distinct identifiers.
\<close>

theorem balancer_pick_sound:
  assumes "New algorithm = Inr b" and "b' = fold (lb_apply PickServer balancer_base with_base) ops b"
    and "weights_fit (balancer_base b')"
  shows "distinct (map si_ID (servers (balancer_base b'))) \<and>
    (case snd (PickServer k b') of
       Inr s \<Rightarrow> s \<in> set (servers (balancer_base b')) \<and> Healthy s
     | Inl e \<Rightarrow> e = NoHealthyServers \<and> (\<forall>s\<in>set (servers (balancer_base b')). \<not> Healthy s))"
  using lb.distinct_run [OF new_distinct [OF assms(1)], of ops] lb.pick_sound [OF assms(3)]
  by (simp add: distinct_ids_def assms(2))

theorem balancer_pick_sound_witness:
  "\<exists>b' s. b' = fold (lb_apply PickServer balancer_base with_base) demo_ops (LeastConnections NewLeastConnections)
    \<and> distinct (map si_ID (servers (balancer_base b')))
    \<and> snd (PickServer 0 b') = Inr s \<and> s \<in> set (servers (balancer_base b')) \<and> Healthy s"
proof -
  let ?b = "fold (lb_apply PickServer balancer_base with_base) demo_ops (LeastConnections NewLeastConnections)"
  have "New ''least_conn'' = Inr (LeastConnections NewLeastConnections)" by (simp add: New_def)
  from balancer_pick_sound [OF this refl, of demo_ops 0]
  have "distinct (map si_ID (servers (balancer_base ?b))) \<and>
    (case snd (PickServer 0 ?b) of
       Inr s \<Rightarrow> s \<in> set (servers (balancer_base ?b)) \<and> Healthy s
     | Inl e \<Rightarrow> e = NoHealthyServers \<and> (\<forall>s\<in>set (servers (balancer_base ?b)). \<not> Healthy s))"
    by (simp add: demo_lb_defs)
  moreover have "\<exists>s\<in>set (servers (balancer_base ?b)). Healthy s" by (simp add: demo_lb_defs)
  ultimately show ?thesis by (auto split: sum.splits)
qed

text \<open>
  A server marked unhealthy is not picked again, whatever else is called, until it is
  marked healthy or registered anew.
\<close>

lemma balancer_down_not_picked:
  assumes "New algorithm = Inr b"
    and "b' = fold (lb_apply PickServer balancer_base with_base) (ops @ OpUnhealthy i # later) b"
    and "\<forall>op\<in>set later. \<not> revives i op" and "weights_fit (balancer_base b')"
    and "snd (PickServer k b') = Inr s"
  shows "si_ID s \<noteq> i"
proof -
  let ?b = "fold (lb_apply PickServer balancer_base with_base) ops b"
  have "down i (balancer_base (lb_apply PickServer balancer_base with_base (OpUnhealthy i) ?b))"
    by (simp add: lb.base_apply down_MarkUnhealthy [OF lb.distinct_run [OF new_distinct [OF assms(1)]]])
  then have "down i (balancer_base b')"
    unfolding assms(2) fold_append using assms(3) by (simp add: lb.down_run)
  then show ?thesis using lb.down_not_picked [OF assms(4) _ assms(5)] by blast
qed

lemma balancer_down_not_picked_witness:
  "si_ID (projr (snd (PickServer 0 (fold (lb_apply PickServer balancer_base with_base)
    ([OpRegister (demo_server ''a'' 1), OpRegister (demo_server ''b'' 2)] @ OpUnhealthy ''a'' # [OpPick 0])
    (RoundRobin NewRoundRobin))))) \<noteq> ''a''"
proof -
  have "New ''round_robin'' = Inr (RoundRobin NewRoundRobin)" by (simp add: New_def)
  then show ?thesis
    by (rule balancer_down_not_picked [OF _ refl, where later = "[OpPick 0]" and k = 0
          and ops = "[OpRegister (demo_server ''a'' 1), OpRegister (demo_server ''b'' 2)]"]) (simp_all add: demo_lb_defs)
qed

text \<open>
  C19. Round robin is fair: while the healthy servers stay the same and the counter does not
  wrap, over \<open>k\<close> rounds every healthy server is picked exactly \<open>k\<close> times.
\<close>

theorem round_robin_fair:
  assumes "getHealthyServers (rr_base r) = ss" and "ss \<noteq> []" and "length ss < 2 ^ 63"
    and "unat (rr_current r) + k * length ss \<le> 2 ^ 64"
  shows "mset (picks RoundRobin_PickServer (k * length ss) r) = repeat_mset k (mset (map Inr ss))"
proof -
  have "0 < length ss" using assms(2) by simp
  from periods_mset [OF this, of "\<lambda>i. Inr (ss ! i)" "unat (rr_current r)" k]
  have "mset (picks RoundRobin_PickServer (k * length ss) r)
      = repeat_mset k (mset (map (\<lambda>i. Inr (ss ! i)) [0..<length ss]))"
    unfolding rr_picks [OF assms] .
  moreover have "map (\<lambda>i. Inr (ss ! i)) [0..<length ss] = (map Inr ss :: (error + server_info) list)"
    by (rule nth_equalityI) simp_all
  ultimately show ?thesis by (simp only:)
qed

theorem round_robin_fair_witness:
  "mset (picks RoundRobin_PickServer (2 * 2) (NewRoundRobin
      \<lparr>rr_base := \<lparr>servers = [demo_server ''a'' 1, demo_server ''b'' 1]\<rparr>, rr_current := 7\<rparr>))
    = repeat_mset 2 (mset [Inr (demo_server ''a'' 1), Inr (demo_server ''b'' 1)])"
  using round_robin_fair [of "NewRoundRobin\<lparr>rr_base := \<lparr>servers = [demo_server ''a'' 1, demo_server ''b'' 1]\<rparr>,
      rr_current := 7\<rparr>" "[demo_server ''a'' 1, demo_server ''b'' 1]" 2]
  by (simp add: getHealthyServers_def demo_server_def)

text \<open>
  C20. Weighted selection is exact: over \<open>k\<close> periods of the total weight every healthy server is
  picked exactly \<open>k\<close> times its weight, a weight that is not positive counting as one.
\<close>

theorem weighted_exact:
  assumes "getHealthyServers (wt_base w) = ss" and "ss \<noteq> []"
    and "t = nat (sum_list (map effective_weight ss))" and "sum_list (map effective_weight ss) < 2 ^ 63"
    and "unat (wt_current w) + k * t \<le> 2 ^ 64"
  shows "mset (picks Weighted_PickServer (k * t) w)
    = repeat_mset k (mset (map Inr (concat (map (\<lambda>s. replicate (nat (effective_weight s)) s) ss))))"
proof -
  have "0 < t" using total_weight_pos [OF assms(2,4)] assms(3) by (simp add: total_weight_sum [OF assms(4)])
  from periods_mset [OF this, of "\<lambda>p. Inr (weighted_choice ss p)" "unat (wt_current w)" k]
  have "mset (picks Weighted_PickServer (k * t) w)
      = repeat_mset k (mset (map (\<lambda>p. Inr (weighted_choice ss p)) [0..<t]))"
    unfolding wt_picks [OF assms(1,2,4,5)] assms(3) [symmetric] .
  moreover have "map (\<lambda>p. Inr (weighted_choice ss p)) [0..<t]
      = (map Inr (map (weighted_choice ss) [0..<t]) :: (error + server_info) list)"
    by simp
  ultimately show ?thesis unfolding choice_all [OF assms(4), folded assms(3)] by (simp only:)
qed

theorem weighted_exact_witness:
  "mset (picks Weighted_PickServer (2 * 3) (NewWeighted
      \<lparr>wt_base := \<lparr>servers = [demo_server ''a'' 2, demo_server ''b'' 0]\<rparr>\<rparr>))
    = repeat_mset 2 (mset [Inr (demo_server ''a'' 2), Inr (demo_server ''a'' 2), Inr (demo_server ''b'' 0)])"
  using weighted_exact [of "NewWeighted\<lparr>wt_base := \<lparr>servers = [demo_server ''a'' 2, demo_server ''b'' 0]\<rparr>\<rparr>"
      "[demo_server ''a'' 2, demo_server ''b'' 0]" 3 2]
  by (simp add: getHealthyServers_def demo_server_def effective_weight_def NewWeighted_def)

text \<open>
  C21. Least connections picks a healthy server with the fewest counted connections, provided
  no count is negative.
\<close>

theorem least_connections_min:
  assumes "snd (LeastConnections_PickServer l) = Inr s"
    and "\<forall>x\<in>set (getHealthyServers (lc_base l)). 0 \<le> connection_count l x"
  shows "s \<in> set (getHealthyServers (lc_base l)) \<and>
    (\<forall>x\<in>set (getHealthyServers (lc_base l)). connection_count l s \<le> connection_count l x)"
proof (cases "getHealthyServers (lc_base l)")
  case Nil
  then show ?thesis using assms(1) by (simp add: LeastConnections_PickServer_def Let_def)
next
  case (Cons x xs)
  obtain t where t: "least_loop (connection_count l) (Some x) (connection_count l x) xs = Some t"
    using least_loop_some by blast
  then have "s = t" using assms(1) Cons by (simp add: LeastConnections_PickServer_def Let_def)
  with least_loop_min [OF _ t] least_loop_in [OF t] assms(2) Cons show ?thesis by auto
qed

definition demo_least :: least_connections where
  "demo_least = IncrementConnections
     (NewLeastConnections\<lparr>lc_base := \<lparr>servers = [demo_server ''a'' 1, demo_server ''b'' 1]\<rparr>\<rparr>) ''a''"

theorem least_connections_min_witness:
  "connection_count demo_least (demo_server ''b'' 1) \<le> connection_count demo_least (demo_server ''a'' 1)"
  using least_connections_min [of demo_least "demo_server ''b'' 1"]
  by (simp add: demo_least_def LeastConnections_PickServer_def IncrementConnections_def NewLeastConnections_def
      Let_def getHealthyServers_def demo_server_def connection_count_def w64_id in64_def)

lemma interface_counts:
  "lb_apply PickServer balancer_base with_base op (LeastConnections l)
    = LeastConnections (l\<lparr>lc_base := base_op op (lc_base l)\<rparr>)"
  by (cases op) (simp_all add: lb_apply_def LeastConnections_PickServer_def Let_def)

lemma interface_run:
  "fold (lb_apply PickServer balancer_base with_base) ops (LeastConnections l)
    = LeastConnections (l\<lparr>lc_base := fold base_op ops (lc_base l)\<rparr>)"
  by (induction ops arbitrary: l) (simp_all add: interface_counts)

text \<open>
  Used through the interface \<^verbatim>\<open>types.LoadBalancer\<close>, which has no call that counts a
  connection, a least connections balancer never balances: after any calls it picks the
  first healthy server.
\<close>

lemma least_connections_first_only:
  "snd (PickServer k (fold (lb_apply PickServer balancer_base with_base) ops (LeastConnections NewLeastConnections)))
    = (case getHealthyServers (fold base_op ops \<lparr>servers = []\<rparr>) of
         [] \<Rightarrow> Inl NoHealthyServers
       | s # _ \<Rightarrow> Inr s)"
proof -
  have none: "lc_connections l = Map.empty \<Longrightarrow> connection_count l x = 0" for l x
    by (simp add: connection_count_def)
  show ?thesis
    unfolding interface_run
    by (auto simp: LeastConnections_PickServer_def none NewLeastConnections_def least_loop_first Let_def
        split: list.splits)
qed

end
