(* ===== verification/Server.thy ===== *)
theory Server
  imports FixedWindow
begin

text \<open>
  The HTTP server of \<^verbatim>\<open>pkg/server/server.go\<close>. Its connections are objects in a heap (a
  list; an address is an index) that the map \<^verbatim>\<open>s.connections\<close> points to, because a handler
  keeps its pointer while another goroutine deletes the entry. The rate limiter is a
  reference into the state \<open>'m\<close> of all limiters, since servers share them.

  \<open>HandleRequest\<close> is the whole handler as one caller runs it; \<open>srv_step\<close> interleaves the
  handlers, one atomic action at a time. What a handler sleeps and what it tells the metrics
  are outputs.
\<close>

section \<open>State\<close>

record server_connection =
  scn_id :: string
  scn_requestCount :: int64
  scn_maxRequests :: int64
  scn_createdAt :: gotime

record server_stats =
  srv_totalRequests :: int64
  srv_successfulRequests :: int64
  srv_rateLimitedRequests :: int64
  srv_activeConnections :: int64
  srv_totalConnections :: int64
  srv_closedConnections :: int64

record server =
  srv_id :: string
  srv_address :: string
  srv_port :: int
  maxRequestsPerConn :: int64
  rateLimiter :: "nat option"
  rateLimitKeys :: "string list"
  processingTime :: duration
  processingJitter :: duration
  rejectedDelay :: duration
  rejectedJitter :: duration
  rateLimitCheckDelay :: duration
  rateLimitCheckJitter :: duration
  conn_heap :: "server_connection list"
  connections :: "string \<rightharpoonup> nat"
  srv_stats :: server_stats
  has_metrics :: bool
  srv_running :: bool

record server_config =
  svc_ID :: string
  svc_Addr :: string
  svc_Port :: int
  svc_MaxRequestsPerConn :: int64
  svc_RateLimiter :: "nat option"
  svc_RateLimitKeys :: "string list"
  svc_ProcessingTimeMs :: int
  svc_ProcessingJitterMs :: int
  svc_RejectedDelayMs :: int
  svc_RejectedJitterMs :: int
  svc_RateLimitCheckDelayMs :: int
  svc_RateLimitCheckJitterMs :: int
  svc_Metrics :: bool

definition zero_stats :: server_stats where
  "zero_stats = \<lparr>srv_totalRequests = 0, srv_successfulRequests = 0, srv_rateLimitedRequests = 0,
     srv_activeConnections = 0, srv_totalConnections = 0, srv_closedConnections = 0\<rparr>"

definition NewServer :: "server_config \<Rightarrow> server" where
  "NewServer config =
     \<lparr>srv_id = svc_ID config,
      srv_address = (if svc_Addr config = [] then ''localhost'' else svc_Addr config),
      srv_port = svc_Port config,
      maxRequestsPerConn = (if svc_MaxRequestsPerConn config \<le> 0 then 150 else svc_MaxRequestsPerConn config),
      rateLimiter = svc_RateLimiter config,
      rateLimitKeys = svc_RateLimitKeys config,
      processingTime = w64 (svc_ProcessingTimeMs config * millisecond),
      processingJitter = w64 (svc_ProcessingJitterMs config * millisecond),
      rejectedDelay = w64 (svc_RejectedDelayMs config * millisecond),
      rejectedJitter = w64 (svc_RejectedJitterMs config * millisecond),
      rateLimitCheckDelay = w64 (svc_RateLimitCheckDelayMs config * millisecond),
      rateLimitCheckJitter = w64 (svc_RateLimitCheckJitterMs config * millisecond),
      conn_heap = [], connections = Map.empty, srv_stats = zero_stats,
      has_metrics = svc_Metrics config, srv_running = False\<rparr>"

definition SetRateLimiter :: "server \<Rightarrow> nat option \<Rightarrow> server" where
  "SetRateLimiter s limiter = s\<lparr>rateLimiter := limiter\<rparr>"

definition Start :: "server \<Rightarrow> error + server" where
  "Start s = (if srv_running s then Inl AlreadyRunning else Inr (s\<lparr>srv_running := True\<rparr>))"

text \<open>
  \<^verbatim>\<open>Stop\<close> clears the flag and waits for the handlers; \<open>pending\<close> says whether some are still
  running when the context is done, in which case its error is returned.
\<close>

definition Stop :: "server \<Rightarrow> bool \<Rightarrow> server \<times> error option" where
  "Stop s pending = (s\<lparr>srv_running := False\<rparr>, if pending then Some ContextDone else None)"

section \<open>The parts of the handler\<close>

definition add_total :: "server \<Rightarrow> server" where
  "add_total s = s\<lparr>srv_stats := (srv_stats s)\<lparr>srv_totalRequests := w64 (srv_totalRequests (srv_stats s) + 1)\<rparr>\<rparr>"

definition add_limited :: "server \<Rightarrow> server" where
  "add_limited s = s\<lparr>srv_stats := (srv_stats s)\<lparr>srv_rateLimitedRequests := w64 (srv_rateLimitedRequests (srv_stats s) + 1)\<rparr>\<rparr>"

definition add_success :: "server \<Rightarrow> server" where
  "add_success s = s\<lparr>srv_stats := (srv_stats s)\<lparr>srv_successfulRequests := w64 (srv_successfulRequests (srv_stats s) + 1)\<rparr>\<rparr>"

text \<open>The second lookup finds what the first found or what was created between the two.\<close>

definition getOrCreateConnection :: "server \<Rightarrow> gotime \<Rightarrow> string \<Rightarrow> server \<times> nat" where
  "getOrCreateConnection s now connID =
     (case connections s connID of
        Some conn \<Rightarrow> (s, conn)
      | None \<Rightarrow>
          let conn = \<lparr>scn_id = connID, scn_requestCount = 0, scn_maxRequests = maxRequestsPerConn s,
                      scn_createdAt = now\<rparr>;
              a = length (conn_heap s)
          in (s\<lparr>conn_heap := conn_heap s @ [conn], connections := (connections s)(connID \<mapsto> a),
                srv_stats := (srv_stats s)
                  \<lparr>srv_totalConnections := w64 (srv_totalConnections (srv_stats s) + 1),
                   srv_activeConnections := w64 (srv_activeConnections (srv_stats s) + 1)\<rparr>\<rparr>, a))"

definition CloseConnection :: "server \<Rightarrow> string \<Rightarrow> server" where
  "CloseConnection s connID =
     (case connections s connID of
        None \<Rightarrow> s
      | Some _ \<Rightarrow> s\<lparr>connections := (connections s)(connID := None),
                    srv_stats := (srv_stats s)
                      \<lparr>srv_activeConnections := w64 (srv_activeConnections (srv_stats s) - 1),
                       srv_closedConnections := w64 (srv_closedConnections (srv_stats s) + 1)\<rparr>\<rparr>)"

text \<open>\<^verbatim>\<open>atomic.AddInt64(&conn.requestCount, 1)\<close> and the comparison.\<close>

definition count_on_connection :: "server \<Rightarrow> nat \<Rightarrow> server \<times> bool" where
  "count_on_connection s a =
     (let conn = conn_heap s ! a;
          requestCount = w64 (scn_requestCount conn + 1)
      in (s\<lparr>conn_heap := (conn_heap s)[a := conn\<lparr>scn_requestCount := requestCount\<rparr>]\<rparr>,
          scn_maxRequests conn \<le> requestCount))"

fun first_header :: "string list \<Rightarrow> (string \<rightharpoonup> string) \<Rightarrow> string" where
  "first_header [] headers = []"
| "first_header (key # keys) headers =
     (case headers key of
        Some v \<Rightarrow> if v \<noteq> [] then key @ '':'' @ v else first_header keys headers
      | None \<Rightarrow> first_header keys headers)"

definition buildRateLimitKey :: "server \<Rightarrow> (string \<rightharpoonup> string) \<Rightarrow> string" where
  "buildRateLimitKey s headers = first_header (rateLimitKeys s) headers"

text \<open>The sleep before the check; \<open>now\<close> is the clock the jitter is taken from.\<close>

definition check_sleep :: "server \<Rightarrow> gotime \<Rightarrow> duration list" where
  "check_sleep s now =
     (if 0 < rateLimitCheckDelay s
      then [if 0 < rateLimitCheckJitter s
            then w64 (rateLimitCheckDelay s + remn (wall now mod second) (rateLimitCheckJitter s))
            else rateLimitCheckDelay s]
      else [])"

definition sleep_if_positive :: "duration \<Rightarrow> duration list" where
  "sleep_if_positive d = (if 0 < d then [d] else [])"

section \<open>The handler\<close>

type_synonym 'm allow = "'m \<Rightarrow> nat \<Rightarrow> gotime \<Rightarrow> string \<Rightarrow> 'm \<times> (error + rate_limit_result)"

record handler_clock =
  at_create :: gotime
  at_stamp :: gotime
  at_startCheck :: gotime
  at_jitter :: gotime
  at_allow :: gotime
  at_checked :: gotime

datatype verdict = Unlimited | LimiterFailed | Rejected rate_limit_result | Admitted rate_limit_result

definition limited_key :: "server \<Rightarrow> request \<Rightarrow> (nat \<times> string) option" where
  "limited_key s req =
     (let key = buildRateLimitKey s (req_Headers req)
      in if key = [] then None else map_option (\<lambda>ref. (ref, key)) (rateLimiter s))"

definition check_limit :: "'m allow \<Rightarrow> 'm \<Rightarrow> gotime \<Rightarrow> (nat \<times> string) option \<Rightarrow> 'm \<times> verdict" where
  "check_limit allow m now rk =
     (case rk of
        None \<Rightarrow> (m, Unlimited)
      | Some (ref, key) \<Rightarrow>
          (case allow m ref now key of
             (m, Inl err) \<Rightarrow> (m, LimiterFailed)
           | (m, Inr result) \<Rightarrow> (m, if Allowed result then Admitted result else Rejected result)))"

definition new_response :: "request \<Rightarrow> bool \<Rightarrow> gotime \<Rightarrow> response" where
  "new_response req shouldClose now =
     \<lparr>RequestID = req_ID req, StatusCode = 200, resp_Headers = Map.empty, RateLimited = False,
      ShouldClose = shouldClose, resp_Timestamp = now, ProcessingTime = 0\<rparr>"

definition remaining_header :: "rate_limit_result \<Rightarrow> response \<Rightarrow> response" where
  "remaining_header result resp =
     resp\<lparr>resp_Headers := (resp_Headers resp)(''X-RateLimit-Remaining'' \<mapsto> HInt (Remaining result))\<rparr>"

text \<open>From the verdict to the response: the new state, the sleeps and the response.\<close>

definition conclude :: "server \<Rightarrow> verdict \<Rightarrow> response \<Rightarrow> server \<times> duration list \<times> response" where
  "conclude s v resp =
     (case v of
        LimiterFailed \<Rightarrow> (s, [], resp\<lparr>StatusCode := 500\<rparr>)
      | Rejected result \<Rightarrow>
          (let resp = remaining_header result (resp\<lparr>StatusCode := 429, RateLimited := True\<rparr>)
           in (add_limited s, sleep_if_positive (rejectedDelay s),
               resp\<lparr>resp_Headers := (resp_Headers resp)(''Retry-After'' \<mapsto> HSeconds (RetryAfter result))\<rparr>))
      | _ \<Rightarrow>
          (let resp = (case v of Admitted result \<Rightarrow> remaining_header result resp | _ \<Rightarrow> resp)
           in (add_success s, sleep_if_positive (processingTime s),
               if ShouldClose resp
               then resp\<lparr>resp_Headers := (resp_Headers resp)(''Connection'' \<mapsto> HText ''close'')\<rparr>
               else resp)))"

record effects =
  slept :: "duration list"
  told :: "recorded list"

definition HandleRequest :: "'m allow \<Rightarrow> server \<Rightarrow> 'm \<Rightarrow> handler_clock \<Rightarrow> string \<Rightarrow> request
    \<Rightarrow> server \<times> 'm \<times> effects \<times> (error + response)" where
  "HandleRequest allow s m clk connID req =
     (if \<not> srv_running s then (s, m, \<lparr>slept = [], told = []\<rparr>, Inl ServerNotRunning)
      else
      let s = add_total s;
          (s, conn) = getOrCreateConnection s (at_create clk) connID;
          (s, shouldClose) = count_on_connection s conn;
          rk = limited_key s req;
          resp = new_response req shouldClose (at_stamp clk);
          checkSleep = (if rk = None then [] else check_sleep s (at_jitter clk));
          (m, v) = check_limit allow m (at_allow clk) rk;
          told = (if rk \<noteq> None \<and> has_metrics s
                  then [RecordRateLimitCheck (time_sub (at_checked clk) (at_startCheck clk))] else []);
          (s, sleeps, resp) = conclude s v resp
      in (s, m, \<lparr>slept = checkSleep @ sleeps, told = told\<rparr>, Inr resp))"

definition Stats :: "server \<Rightarrow> server_stats" where
  "Stats s = srv_stats s"

section \<open>Handlers side by side\<close>

text \<open>
  Where a handler is: past the check of \<^verbatim>\<open>s.running\<close>, counted in the total, holding its
  connection, its request counted on it, with the limiter's verdict, answered; or refused
  because the server is not running.
\<close>

datatype handler_pc =
    Checked string request
  | Counted string request
  | Connected nat request
  | Bumped bool request
  | Judged bool request verdict
  | Answered verdict response
  | Refused

record 'm srv_sys =
  srv :: server
  limiters :: 'm
  handlers :: "nat \<rightharpoonup> handler_pc"

inductive srv_step :: "'m allow \<Rightarrow> 'm srv_sys \<Rightarrow> 'm srv_sys \<Rightarrow> bool" for allow where
  accept: "handlers x t = None \<Longrightarrow> srv_running (srv x) \<Longrightarrow>
    srv_step allow x (x\<lparr>handlers := (handlers x)(t \<mapsto> Checked connID req)\<rparr>)"
| refuse: "handlers x t = None \<Longrightarrow> \<not> srv_running (srv x) \<Longrightarrow>
    srv_step allow x (x\<lparr>handlers := (handlers x)(t \<mapsto> Refused)\<rparr>)"
| total: "handlers x t = Some (Checked connID req) \<Longrightarrow>
    srv_step allow x (x\<lparr>srv := add_total (srv x), handlers := (handlers x)(t \<mapsto> Counted connID req)\<rparr>)"
| connect: "handlers x t = Some (Counted connID req) \<Longrightarrow>
    getOrCreateConnection (srv x) now connID = (s, a) \<Longrightarrow>
    srv_step allow x (x\<lparr>srv := s, handlers := (handlers x)(t \<mapsto> Connected a req)\<rparr>)"
| bump: "handlers x t = Some (Connected a req) \<Longrightarrow> count_on_connection (srv x) a = (s, c) \<Longrightarrow>
    srv_step allow x (x\<lparr>srv := s, handlers := (handlers x)(t \<mapsto> Bumped c req)\<rparr>)"
| judge: "handlers x t = Some (Bumped c req) \<Longrightarrow>
    check_limit allow (limiters x) now (limited_key (srv x) req) = (m, v) \<Longrightarrow>
    srv_step allow x (x\<lparr>limiters := m, handlers := (handlers x)(t \<mapsto> Judged c req v)\<rparr>)"
| answer: "handlers x t = Some (Judged c req v) \<Longrightarrow>
    conclude (srv x) v (new_response req c now) = (s, sleeps, resp) \<Longrightarrow>
    srv_step allow x (x\<lparr>srv := s, handlers := (handlers x)(t \<mapsto> Answered v resp)\<rparr>)"
| close_conn: "srv_step allow x (x\<lparr>srv := CloseConnection (srv x) connID\<rparr>)"
| start: "Start (srv x) = Inr s \<Longrightarrow> srv_step allow x (x\<lparr>srv := s\<rparr>)"
| stop: "srv_step allow x (x\<lparr>srv := fst (Stop (srv x) pending)\<rparr>)"
| set_limiter: "srv_step allow x (x\<lparr>srv := SetRateLimiter (srv x) ref\<rparr>)"

definition srv_reach :: "'m allow \<Rightarrow> server_config \<Rightarrow> 'm \<Rightarrow> 'm srv_sys \<Rightarrow> bool" where
  "srv_reach allow config m = (srv_step allow)\<^sup>*\<^sup>* \<lparr>srv = NewServer config, limiters = m, handlers = Map.empty\<rparr>"

fun is_counted :: "handler_pc \<Rightarrow> bool" where
  "is_counted (Checked _ _) = False" | "is_counted Refused = False" | "is_counted _ = True"

fun is_success :: "handler_pc \<Rightarrow> bool" where
  "is_success (Answered v _) = (case v of Unlimited \<Rightarrow> True | Admitted _ \<Rightarrow> True | _ \<Rightarrow> False)"
| "is_success _ = False"

fun is_limited :: "handler_pc \<Rightarrow> bool" where
  "is_limited (Answered (Rejected _) _) = True" | "is_limited _ = False"

fun is_failed :: "handler_pc \<Rightarrow> bool" where
  "is_failed (Answered LimiterFailed _) = True" | "is_failed _ = False"

fun pc_address :: "handler_pc \<Rightarrow> nat option" where
  "pc_address (Connected a _) = Some a" | "pc_address _ = None"

text \<open>Every counter is the number of the things it counts.\<close>

definition srv_inv :: "'m srv_sys \<Rightarrow> bool" where
  "srv_inv x \<longleftrightarrow> finite (dom (handlers x)) \<and> finite (dom (connections (srv x)))
     \<and> srv_totalRequests (srv_stats (srv x)) = w64 (count_threads is_counted (handlers x))
     \<and> srv_successfulRequests (srv_stats (srv x)) = w64 (count_threads is_success (handlers x))
     \<and> srv_rateLimitedRequests (srv_stats (srv x)) = w64 (count_threads is_limited (handlers x))
     \<and> srv_totalConnections (srv_stats (srv x)) = w64 (int (length (conn_heap (srv x))))
     \<and> srv_activeConnections (srv_stats (srv x)) = w64 (int (card (dom (connections (srv x)))))
     \<and> srv_closedConnections (srv_stats (srv x)) =
         w64 (int (length (conn_heap (srv x))) - int (card (dom (connections (srv x)))))
     \<and> (\<forall>a\<in>ran (connections (srv x)). a < length (conn_heap (srv x)))
     \<and> (\<forall>t p a. handlers x t = Some p \<longrightarrow> pc_address p = Some a \<longrightarrow> a < length (conn_heap (srv x)))"

lemma srv_inv_init: "srv_inv \<lparr>srv = NewServer config, limiters = m, handlers = Map.empty\<rparr>"
  by (simp add: srv_inv_def NewServer_def zero_stats_def w64_id in64_def)

text \<open>What each part of the handler leaves alone, and what it counts.\<close>

lemma add_frames [simp]:
  "connections (add_total s) = connections s" "conn_heap (add_total s) = conn_heap s"
  "connections (add_limited s) = connections s" "conn_heap (add_limited s) = conn_heap s"
  "connections (add_success s) = connections s" "conn_heap (add_success s) = conn_heap s"
  by (simp_all add: add_total_def add_limited_def add_success_def)

lemma conclude_state:
  "fst (conclude s v resp) = (case v of LimiterFailed \<Rightarrow> s | Rejected _ \<Rightarrow> add_limited s | _ \<Rightarrow> add_success s)"
  by (simp add: conclude_def Let_def split: verdict.splits)

lemma srv_step_inv: "srv_step allow x y \<Longrightarrow> srv_inv x \<Longrightarrow> srv_inv y"
proof (induction rule: srv_step.induct)
  case (accept x t connID req)
  then show ?case by (auto simp: srv_inv_def count_threads_upd)
next
  case (refuse x t)
  then show ?case by (auto simp: srv_inv_def count_threads_upd)
next
  case (total x t connID req)
  then show ?case by (auto simp: srv_inv_def count_threads_upd add_total_def)
next
  case (connect x t connID req now s a)
  show ?case
  proof (cases "connections (srv x) connID")
    case None
    then have s: "s = fst (getOrCreateConnection (srv x) now connID)" "a = length (conn_heap (srv x))"
      using connect.hyps(2) by (auto simp: getOrCreateConnection_def Let_def)
    have card: "card (insert connID (dom (connections (srv x)))) = Suc (card (dom (connections (srv x))))"
      using connect.prems None by (intro card_insert_disjoint) (auto simp: srv_inv_def)
    show ?thesis
      using connect.prems connect.hyps(1) None card
      unfolding srv_inv_def s
      by (auto simp: getOrCreateConnection_def Let_def count_threads_upd ran_def less_Suc_eq algebra_simps
          split: if_splits)
  next
    case (Some b)
    then have "s = srv x" "a = b" using connect.hyps(2) by (auto simp: getOrCreateConnection_def)
    moreover have "b < length (conn_heap (srv x))"
      using connect.prems Some by (auto simp: srv_inv_def ran_def)
    ultimately show ?thesis
      using connect by (auto simp: srv_inv_def count_threads_upd)
  qed
next
  case (bump x t a req s c)
  then show ?case by (auto simp: srv_inv_def count_threads_upd count_on_connection_def Let_def)
next
  case (judge x t c req now m v)
  then show ?case by (auto simp: srv_inv_def count_threads_upd)
next
  case (answer x t c req v now s sleeps resp)
  then have "s = (case v of LimiterFailed \<Rightarrow> srv x | Rejected _ \<Rightarrow> add_limited (srv x) | _ \<Rightarrow> add_success (srv x))"
    using conclude_state [of "srv x" v "new_response req c now"] by simp
  then show ?case using answer.hyps(1) answer.prems
    by (cases v) (auto simp: srv_inv_def count_threads_upd add_limited_def add_success_def)
next
  case (close_conn x connID)
  show ?case
  proof (cases "connections (srv x) connID")
    case None
    then have "CloseConnection (srv x) connID = srv x" by (simp add: CloseConnection_def)
    then show ?thesis using close_conn by simp
  next
    case (Some a)
    then have "connID \<in> dom (connections (srv x))" "finite (dom (connections (srv x)))"
      using close_conn by (auto simp: srv_inv_def)
    then have "card (dom (connections (srv x))) = Suc (card (dom (connections (srv x)) - {connID}))"
      by (metis card.remove)
    moreover have "ran ((connections (srv x))(connID := None)) \<subseteq> ran (connections (srv x))"
      by (auto simp: ran_def split: if_splits)
    ultimately show ?thesis
      using close_conn Some by (auto simp: srv_inv_def CloseConnection_def algebra_simps)
  qed
next
  case (start x s)
  then have "s = (srv x)\<lparr>srv_running := True\<rparr>" by (simp add: Start_def split: if_splits)
  then show ?case using start.prems by (simp add: srv_inv_def)
qed (simp_all add: srv_inv_def Stop_def SetRateLimiter_def)

lemma srv_reach_inv: "srv_reach allow config m x \<Longrightarrow> srv_inv x"
  unfolding srv_reach_def
  by (induction rule: rtranclp_induct) (auto intro: srv_inv_init srv_step_inv)

section \<open>The parts of the handler in closed form\<close>

definition names_value :: "(string \<rightharpoonup> string) \<Rightarrow> string \<Rightarrow> bool" where
  "names_value headers k \<longleftrightarrow> (\<exists>v. headers k = Some v \<and> v \<noteq> [])"

lemma first_header_find:
  "first_header keys headers = (case List.find (names_value headers) keys of
     None \<Rightarrow> [] | Some k \<Rightarrow> k @ '':'' @ the (headers k))"
  by (induction keys) (auto simp: names_value_def split: option.splits)

lemma limited_key_find:
  "limited_key s req = (case (rateLimiter s, List.find (names_value (req_Headers req)) (rateLimitKeys s)) of
     (Some ref, Some k) \<Rightarrow> Some (ref, k @ '':'' @ the (req_Headers req k)) | _ \<Rightarrow> None)"
  by (simp add: limited_key_def buildRateLimitKey_def first_header_find split: option.splits)

lemma limited_key_stats:
  "limited_key (fst (count_on_connection s a)) req = limited_key s req"
  "limited_key (fst (getOrCreateConnection s now connID)) req = limited_key s req"
  "limited_key (add_total s) req = limited_key s req"
  by (simp_all add: limited_key_def buildRateLimitKey_def count_on_connection_def getOrCreateConnection_def
      add_total_def Let_def split: option.splits)

text \<open>The total, the connection and the count on it, taken together.\<close>

lemma request_counted:
  assumes "getOrCreateConnection (add_total s) now connID = (s1, a)" and "count_on_connection s1 a = (s2, c)"
    and "conn = (case connections s connID of Some a \<Rightarrow> conn_heap s ! a
      | None \<Rightarrow> \<lparr>scn_id = connID, scn_requestCount = 0, scn_maxRequests = maxRequestsPerConn s, scn_createdAt = now\<rparr>)"
    and "count = w64 (scn_requestCount conn + 1)"
  shows "s2 = (case connections s connID of
      Some a \<Rightarrow> s\<lparr>conn_heap := (conn_heap s)[a := conn\<lparr>scn_requestCount := count\<rparr>],
          srv_stats := (srv_stats s)\<lparr>srv_totalRequests := w64 (srv_totalRequests (srv_stats s) + 1)\<rparr>\<rparr>
    | None \<Rightarrow> s\<lparr>conn_heap := conn_heap s @ [conn\<lparr>scn_requestCount := count\<rparr>],
          connections := (connections s)(connID \<mapsto> length (conn_heap s)),
          srv_stats := (srv_stats s)\<lparr>srv_totalRequests := w64 (srv_totalRequests (srv_stats s) + 1),
            srv_totalConnections := w64 (srv_totalConnections (srv_stats s) + 1),
            srv_activeConnections := w64 (srv_activeConnections (srv_stats s) + 1)\<rparr>\<rparr>)"
    and "c \<longleftrightarrow> scn_maxRequests conn \<le> count"
  using assms
  by (auto simp: getOrCreateConnection_def count_on_connection_def add_total_def Let_def split: option.splits)

section \<open>Properties\<close>

definition in_progress :: "handler_pc \<Rightarrow> bool" where
  "in_progress p \<longleftrightarrow> is_counted p \<and> (\<forall>v r. p \<noteq> Answered v r)"

lemma counted_parts:
  assumes "finite (dom m)"
  shows "count_threads is_counted m = count_threads is_success m + count_threads is_limited m
    + count_threads is_failed m + count_threads in_progress m"
proof -
  have cases: "is_counted p \<longleftrightarrow> ((is_success p \<or> is_limited p) \<or> is_failed p) \<or> in_progress p" for p
    by (cases p) (auto simp: in_progress_def split: verdict.splits)
  have disj: "is_success p \<Longrightarrow> is_limited p \<Longrightarrow> False"
    "is_success p \<or> is_limited p \<Longrightarrow> is_failed p \<Longrightarrow> False"
    "(is_success p \<or> is_limited p) \<or> is_failed p \<Longrightarrow> in_progress p \<Longrightarrow> False" for p
    by (cases p; auto simp: in_progress_def split: verdict.splits; case_tac x61; simp)+
  have "count_threads is_counted m
      = count_threads (\<lambda>p. ((is_success p \<or> is_limited p) \<or> is_failed p) \<or> in_progress p) m"
    by (simp add: count_threads_def threads_def cases)
  also have "\<dots> = count_threads is_success m + count_threads is_limited m
    + count_threads is_failed m + count_threads in_progress m"
    using count_threads_disj [OF assms, of "\<lambda>p. (is_success p \<or> is_limited p) \<or> is_failed p" in_progress, OF disj(3)]
      count_threads_disj [OF assms, of "\<lambda>p. is_success p \<or> is_limited p" is_failed, OF disj(2)]
      count_threads_disj [OF assms, of is_success is_limited, OF disj(1)] by simp
  finally show ?thesis .
qed

definition demo_server_config :: server_config where
  "demo_server_config =
     \<lparr>svc_ID = ''server-0'', svc_Addr = [], svc_Port = 8080, svc_MaxRequestsPerConn = 2, svc_RateLimiter = Some 0,
      svc_RateLimitKeys = [''X-User-ID''], svc_ProcessingTimeMs = 1, svc_ProcessingJitterMs = 0,
      svc_RejectedDelayMs = 0, svc_RejectedJitterMs = 0, svc_RateLimitCheckDelayMs = 0,
      svc_RateLimitCheckJitterMs = 0, svc_Metrics = True\<rparr>"

definition demo_request :: request where
  "demo_request = \<lparr>req_ID = ''req-1'', req_ClientID = ''client-0'', req_Headers = [''X-User-ID'' \<mapsto> ''u''],
     req_Timestamp = now_at 0 0\<rparr>"

text \<open>All servers share one fixed window limiter.\<close>

definition demo_allow :: "fixed_window allow" where
  "demo_allow f ref now key = FixedWindow_Allow f now key"

definition demo_window :: fixed_window where
  "demo_window = projr (NewFixedWindow demo_config)"

definition demo_running :: server where
  "demo_running = (NewServer demo_server_config)\<lparr>srv_running := True\<rparr>"

definition demo_srv :: "handler_pc option \<Rightarrow> server \<Rightarrow> fixed_window srv_sys" where
  "demo_srv p s = \<lparr>srv = s, limiters = demo_window, handlers = (\<lambda>t. if t = 0 then p else None)\<rparr>"

definition demo_connected :: "fixed_window srv_sys" where
  "demo_connected = demo_srv (Some (Connected 0 demo_request))
     (fst (getOrCreateConnection (add_total demo_running) (now_at 0 0) ''c''))"

lemma demo_srv_upd: "(demo_srv p s)\<lparr>handlers := (handlers (demo_srv p s))(0 \<mapsto> q)\<rparr> = demo_srv (Some q) s"
  "(demo_srv p s)\<lparr>srv := s', handlers := (handlers (demo_srv p s))(0 \<mapsto> q)\<rparr> = demo_srv (Some q) s'"
  by (auto simp: demo_srv_def fun_eq_iff)

lemma demo_connected_reach: "srv_reach demo_allow demo_server_config demo_window demo_connected"
proof -
  let ?s = "NewServer demo_server_config"
  have init: "\<lparr>srv = ?s, limiters = demo_window, handlers = Map.empty\<rparr> = demo_srv None ?s"
    by (auto simp: demo_srv_def)
  have "srv_step demo_allow (demo_srv None ?s) (demo_srv None demo_running)"
    using srv_step.start [of "demo_srv None ?s" demo_running]
    by (simp add: demo_srv_def Start_def demo_running_def NewServer_def)
  moreover have "srv_step demo_allow (demo_srv None demo_running) (demo_srv (Some (Checked ''c'' demo_request)) demo_running)"
    using srv_step.accept [of "demo_srv None demo_running" 0 demo_allow "''c''" demo_request]
    unfolding demo_srv_upd by (simp add: demo_srv_def demo_running_def)
  moreover have "srv_step demo_allow (demo_srv (Some (Checked ''c'' demo_request)) demo_running)
      (demo_srv (Some (Counted ''c'' demo_request)) (add_total demo_running))"
    using srv_step.total [of "demo_srv (Some (Checked ''c'' demo_request)) demo_running" 0 "''c''" demo_request demo_allow]
    unfolding demo_srv_upd by (simp add: demo_srv_def)
  moreover have "srv_step demo_allow (demo_srv (Some (Counted ''c'' demo_request)) (add_total demo_running)) demo_connected"
  proof -
    have g: "getOrCreateConnection (add_total demo_running) (now_at 0 0) ''c''
        = (fst (getOrCreateConnection (add_total demo_running) (now_at 0 0) ''c''), 0)"
      by (simp add: getOrCreateConnection_def demo_running_def NewServer_def add_total_def Let_def)
    show ?thesis
      using srv_step.connect [of "demo_srv (Some (Counted ''c'' demo_request)) (add_total demo_running)" 0 "''c''"
          demo_request "now_at 0 0" _ 0 demo_allow] g
      unfolding demo_srv_upd demo_connected_def by (simp add: demo_srv_def)
  qed
  ultimately show ?thesis
    unfolding srv_reach_def init by (meson rtranclp.rtrancl_into_rtrancl rtranclp.rtrancl_refl)
qed

text \<open>
  C22. Server accounting. However handlers, closings, stops and restarts interleave, the total
  is the successes, the rate limited requests, the limiter failures (which no counter shows)
  and the requests in progress; the active connections are the entries of the map, and every
  connection ever created is active or closed.
\<close>

theorem server_accounting:
  assumes "srv_reach allow config m x"
  defines "st \<equiv> Stats (srv x)"
  shows "srv_totalRequests st = w64 (srv_successfulRequests st + srv_rateLimitedRequests st
      + count_threads is_failed (handlers x) + count_threads in_progress (handlers x))
    \<and> srv_activeConnections st = w64 (int (card (dom (connections (srv x)))))
    \<and> srv_totalConnections st = w64 (srv_activeConnections st + srv_closedConnections st)"
proof -
  have inv: "srv_inv x" using srv_reach_inv [OF assms(1)] .
  then have "finite (dom (handlers x))" by (simp add: srv_inv_def)
  note counted_parts [OF this]
  with inv show ?thesis by (simp add: srv_inv_def st_def Stats_def add.assoc)
qed

theorem server_accounting_witness:
  "srv_totalRequests (Stats (srv demo_connected)) = 1
    \<and> 1 = w64 (srv_successfulRequests (Stats (srv demo_connected)) + srv_rateLimitedRequests (Stats (srv demo_connected))
      + count_threads is_failed (handlers demo_connected) + count_threads in_progress (handlers demo_connected))
    \<and> srv_activeConnections (Stats (srv demo_connected)) = w64 (int (card (dom (connections (srv demo_connected)))))
    \<and> srv_totalConnections (Stats (srv demo_connected))
      = w64 (srv_activeConnections (Stats (srv demo_connected)) + srv_closedConnections (Stats (srv demo_connected)))"
proof -
  have "srv_totalRequests (Stats (srv demo_connected)) = 1"
    by (simp add: demo_connected_def demo_srv_def Stats_def getOrCreateConnection_def add_total_def demo_running_def
        NewServer_def zero_stats_def w64_id in64_def Let_def)
  with server_accounting [OF demo_connected_reach] show ?thesis by simp
qed

definition demo_handler_clock :: handler_clock where
  "demo_handler_clock = \<lparr>at_create = now_at 0 0, at_stamp = now_at 1 1, at_startCheck = now_at 2 2,
     at_jitter = now_at 3 3, at_allow = now_at 4 4, at_checked = now_at 5 5\<rparr>"

lemma demo_handled: "\<exists>s' m' eff resp.
  HandleRequest demo_allow demo_running demo_window demo_handler_clock ''c'' demo_request = (s', m', eff, Inr resp)"
  by (simp add: HandleRequest_def demo_running_def Let_def split: prod.splits)

text \<open>
  C23. What a request gets, from the fields of the server and the headers alone. The request is
  counted in the total and on its connection, which is created when the map has none, and
  \<^verbatim>\<open>ShouldClose\<close> says that the connection has reached its own maximum. The limiter is asked
  exactly when there is one and a configured header has a value (the first such header is the
  key), after the sleep of the check, and only then the metrics are told. Its answer decides
  the rest on every branch: the status, \<^verbatim>\<open>RateLimited\<close>, all headers, the one counter that
  moves (none after a limiter error), and the sleep that follows: the rejected delay for a
  refusal, the processing time for a success, none after an error. Nothing else of the server
  changes.
\<close>

theorem handle_request_outcome:
  assumes "srv_running s" and "HandleRequest allow s m clk connID req = (s', m', eff, r)"
    and conn: "conn = (case connections s connID of
        Some a \<Rightarrow> conn_heap s ! a
      | None \<Rightarrow> \<lparr>scn_id = connID, scn_requestCount = 0, scn_maxRequests = maxRequestsPerConn s,
                 scn_createdAt = at_create clk\<rparr>)"
    and count: "count = w64 (scn_requestCount conn + 1)" and close: "close \<longleftrightarrow> scn_maxRequests conn \<le> count"
    and counted: "s2 = (case connections s connID of
        Some a \<Rightarrow> s\<lparr>conn_heap := (conn_heap s)[a := conn\<lparr>scn_requestCount := count\<rparr>],
            srv_stats := (srv_stats s)\<lparr>srv_totalRequests := w64 (srv_totalRequests (srv_stats s) + 1)\<rparr>\<rparr>
      | None \<Rightarrow> s\<lparr>conn_heap := conn_heap s @ [conn\<lparr>scn_requestCount := count\<rparr>],
            connections := (connections s)(connID \<mapsto> length (conn_heap s)),
            srv_stats := (srv_stats s)\<lparr>srv_totalRequests := w64 (srv_totalRequests (srv_stats s) + 1),
              srv_totalConnections := w64 (srv_totalConnections (srv_stats s) + 1),
              srv_activeConnections := w64 (srv_activeConnections (srv_stats s) + 1)\<rparr>\<rparr>)"
    and pause: "pause = (if 0 < rateLimitCheckDelay s
        then [if 0 < rateLimitCheckJitter s
              then w64 (rateLimitCheckDelay s + remn (wall (at_jitter clk) mod second) (rateLimitCheckJitter s))
              else rateLimitCheckDelay s]
        else [])"
    and served: "served = s2\<lparr>srv_stats := (srv_stats s2)\<lparr>srv_successfulRequests := w64 (srv_successfulRequests (srv_stats s) + 1)\<rparr>\<rparr>"
    and closing: "closing = (if close then [''Connection'' \<mapsto> HText ''close''] else Map.empty)"
  shows "\<exists>resp. r = Inr resp \<and> RequestID resp = req_ID req \<and> resp_Timestamp resp = at_stamp clk
    \<and> ProcessingTime resp = 0 \<and> ShouldClose resp = close \<and>
    (case (rateLimiter s, List.find (\<lambda>k. \<exists>v. req_Headers req k = Some v \<and> v \<noteq> []) (rateLimitKeys s)) of
       (Some ref, Some k) \<Rightarrow>
         told eff = (if has_metrics s then [RecordRateLimitCheck (time_sub (at_checked clk) (at_startCheck clk))] else [])
         \<and> (case allow m ref (at_allow clk) (k @ '':'' @ the (req_Headers req k)) of
              (m1, Inl err) \<Rightarrow> m' = m1 \<and> s' = s2 \<and> slept eff = pause
                \<and> StatusCode resp = 500 \<and> \<not> RateLimited resp \<and> resp_Headers resp = Map.empty
            | (m1, Inr result) \<Rightarrow> m' = m1 \<and>
                (if Allowed result
                 then s' = served \<and> slept eff = pause @ (if 0 < processingTime s then [processingTime s] else [])
                   \<and> StatusCode resp = 200 \<and> \<not> RateLimited resp
                   \<and> resp_Headers resp = [''X-RateLimit-Remaining'' \<mapsto> HInt (Remaining result)] ++ closing
                 else s' = s2\<lparr>srv_stats := (srv_stats s2)
                     \<lparr>srv_rateLimitedRequests := w64 (srv_rateLimitedRequests (srv_stats s) + 1)\<rparr>\<rparr>
                   \<and> slept eff = pause @ (if 0 < rejectedDelay s then [rejectedDelay s] else [])
                   \<and> StatusCode resp = 429 \<and> RateLimited resp
                   \<and> resp_Headers resp = [''X-RateLimit-Remaining'' \<mapsto> HInt (Remaining result),
                       ''Retry-After'' \<mapsto> HSeconds (RetryAfter result)]))
     | _ \<Rightarrow> m' = m \<and> told eff = [] \<and> s' = served
         \<and> slept eff = (if 0 < processingTime s then [processingTime s] else [])
         \<and> StatusCode resp = 200 \<and> \<not> RateLimited resp \<and> resp_Headers resp = closing)"
proof -
  obtain s1 a where g: "getOrCreateConnection (add_total s) (at_create clk) connID = (s1, a)" by fastforce
  obtain sc c where b: "count_on_connection s1 a = (sc, c)" by fastforce
  have sc: "sc = s2" "c = close"
    using request_counted [OF g b conn count] by (simp_all add: counted close)
  have keep: "rateLimitCheckDelay s2 = rateLimitCheckDelay s" "rateLimitCheckJitter s2 = rateLimitCheckJitter s"
    "processingTime s2 = processingTime s" "rejectedDelay s2 = rejectedDelay s" "has_metrics s2 = has_metrics s"
    "srv_successfulRequests (srv_stats s2) = srv_successfulRequests (srv_stats s)"
    "srv_rateLimitedRequests (srv_stats s2) = srv_rateLimitedRequests (srv_stats s)"
    by (simp_all add: counted split: option.splits)
  have key: "limited_key s2 req = (case (rateLimiter s, List.find (names_value (req_Headers req)) (rateLimitKeys s)) of
     (Some ref, Some k) \<Rightarrow> Some (ref, k @ '':'' @ the (req_Headers req k)) | _ \<Rightarrow> None)"
    using limited_key_stats(1) [of s1 a req] limited_key_stats(2) [of "add_total s" "at_create clk" connID req]
      limited_key_stats(3) [of s req] g b limited_key_find [of s req] sc by simp
  have named: "(\<lambda>k. \<exists>v. req_Headers req k = Some v \<and> v \<noteq> []) = names_value (req_Headers req)"
    by (simp add: names_value_def fun_eq_iff)
  obtain m1 v where k: "check_limit allow m (at_allow clk) (limited_key s2 req) = (m1, v)" by fastforce
  obtain s3 sl rs where f: "conclude s2 v (new_response req close (at_stamp clk)) = (s3, sl, rs)" by (metis prod_cases3)
  have r: "s' = s3" "m' = m1" "r = Inr rs"
    "slept eff = (if limited_key s2 req = None then [] else pause) @ sl"
    "told eff = (if limited_key s2 req \<noteq> None \<and> has_metrics s
      then [RecordRateLimitCheck (time_sub (at_checked clk) (at_startCheck clk))] else [])"
    using assms(1,2) g b sc k f by (auto simp: HandleRequest_def Let_def keep check_sleep_def pause)
  note out = conclude_def new_response_def remaining_header_def add_success_def add_limited_def
    sleep_if_positive_def Let_def keep
  consider "limited_key s2 req = None" | ref k where "rateLimiter s = Some ref"
      "List.find (names_value (req_Headers req)) (rateLimitKeys s) = Some k"
    by (cases "rateLimiter s"; cases "List.find (names_value (req_Headers req)) (rateLimitKeys s)") (auto simp: key)
  then show ?thesis
  proof cases
    case 1
    then have "v = Unlimited" "m1 = m" using k by (auto simp: check_limit_def)
    then show ?thesis
      using 1 f r unfolding key named by (auto simp: out served closing split: option.splits)
  next
    case (2 ref kk)
    obtain m2 oc where al: "allow m ref (at_allow clk) (kk @ '':'' @ the (req_Headers req kk)) = (m2, oc)" by fastforce
    have lk: "limited_key s2 req = Some (ref, kk @ '':'' @ the (req_Headers req kk))" by (simp add: key 2)
    have mv: "m1 = m2" "v = (case oc of Inl _ \<Rightarrow> LimiterFailed
        | Inr result \<Rightarrow> if Allowed result then Admitted result else Rejected result)"
      using k by (auto simp: check_limit_def lk al [simplified] split: sum.splits)
    note told = r(4,5) [unfolded lk]
    show ?thesis
    proof (cases oc)
      case (Inl err)
      then show ?thesis unfolding named using f [symmetric] r(1-3) told mv by (simp add: out 2 al [simplified])
    next
      case (Inr result)
      have v: "v = (if Allowed result then Admitted result else Rejected result)" using mv(2) Inr by simp
      show ?thesis
      proof (cases "Allowed result")
        case True
        then show ?thesis unfolding named using f [unfolded v, symmetric] r(1-3) told mv(1) Inr
          by (cases close) (simp_all add: out 2 al [simplified] served closing)
      next
        case False
        then show ?thesis unfolding named using f [unfolded v, symmetric] r(1-3) told mv(1) Inr
          by (simp add: out 2 al [simplified])
      qed
    qed
  qed
qed

lemma demo_running_sel:
  "srv_running demo_running" "srv_stats demo_running = zero_stats" "conn_heap demo_running = []"
  "connections demo_running = Map.empty" "maxRequestsPerConn demo_running = 2" "rateLimiter demo_running = Some 0"
  "rateLimitKeys demo_running = [''X-User-ID'']" "processingTime demo_running = millisecond"
  "rateLimitCheckDelay demo_running = 0"
  by (simp_all add: demo_running_def NewServer_def demo_server_config_def w64_id in64_def millisecond_def)

lemma demo_first_allowed:
  "\<exists>m result. demo_allow demo_window ref now key = (m, Inr result) \<and> Allowed result"
proof -
  have new: "NewFixedWindow demo_config = Inr demo_window" and rate: "fw_rate demo_window = 2"
    by (simp_all add: demo_window_def NewFixedWindow_def demo_config_def Let_def)
  have "shard_get (fw_base demo_window) key = None"
    by (rule fixed_window_ok_new(2) [OF new]) (simp_all add: demo_config_def in64_def)
  then have "Allowed (snd (fixed_window_step demo_window key (shard_get (fw_base demo_window) key) (now, 1)))"
    by (simp add: fixed_window_step_allowed fw_used_def rate w64_id in64_def)
  then show ?thesis
    by (simp add: demo_allow_def FixedWindow_Allow_def FixedWindow_AllowN_def case_prod_beta Let_def)
qed

theorem handle_request_outcome_witness:
  "\<exists>s' m' eff resp. HandleRequest demo_allow demo_running demo_window demo_handler_clock ''c'' demo_request
      = (s', m', eff, Inr resp) \<and> srv_totalRequests (srv_stats s') = 1 \<and> connections s' = [''c'' \<mapsto> 0]
      \<and> \<not> ShouldClose resp
      \<and> StatusCode resp = 200 \<and> slept eff = [millisecond]"
proof -
  obtain m result where a: "demo_allow demo_window 0 (now_at 4 4) ''X-User-ID:u'' = (m, Inr result)" "Allowed result"
    using demo_first_allowed by blast
  obtain s' m' eff resp where h: "HandleRequest demo_allow demo_running demo_window demo_handler_clock ''c'' demo_request
      = (s', m', eff, Inr resp)" using demo_handled by blast
  show ?thesis
    using handle_request_outcome [OF demo_running_sel(1) h refl refl refl refl refl refl refl] h
    by (auto simp: w64_id in64_def demo_running_sel zero_stats_def demo_request_def demo_handler_clock_def
        millisecond_def a [unfolded demo_request_def] split: if_splits)
qed

end
