(* ===== verification/Pool.thy ===== *)
theory Pool
  imports Types
begin

text \<open>
  Connections and the connection pool of \<^verbatim>\<open>pkg/client/connection.go\<close>. Connections are
  objects in a heap (a list; an address is an index), because the pool, the callers and the
  workers share pointers to them. The transport is an interface: its two methods are the
  fields of \<open>transport_ops\<close> over the transport's own state, and \<^verbatim>\<open>nil\<close> is \<open>None\<close>.

  The parts of \<^verbatim>\<open>Get\<close> and \<^verbatim>\<open>Put\<close> that run under \<^verbatim>\<open>p.mu\<close> are functions; \<open>pool_step\<close> interleaves
  the callers, with the mutex explicit and with the two actions the code takes outside it
  (undoing a reservation, signalling) as steps of their own.

  Shown: no connection is held twice; the connections never exceed the limit and, until the
  pool is closed, the counter is exact; and two interleavings leave a caller asleep for ever.
\<close>

section \<open>Connections\<close>

record connection =
  conn_id :: string
  conn_serverID :: string
  conn_maxRequests :: int64
  conn_requestCount :: int64
  conn_shouldClose :: bool
  conn_closed :: bool
  conn_createdAt :: gotime

record 't transport_ops =
  tp_Send :: "'t \<Rightarrow> string \<Rightarrow> string \<Rightarrow> request \<Rightarrow> 't \<times> (error + response)"
  tp_CloseConnection :: "'t \<Rightarrow> string \<Rightarrow> string \<Rightarrow> 't"

definition NewConnection :: "gotime \<Rightarrow> string \<Rightarrow> string \<Rightarrow> int64 \<Rightarrow> connection" where
  "NewConnection now i serverID maxRequests =
     \<lparr>conn_id = i, conn_serverID = serverID, conn_maxRequests = maxRequests, conn_requestCount = 0,
      conn_shouldClose = False, conn_closed = False, conn_createdAt = now\<rparr>"

definition conn_ShouldClose :: "connection \<Rightarrow> bool" where
  "conn_ShouldClose c \<longleftrightarrow> conn_shouldClose c \<or> conn_maxRequests c \<le> conn_requestCount c"

definition MarkShouldClose :: "connection \<Rightarrow> connection" where
  "MarkShouldClose c = c\<lparr>conn_shouldClose := True\<rparr>"

definition IncrementRequests :: "connection \<Rightarrow> connection \<times> bool" where
  "IncrementRequests c =
     (let cnt = w64 (conn_requestCount c + 1)
      in (c\<lparr>conn_requestCount := cnt\<rparr>, conn_maxRequests c \<le> cnt))"

definition Connection_Send :: "'t transport_ops option \<Rightarrow> 't \<Rightarrow> connection \<Rightarrow> request
    \<Rightarrow> 't \<times> connection \<times> (error + response)" where
  "Connection_Send ops t c req =
     (if conn_closed c then (t, c, Inl ConnectionClosed)
      else
      let (c, shouldClose) = IncrementRequests c
      in case ops of
           None \<Rightarrow> (t, c, Inl NoTransport)
         | Some tp \<Rightarrow>
             (case tp_Send tp t (conn_serverID c) (conn_id c) req of
                (t, Inl err) \<Rightarrow> (t, c, Inl err)
              | (t, Inr resp) \<Rightarrow>
                  (t, c, Inr (if shouldClose then resp\<lparr>ShouldClose := True\<rparr> else resp))))"

definition Connection_Close :: "'t transport_ops option \<Rightarrow> 't \<Rightarrow> connection \<Rightarrow> 't \<times> connection" where
  "Connection_Close ops t c =
     (if conn_closed c then (t, c)
      else (case ops of
              Some tp \<Rightarrow> tp_CloseConnection tp t (conn_serverID c) (conn_id c)
            | None \<Rightarrow> t,
            c\<lparr>conn_closed := True\<rparr>))"

section \<open>The pool\<close>

record pool =
  pl_maxRequestsPerConn :: int64
  pl_maxTotalConnections :: int
  idleConnections :: "nat list"
  pl_TotalConnections :: int64
  pl_TotalRequests :: int64
  pl_closed :: bool
  pl_strategy :: string
  pl_clientID :: string

record pool_stats =
  ps_TotalConnections :: int64
  ps_ActiveConnections :: int64
  ps_IdleConnections :: int64
  ps_TotalRequests :: int64

definition NewPool :: "string \<Rightarrow> int64 \<Rightarrow> string \<Rightarrow> int \<Rightarrow> pool" where
  "NewPool clientID maxRequests strategy maxTotal =
     \<lparr>pl_maxRequestsPerConn = (if maxRequests \<le> 0 then 150 else maxRequests),
      pl_maxTotalConnections = maxTotal, idleConnections = [], pl_TotalConnections = 0,
      pl_TotalRequests = 0, pl_closed = False,
      pl_strategy = (if strategy = [] then ''fifo'' else strategy), pl_clientID = clientID\<rparr>"

text \<open>\<^verbatim>\<open>atomic.AddInt64(&p.stats.TotalConnections, d)\<close>.\<close>

definition add_connections :: "int64 \<Rightarrow> pool \<Rightarrow> pool" where
  "add_connections d p = p\<lparr>pl_TotalConnections := w64 (pl_TotalConnections p + d)\<rparr>"

text \<open>Popping an idle connection, last or first by the strategy.\<close>

definition take_idle :: "pool \<Rightarrow> (nat \<times> pool) option" where
  "take_idle p =
     (if idleConnections p = [] then None
      else if pl_strategy p = ''lifo''
      then Some (last (idleConnections p), p\<lparr>idleConnections := butlast (idleConnections p)\<rparr>)
      else Some (hd (idleConnections p), p\<lparr>idleConnections := tl (idleConnections p)\<rparr>))"

datatype get_outcome = Reused nat | Reserved | MustWait

text \<open>One pass of the loop on the limit, which is also what a caller does after a wait.\<close>

definition limit_pass :: "pool \<Rightarrow> pool \<times> get_outcome" where
  "limit_pass p =
     (if pl_maxTotalConnections p \<le> 0 \<or> pl_TotalConnections p < pl_maxTotalConnections p
      then (add_connections 1 p, Reserved)
      else case take_idle p of
             Some (a, p) \<Rightarrow> (p, Reused a)
           | None \<Rightarrow> (p, MustWait))"

text \<open>What \<^verbatim>\<open>Get\<close> does from taking the mutex to releasing it for the first time.\<close>

definition get_pass :: "pool \<Rightarrow> pool \<times> get_outcome" where
  "get_pass p =
     (case take_idle p of
        Some (a, p) \<Rightarrow> (p, Reused a)
      | None \<Rightarrow> limit_pass p)"

definition new_conn_id :: "pool \<Rightarrow> string \<Rightarrow> gotime \<Rightarrow> string" where
  "new_conn_id p serverID now =
     ''conn-'' @ pl_clientID p @ ''-'' @ serverID @ ''-'' @ show_int (w64 (wall now - unix_offset * second))"

definition Pool_Create :: "pool \<Rightarrow> gotime \<Rightarrow> string \<Rightarrow> error + connection" where
  "Pool_Create p now serverID =
     (if pl_closed p then Inl PoolClosed
      else Inr (NewConnection now (new_conn_id p serverID now) serverID (pl_maxRequestsPerConn p)))"

text \<open>
  \<^verbatim>\<open>Get\<close> by a caller that is alone, with the picker as a function that changes the state \<open>'b\<close>
  of the load balancer. \<open>None\<close>: the caller sleeps on the condition variable.
\<close>

definition Pool_Get :: "pool \<Rightarrow> connection list \<Rightarrow> ('b \<Rightarrow> 'b \<times> (error + string)) \<Rightarrow> 'b \<Rightarrow> gotime
    \<Rightarrow> (pool \<times> connection list \<times> 'b \<times> (error + nat)) option" where
  "Pool_Get p heap picker b now =
     (if pl_closed p then Some (p, heap, b, Inl PoolClosed)
      else
      case get_pass p of
        (p, Reused a) \<Rightarrow> Some (p, heap, b, Inr a)
      | (p, MustWait) \<Rightarrow> None
      | (p, Reserved) \<Rightarrow>
          (case picker b of
             (b, Inl err) \<Rightarrow> Some (add_connections (-1) p, heap, b, Inl err)
           | (b, Inr serverID) \<Rightarrow>
               let conn = NewConnection now (new_conn_id p serverID now) serverID (pl_maxRequestsPerConn p)
               in Some (p, heap @ [conn], b, Inr (length heap))))"

text \<open>What \<^verbatim>\<open>Put\<close> does under the mutex; the flag says whether it closes the connection.\<close>

definition put_pass :: "pool \<Rightarrow> connection \<Rightarrow> nat \<Rightarrow> pool \<times> bool" where
  "put_pass p c a =
     (if pl_closed p then (p, True)
      else if conn_ShouldClose c then (add_connections (-1) p, True)
      else (p\<lparr>idleConnections := idleConnections p @ [a]\<rparr>, False))"

definition Pool_Put :: "'t transport_ops option \<Rightarrow> pool \<Rightarrow> 't \<Rightarrow> connection list \<Rightarrow> nat
    \<Rightarrow> pool \<times> 't \<times> connection list" where
  "Pool_Put ops p t heap a =
     (let (p, closing) = put_pass p (heap ! a) a
      in if closing
         then let (t, c) = Connection_Close ops t (heap ! a) in (p, t, heap[a := c])
         else (p, t, heap))"

fun close_all :: "'t transport_ops option \<Rightarrow> 't \<Rightarrow> connection list \<Rightarrow> nat list \<Rightarrow> 't \<times> connection list" where
  "close_all ops t heap [] = (t, heap)"
| "close_all ops t heap (a # as) =
     (let (t, c) = Connection_Close ops t (heap ! a) in close_all ops t (heap[a := c]) as)"

definition close_pass :: "pool \<Rightarrow> pool" where
  "close_pass p = p\<lparr>pl_closed := True, idleConnections := []\<rparr>"

definition Pool_Close :: "'t transport_ops option \<Rightarrow> pool \<Rightarrow> 't \<Rightarrow> connection list
    \<Rightarrow> pool \<times> 't \<times> connection list" where
  "Pool_Close ops p t heap =
     (let (t, heap) = close_all ops t heap (idleConnections p) in (close_pass p, t, heap))"

definition evictOneIdleConnection :: "'t transport_ops option \<Rightarrow> pool \<Rightarrow> 't \<Rightarrow> connection list
    \<Rightarrow> pool \<times> 't \<times> connection list \<times> bool" where
  "evictOneIdleConnection ops p t heap =
     (case idleConnections p of
        [] \<Rightarrow> (p, t, heap, False)
      | a # as \<Rightarrow>
          let (t, c) = Connection_Close ops t (heap ! a)
          in (add_connections (-1) (p\<lparr>idleConnections := as\<rparr>), t, heap[a := c], True))"

definition Pool_Stats :: "pool \<Rightarrow> pool_stats" where
  "Pool_Stats p =
     (let total = pl_TotalConnections p;
          idle = int (length (idleConnections p));
          active = w64 (total - idle)
      in \<lparr>ps_TotalConnections = total, ps_ActiveConnections = (if active < 0 then 0 else active),
          ps_IdleConnections = idle, ps_TotalRequests = pl_TotalRequests p\<rparr>)"

section \<open>The callers side by side\<close>

text \<open>
  Where a goroutine is: in \<^verbatim>\<open>Get\<close> past the check of \<^verbatim>\<open>p.closed\<close> that is made without the
  mutex; about to sleep, still holding the mutex; asleep; notified; outside the mutex with a
  reserved slot; after undoing the reservation of a failed pick and before the signal;
  holding a connection of the pool; holding one that \<^verbatim>\<open>Create\<close> made, which the pool does not
  know; in \<^verbatim>\<open>Close\<close> before the broadcast; returned.
\<close>

datatype pool_pc =
    Entering
  | Deciding
  | Asleep
  | Awake
  | Picking
  | PickFailed
  | Holding nat
  | Apart nat
  | Closing
  | Returned

record pool_sys =
  pl :: pool
  heap :: "connection list"
  holder :: "nat option"
  gos :: "nat \<rightharpoonup> pool_pc"

fun after_pass :: "get_outcome \<Rightarrow> pool_pc" where
  "after_pass (Reused a) = Holding a"
| "after_pass Reserved = Picking"
| "after_pass MustWait = Deciding"

definition after_holder :: "get_outcome \<Rightarrow> nat \<Rightarrow> nat option" where
  "after_holder r t = (if r = MustWait then Some t else None)"

text \<open>\<^verbatim>\<open>Signal\<close> wakes one sleeper if there is one, \<^verbatim>\<open>Broadcast\<close> wakes all.\<close>

definition pool_signal :: "(nat \<rightharpoonup> pool_pc) \<Rightarrow> (nat \<rightharpoonup> pool_pc) \<Rightarrow> bool" where
  "pool_signal m m' \<longleftrightarrow> (\<exists>u. m u = Some Asleep \<and> m' = m(u \<mapsto> Awake)) \<or> (\<forall>u. m u \<noteq> Some Asleep) \<and> m' = m"

definition pool_broadcast :: "(nat \<rightharpoonup> pool_pc) \<Rightarrow> (nat \<rightharpoonup> pool_pc)" where
  "pool_broadcast m = (\<lambda>t. if m t = Some Asleep then Some Awake else m t)"

text \<open>A goroutine that is not in a call of the pool.\<close>

definition outside :: "(nat \<rightharpoonup> pool_pc) \<Rightarrow> nat \<Rightarrow> bool" where
  "outside m t \<longleftrightarrow> m t = None \<or> m t = Some Returned"

definition owned :: "pool_pc \<Rightarrow> nat option" where
  "owned p = (case p of Holding a \<Rightarrow> Some a | Apart a \<Rightarrow> Some a | _ \<Rightarrow> None)"

inductive pool_step :: "pool_sys \<Rightarrow> pool_sys \<Rightarrow> bool" where
  get: "outside (gos x) t \<Longrightarrow> \<not> pl_closed (pl x) \<Longrightarrow> pool_step x (x\<lparr>gos := (gos x)(t \<mapsto> Entering)\<rparr>)"
| enter: "gos x t = Some Entering \<Longrightarrow> holder x = None \<Longrightarrow> get_pass (pl x) = (p, r) \<Longrightarrow>
    pool_step x (x\<lparr>pl := p, holder := after_holder r t, gos := (gos x)(t \<mapsto> after_pass r)\<rparr>)"
| sleep: "gos x t = Some Deciding \<Longrightarrow> pool_step x (x\<lparr>holder := None, gos := (gos x)(t \<mapsto> Asleep)\<rparr>)"
| wake_closed: "gos x t = Some Awake \<Longrightarrow> holder x = None \<Longrightarrow> pl_closed (pl x) \<Longrightarrow>
    pool_step x (x\<lparr>gos := (gos x)(t \<mapsto> Returned)\<rparr>)"
| wake: "gos x t = Some Awake \<Longrightarrow> holder x = None \<Longrightarrow> \<not> pl_closed (pl x) \<Longrightarrow> limit_pass (pl x) = (p, r) \<Longrightarrow>
    pool_step x (x\<lparr>pl := p, holder := after_holder r t, gos := (gos x)(t \<mapsto> after_pass r)\<rparr>)"
| pick: "gos x t = Some Picking \<Longrightarrow>
    pool_step x (x\<lparr>heap := heap x @ [NewConnection now (new_conn_id (pl x) serverID now) serverID
      (pl_maxRequestsPerConn (pl x))], gos := (gos x)(t \<mapsto> Holding (length (heap x)))\<rparr>)"
| pick_fail: "gos x t = Some Picking \<Longrightarrow>
    pool_step x (x\<lparr>pl := add_connections (-1) (pl x), gos := (gos x)(t \<mapsto> PickFailed)\<rparr>)"
| signal: "gos x t = Some PickFailed \<Longrightarrow> pool_signal (gos x) m \<Longrightarrow>
    pool_step x (x\<lparr>gos := m(t \<mapsto> Returned)\<rparr>)"
| create: "outside (gos x) t \<Longrightarrow> Pool_Create (pl x) now serverID = Inr c \<Longrightarrow>
    pool_step x (x\<lparr>heap := heap x @ [c], gos := (gos x)(t \<mapsto> Apart (length (heap x)))\<rparr>)"
| use: "gos x t = Some p \<Longrightarrow> owned p = Some a \<Longrightarrow> pool_step x (x\<lparr>heap := (heap x)[a := c]\<rparr>)"
| part: "gos x t = Some (Apart a) \<Longrightarrow> pool_step x (x\<lparr>gos := (gos x)(t \<mapsto> Returned)\<rparr>)"
| put_closed: "gos x t = Some (Holding a) \<Longrightarrow> pl_closed (pl x) \<Longrightarrow>
    pool_step x (x\<lparr>heap := (heap x)[a := (heap x ! a)\<lparr>conn_closed := True\<rparr>], gos := (gos x)(t \<mapsto> Returned)\<rparr>)"
| put_closing: "gos x t = Some (Holding a) \<Longrightarrow> holder x = None \<Longrightarrow> put_pass (pl x) (heap x ! a) a = (p, True) \<Longrightarrow>
    (if pl_closed (pl x) then m = gos x else pool_signal (gos x) m) \<Longrightarrow>
    pool_step x (x\<lparr>pl := p, heap := (heap x)[a := (heap x ! a)\<lparr>conn_closed := True\<rparr>], gos := m(t \<mapsto> Returned)\<rparr>)"
| put: "gos x t = Some (Holding a) \<Longrightarrow> holder x = None \<Longrightarrow> put_pass (pl x) (heap x ! a) a = (p, False) \<Longrightarrow>
    pool_step x (x\<lparr>pl := p, gos := (pool_broadcast (gos x))(t \<mapsto> Returned)\<rparr>)"
| close: "outside (gos x) t \<Longrightarrow> holder x = None \<Longrightarrow>
    pool_step x (x\<lparr>pl := close_pass (pl x), heap := snd (close_all None () (heap x) (idleConnections (pl x))),
      gos := (gos x)(t \<mapsto> Closing)\<rparr>)"
| close_broadcast: "gos x t = Some Closing \<Longrightarrow>
    pool_step x (x\<lparr>gos := (pool_broadcast (gos x))(t \<mapsto> Returned)\<rparr>)"

definition pool_init :: "pool \<Rightarrow> pool_sys" where
  "pool_init p = \<lparr>pl = p, heap = [], holder = None, gos = Map.empty\<rparr>"

section \<open>Ownership of connections\<close>

lemma take_idle_some:
  assumes "take_idle p = Some (a, p')"
  obtains xs ys where "idleConnections p = xs @ a # ys" "p' = p\<lparr>idleConnections := xs @ ys\<rparr>"
proof (cases "pl_strategy p = ''lifo''")
  case True
  with assms have "idleConnections p = butlast (idleConnections p) @ a # []"
      "p' = p\<lparr>idleConnections := butlast (idleConnections p) @ []\<rparr>"
    by (auto simp: take_idle_def split: if_splits)
  then show thesis by (rule that)
next
  case False
  with assms have "idleConnections p = [] @ a # tl (idleConnections p)"
      "p' = p\<lparr>idleConnections := [] @ tl (idleConnections p)\<rparr>"
    by (auto simp: take_idle_def split: if_splits)
  then show thesis by (rule that)
qed

lemma take_idle_none: "take_idle p = None \<longleftrightarrow> idleConnections p = []"
  by (simp add: take_idle_def)

lemma limit_pass_cases:
  assumes "limit_pass p = (p', r)"
  obtains (reserved) "r = Reserved" "p' = add_connections 1 p"
      "0 < pl_maxTotalConnections p \<longrightarrow> pl_TotalConnections p < pl_maxTotalConnections p"
  | (reused) a xs ys where "r = Reused a" "idleConnections p = xs @ a # ys" "p' = p\<lparr>idleConnections := xs @ ys\<rparr>"
  | (must_wait) "r = MustWait" "p' = p" "0 < pl_maxTotalConnections p"
      "pl_maxTotalConnections p \<le> pl_TotalConnections p" "idleConnections p = []"
proof (cases "pl_maxTotalConnections p \<le> 0 \<or> pl_TotalConnections p < pl_maxTotalConnections p")
  case True
  with assms show thesis by (intro reserved) (auto simp: limit_pass_def)
next
  case False
  show thesis
  proof (cases "take_idle p")
    case None
    with False assms show thesis by (intro must_wait) (auto simp: limit_pass_def take_idle_none)
  next
    case (Some ap)
    obtain a q where "ap = (a, q)" by fastforce
    with Some False assms have "take_idle p = Some (a, p')" "r = Reused a" by (auto simp: limit_pass_def)
    then show thesis using reused by (metis take_idle_some)
  qed
qed

lemma get_pass_cases:
  assumes "get_pass p = (p', r)"
  obtains (reserved) "r = Reserved" "p' = add_connections 1 p"
      "0 < pl_maxTotalConnections p \<longrightarrow> pl_TotalConnections p < pl_maxTotalConnections p"
  | (reused) a xs ys where "r = Reused a" "idleConnections p = xs @ a # ys" "p' = p\<lparr>idleConnections := xs @ ys\<rparr>"
  | (must_wait) "r = MustWait" "p' = p" "0 < pl_maxTotalConnections p"
      "pl_maxTotalConnections p \<le> pl_TotalConnections p" "idleConnections p = []"
proof (cases "take_idle p")
  case None
  with assms have "limit_pass p = (p', r)" by (simp add: get_pass_def)
  then show thesis by (cases rule: limit_pass_cases) (use that in auto)
next
  case (Some ap)
  obtain a q where "ap = (a, q)" by fastforce
  with Some assms have "take_idle p = Some (a, p')" "r = Reused a" by (auto simp: get_pass_def)
  then show thesis using reused by (metis take_idle_some)
qed

definition holding :: "(nat \<rightharpoonup> pool_pc) \<Rightarrow> nat \<rightharpoonup> nat" where
  "holding m t = Option.bind (m t) owned"

text \<open>Every connection is idle once, or held by one goroutine, or neither.\<close>

definition owner_ok :: "nat \<Rightarrow> nat list \<Rightarrow> (nat \<rightharpoonup> nat) \<Rightarrow> bool" where
  "owner_ok n idle h \<longleftrightarrow> distinct idle \<and> set idle \<subseteq> {..<n}
     \<and> (\<forall>t a. h t = Some a \<longrightarrow> a < n \<and> a \<notin> set idle) \<and> (\<forall>t u a. h t = Some a \<longrightarrow> h u = Some a \<longrightarrow> t = u)"

definition pool_owner_inv :: "pool_sys \<Rightarrow> bool" where
  "pool_owner_inv x \<longleftrightarrow> owner_ok (length (heap x)) (idleConnections (pl x)) (holding (gos x))"

lemma owned_simps [simp]:
  "owned (Holding a) = Some a" "owned (Apart a) = Some a" "owned Entering = None" "owned Deciding = None"
  "owned Asleep = None" "owned Awake = None" "owned Picking = None" "owned PickFailed = None"
  "owned Closing = None" "owned Returned = None"
  by (simp_all add: owned_def)

lemma owned_iff: "owned p = Some a \<longleftrightarrow> p = Holding a \<or> p = Apart a"
  by (cases p) simp_all

lemma holding_upd [simp]: "holding (m(t \<mapsto> p)) = (holding m)(t := owned p)"
  by (auto simp: holding_def fun_eq_iff)

lemma holding_outside: "outside m t \<Longrightarrow> holding m t = None"
  by (auto simp: outside_def holding_def)

lemma outside_none [simp]: "m t = None \<Longrightarrow> outside m t"
  by (simp add: outside_def)

lemma owner_empty [simp]: "owner_ok n [] (holding Map.empty)"
  by (simp add: owner_ok_def holding_def)

lemma signal_holding: "pool_signal m m' \<Longrightarrow> holding m' = holding m"
  by (auto simp: pool_signal_def holding_def fun_eq_iff)

lemma broadcast_holding: "holding (pool_broadcast m) = holding m"
  by (auto simp: pool_broadcast_def holding_def fun_eq_iff)

text \<open>How a connection changes hands.\<close>

lemma owner_release: "owner_ok n idle h \<Longrightarrow> owner_ok n idle (h(t := None))"
  by (simp add: owner_ok_def)

lemma owner_idle: "owner_ok n idle h \<Longrightarrow> h t = Some a \<Longrightarrow> owner_ok n (idle @ [a]) (h(t := None))"
  unfolding owner_ok_def by auto

lemma owner_take: "owner_ok n (xs @ a # ys) h \<Longrightarrow> owner_ok n (xs @ ys) (h(t \<mapsto> a))"
  unfolding owner_ok_def by auto

lemma owner_new: "owner_ok n idle h \<Longrightarrow> owner_ok (Suc n) idle (h(t \<mapsto> n))"
  unfolding owner_ok_def by (auto simp: less_Suc_eq)

lemma owner_clear: "owner_ok n idle h \<Longrightarrow> owner_ok n [] h"
  by (simp add: owner_ok_def)

lemmas owner_moves = owner_release owner_idle owner_take owner_new owner_clear

lemma add_connections_sel [simp]:
  "idleConnections (add_connections d p) = idleConnections p" "pl_closed (add_connections d p) = pl_closed p"
  "pl_maxTotalConnections (add_connections d p) = pl_maxTotalConnections p"
  by (simp_all add: add_connections_def)

lemma close_all_length [simp]: "length (snd (close_all ops t h as)) = length h"
  by (induction ops t h as rule: close_all.induct) (simp_all add: case_prod_beta Let_def)

lemma put_pass_idle:
  "put_pass p c a = (p', True) \<Longrightarrow> idleConnections p' = idleConnections p"
  "put_pass p c a = (p', False) \<Longrightarrow> p' = p\<lparr>idleConnections := idleConnections p @ [a]\<rparr>"
  by (auto simp: put_pass_def split: if_splits)

lemma pool_step_owner: "pool_step x y \<Longrightarrow> pool_owner_inv x \<Longrightarrow> pool_owner_inv y"
proof (induction rule: pool_step.induct)
  case (enter x t p r)
  show ?case using enter.hyps(3)
    by (cases rule: get_pass_cases) (use enter.prems in \<open>auto simp: pool_owner_inv_def intro: owner_moves\<close>)
next
  case (wake x t p r)
  show ?case using wake.hyps(4)
    by (cases rule: limit_pass_cases) (use wake.prems in \<open>auto simp: pool_owner_inv_def intro: owner_moves\<close>)
next
  case (signal x t m)
  then show ?case by (simp add: pool_owner_inv_def signal_holding owner_moves)
next
  case (put_closing x t a p m)
  have "holding m = holding (gos x)"
    using put_closing.hyps(4) by (auto simp: signal_holding split: if_splits)
  then show ?case using put_closing.prems
    by (simp add: pool_owner_inv_def put_pass_idle(1) [OF put_closing.hyps(3)] owner_moves)
next
  case (put x t a p)
  have "holding (gos x) t = Some a" using put.hyps(1) by (simp add: holding_def)
  then show ?case using put.prems
    by (simp add: pool_owner_inv_def put_pass_idle(2) [OF put.hyps(3)] broadcast_holding owner_moves)
next
  case (close_broadcast x t)
  then show ?case by (simp add: pool_owner_inv_def broadcast_holding owner_moves)
qed (simp_all add: pool_owner_inv_def close_pass_def owner_release owner_clear owner_new)

section \<open>The slots\<close>

definition uses_slot :: "pool_pc \<Rightarrow> bool" where
  "uses_slot p \<longleftrightarrow> p = Picking \<or> (\<exists>a. p = Holding a)"

definition slots_used :: "pool_sys \<Rightarrow> int" where
  "slots_used x = int (length (idleConnections (pl x))) + count_threads uses_slot (gos x)"

definition pool_slot_inv :: "pool_sys \<Rightarrow> bool" where
  "pool_slot_inv x \<longleftrightarrow> finite (dom (gos x)) \<and> 0 < pl_maxTotalConnections (pl x) \<and> in64 (pl_maxTotalConnections (pl x))
     \<and> slots_used x \<le> pl_TotalConnections (pl x) \<and> pl_TotalConnections (pl x) \<le> pl_maxTotalConnections (pl x)
     \<and> (\<not> pl_closed (pl x) \<longrightarrow> pl_TotalConnections (pl x) = slots_used x)"

lemma uses_slot_simps [simp]:
  "uses_slot Picking" "uses_slot (Holding a)" "\<not> uses_slot Entering" "\<not> uses_slot Deciding"
  "\<not> uses_slot (Apart a)" "\<not> uses_slot Asleep" "\<not> uses_slot Awake" "\<not> uses_slot PickFailed" "\<not> uses_slot Closing" "\<not> uses_slot Returned"
  by (simp_all add: uses_slot_def)

lemma count_nonneg [simp]: "0 \<le> count_threads P m"
  by (simp add: count_threads_def)

lemma slots_nonneg: "0 \<le> slots_used x"
  by (simp add: slots_used_def)

lemma signal_slots: "pool_signal m m' \<Longrightarrow> count_threads uses_slot m' = count_threads uses_slot m"
proof -
  assume "pool_signal m m'"
  then have "threads uses_slot m' = threads uses_slot m"
    by (auto simp: pool_signal_def threads_def split: if_splits)
  then show ?thesis by (simp add: count_threads_def)
qed

lemma signal_dom: "pool_signal m m' \<Longrightarrow> dom m' = dom m"
  by (auto simp: pool_signal_def split: if_splits)

lemma signal_other: "pool_signal m m' \<Longrightarrow> m t = Some p \<Longrightarrow> p \<noteq> Asleep \<Longrightarrow> m' t = Some p"
  by (auto simp: pool_signal_def)

lemma broadcast_slots: "count_threads uses_slot (pool_broadcast m) = count_threads uses_slot m"
proof -
  have "threads uses_slot (pool_broadcast m) = threads uses_slot m"
    by (auto simp: pool_broadcast_def threads_def split: if_splits)
  then show ?thesis by (simp add: count_threads_def)
qed

lemma broadcast_dom: "dom (pool_broadcast m) = dom m"
  by (auto simp: pool_broadcast_def dom_def)

lemma broadcast_other: "m t = Some p \<Longrightarrow> p \<noteq> Asleep \<Longrightarrow> pool_broadcast m t = Some p"
  by (simp add: pool_broadcast_def)

text \<open>A goroutine that uses a slot: the counter is positive.\<close>

lemma slot_positive: "finite (dom m) \<Longrightarrow> m t = Some p \<Longrightarrow> uses_slot p \<Longrightarrow> 1 \<le> count_threads uses_slot m"
proof -
  assume "finite (dom m)" "m t = Some p" "uses_slot p"
  then have "t \<in> threads uses_slot m" "finite (threads uses_slot m)"
    by (auto simp: threads_def intro: finite_subset [of _ "dom m"])
  then have "0 < card (threads uses_slot m)" using card_gt_0_iff by blast
  then show ?thesis by (simp add: count_threads_def)
qed

lemma slot_pass:
  assumes inv: "pool_slot_inv x" and t: "gos x t = Some q" "\<not> uses_slot q"
    and r: "r = Reserved \<and> p = add_connections 1 (pl x)
        \<and> pl_TotalConnections (pl x) < pl_maxTotalConnections (pl x)
      \<or> r = MustWait \<and> p = pl x
      \<or> (\<exists>a xs ys. r = Reused a \<and> idleConnections (pl x) = xs @ a # ys \<and> p = (pl x)\<lparr>idleConnections := xs @ ys\<rparr>)"
  shows "pool_slot_inv (x\<lparr>pl := p, holder := h, gos := (gos x)(t \<mapsto> after_pass r)\<rparr>)"
proof -
  have fin: "finite (dom (gos x))" using inv by (simp add: pool_slot_inv_def)
  note c = count_threads_upd [OF fin, of uses_slot t "after_pass r"]
  have nn: "0 \<le> pl_TotalConnections (pl x)" using inv slots_nonneg [of x] by (simp add: pool_slot_inv_def)
  show ?thesis
    using r inv t fin c nn
    by (auto simp: pool_slot_inv_def slots_used_def add_connections_def w64_id in64_def)
qed

lemma pool_step_slots: "pool_step x y \<Longrightarrow> pool_slot_inv x \<Longrightarrow> pool_slot_inv y"
proof (induction rule: pool_step.induct)
  case (enter x t p r)
  have pos: "0 < pl_maxTotalConnections (pl x)" using enter.prems by (simp add: pool_slot_inv_def)
  show ?case using enter.hyps(3)
    by (cases rule: get_pass_cases) (use pos enter in \<open>intro slot_pass [where q = Entering]; auto\<close>)+
next
  case (wake x t p r)
  have pos: "0 < pl_maxTotalConnections (pl x)" using wake.prems by (simp add: pool_slot_inv_def)
  show ?case using wake.hyps(4)
    by (cases rule: limit_pass_cases) (use pos wake in \<open>intro slot_pass [where q = Awake]; auto\<close>)+
next
  case (pick_fail x t)
  have fin: "finite (dom (gos x))" using pick_fail.prems by (simp add: pool_slot_inv_def)
  have "1 \<le> count_threads uses_slot (gos x)" using slot_positive [OF fin pick_fail.hyps] by simp
  then show ?case using pick_fail fin
    by (auto simp: pool_slot_inv_def slots_used_def count_threads_upd add_connections_def w64_id in64_def)
next
  case (signal x t m)
  have t: "m t = Some PickFailed" "finite (dom m)"
    using signal signal_other [OF signal.hyps(2,1)] signal_dom [OF signal.hyps(2)] by (auto simp: pool_slot_inv_def)
  then show ?case
    using signal.prems signal_slots [OF signal.hyps(2)]
    by (simp add: pool_slot_inv_def slots_used_def count_threads_upd)
next
  case (put_closing x t a p m)
  have fin: "finite (dom (gos x))" using put_closing.prems by (simp add: pool_slot_inv_def)
  have one: "1 \<le> count_threads uses_slot (gos x)" using slot_positive [OF fin put_closing.hyps(1)] by simp
  have m: "m t = Some (Holding a)" "finite (dom m)" "count_threads uses_slot m = count_threads uses_slot (gos x)"
    using put_closing.hyps(1,4) fin signal_other [of "gos x" m t] signal_dom [of "gos x" m] signal_slots [of "gos x" m]
    by (auto split: if_splits)
  have p: "if pl_closed (pl x) then p = pl x else p = add_connections (-1) (pl x)"
    using put_closing.hyps(3) by (auto simp: put_pass_def split: if_splits)
  show ?case
    using put_closing.prems one m p
    by (cases "pl_closed (pl x)")
      (auto simp: pool_slot_inv_def slots_used_def count_threads_upd add_connections_def w64_id in64_def)
next
  case (put x t a p)
  have fin: "finite (dom (gos x))" using put.prems by (simp add: pool_slot_inv_def)
  have b: "finite (dom (pool_broadcast (gos x)))" "pool_broadcast (gos x) t = Some (Holding a)"
    using fin put.hyps(1) by (simp_all add: broadcast_dom broadcast_other)
  have "p = (pl x)\<lparr>idleConnections := idleConnections (pl x) @ [a]\<rparr>"
    using put.hyps(3) by (auto simp: put_pass_def split: if_splits)
  then show ?case
    using put.prems b broadcast_slots [of "gos x"]
    by (simp add: pool_slot_inv_def slots_used_def count_threads_upd)
next
  case (close_broadcast x t)
  have fin: "finite (dom (gos x))" using close_broadcast.prems by (simp add: pool_slot_inv_def)
  have b: "finite (dom (pool_broadcast (gos x)))" "pool_broadcast (gos x) t = Some Closing"
    using fin close_broadcast.hyps by (simp_all add: broadcast_dom broadcast_other)
  then show ?case
    using close_broadcast.prems broadcast_slots [of "gos x"]
    by (simp add: pool_slot_inv_def slots_used_def count_threads_upd)
qed (auto simp: pool_slot_inv_def slots_used_def count_threads_upd close_pass_def outside_def owned_iff)

lemma pool_init_inv:
  "pool_owner_inv (pool_init (NewPool clientID maxRequests strategy maxTotal))"
  "0 < maxTotal \<Longrightarrow> in64 maxTotal \<Longrightarrow> pool_slot_inv (pool_init (NewPool clientID maxRequests strategy maxTotal))"
  by (simp_all add: pool_owner_inv_def pool_slot_inv_def slots_used_def pool_init_def NewPool_def)

lemma pool_reach_inv:
  assumes "pool_step\<^sup>*\<^sup>* (pool_init (NewPool clientID maxRequests strategy maxTotal)) x"
  shows "pool_owner_inv x" and "0 < maxTotal \<Longrightarrow> in64 maxTotal \<Longrightarrow> pool_slot_inv x"
proof -
  show "pool_owner_inv x"
    using assms by (induction rule: rtranclp_induct) (rule pool_init_inv, rule pool_step_owner)
  show "0 < maxTotal \<Longrightarrow> in64 maxTotal \<Longrightarrow> pool_slot_inv x"
    using assms by (induction rule: rtranclp_induct) (blast intro: pool_init_inv pool_step_slots)+
qed

lemma pool_frame: "pool_step x y \<Longrightarrow> pl_maxTotalConnections (pl y) = pl_maxTotalConnections (pl x)"
proof (induction rule: pool_step.induct)
  case (enter x t p r)
  show ?case using enter.hyps(3) by (cases rule: get_pass_cases) auto
next
  case (wake x t p r)
  show ?case using wake.hyps(4) by (cases rule: limit_pass_cases) auto
qed (auto simp: put_pass_def close_pass_def split: if_splits)

lemma pool_reach_max:
  "pool_step\<^sup>*\<^sup>* (pool_init (NewPool clientID maxRequests strategy maxTotal)) x \<Longrightarrow> pl_maxTotalConnections (pl x) = maxTotal"
proof (induction rule: rtranclp_induct)
  case base
  then show ?case by (simp add: pool_init_def NewPool_def)
next
  case (step y z)
  then show ?case using pool_frame [OF step.hyps(2)] by simp
qed

section \<open>Lost wake-ups\<close>

lemma quiescent_step:
  assumes "pool_step x y" and "\<forall>t p. gos x t = Some p \<longrightarrow> p = Returned \<or> p = Asleep"
  shows "\<exists>t p. outside (gos x) t \<and> gos y = (gos x)(t \<mapsto> p)"
  using assms by (cases rule: pool_step.cases) fastforce+

definition demo_pool :: "int64 \<Rightarrow> bool \<Rightarrow> pool" where
  "demo_pool k closed = (NewPool ''client-0'' 150 ''fifo'' 1)\<lparr>pl_TotalConnections := k, pl_closed := closed\<rparr>"

definition demo_conn :: connection where
  "demo_conn = NewConnection (now_at 0 0) (new_conn_id (demo_pool 1 False) ''server-0'' (now_at 0 0)) ''server-0'' 150"

lemma demo_pool_init: "NewPool ''client-0'' 150 ''fifo'' 1 = demo_pool 0 False"
  by (simp add: demo_pool_def NewPool_def)

definition psys :: "pool \<Rightarrow> connection list \<Rightarrow> nat option \<Rightarrow> (nat \<rightharpoonup> pool_pc) \<Rightarrow> pool_sys" where
  "psys p h l m = \<lparr>pl = p, heap = h, holder = l, gos = m\<rparr>"

lemma psys_sel [simp]: "pl (psys p h l m) = p" "heap (psys p h l m) = h" "holder (psys p h l m) = l" "gos (psys p h l m) = m"
  and psys_upd [simp]: "(psys p h l m)\<lparr>pl := p'\<rparr> = psys p' h l m" "(psys p h l m)\<lparr>heap := h'\<rparr> = psys p h' l m"
  "(psys p h l m)\<lparr>holder := l'\<rparr> = psys p h l' m" "(psys p h l m)\<lparr>gos := m'\<rparr> = psys p h l m'"
  by (simp_all add: psys_def)

lemma demo_pass:
  "get_pass (demo_pool 0 False) = (demo_pool 1 False, Reserved)"
  "get_pass (demo_pool 1 c) = (demo_pool 1 c, MustWait)"
  "add_connections (-1) (demo_pool 1 False) = demo_pool 0 False"
  "close_pass (demo_pool 1 False) = demo_pool 1 True" "idleConnections (demo_pool n c) = []"
  "pl_closed (demo_pool n c) = c" "pl_maxRequestsPerConn (demo_pool n c) = 150"
  "pl_TotalConnections (demo_pool n c) = n" "pl_maxTotalConnections (demo_pool n c) = 1"
  by (simp_all add: demo_pool_def NewPool_def get_pass_def limit_pass_def take_idle_def add_connections_def
      close_pass_def w64_id in64_def)

lemma reach_step: "pool_step\<^sup>*\<^sup>* x y \<Longrightarrow> pool_step y z' \<Longrightarrow> z' = z \<Longrightarrow> pool_step\<^sup>*\<^sup>* x z"
  by (meson rtranclp.rtrancl_into_rtrancl)

text \<open>One caller has reserved the only slot.\<close>

lemma demo_reserved:
  "pool_step\<^sup>*\<^sup>* (pool_init (NewPool ''client-0'' 150 ''fifo'' 1)) (psys (demo_pool 1 False) [] None [0 \<mapsto> Picking])"
proof -
  let ?i = "psys (demo_pool 0 False) [] None Map.empty"
  have "pool_step\<^sup>*\<^sup>* ?i (psys (demo_pool 0 False) [] None [0 \<mapsto> Entering])"
    by (rule reach_step [OF rtranclp.rtrancl_refl pool_step.get [of _ 0]]) (simp_all add: demo_pass)
  then have "pool_step\<^sup>*\<^sup>* ?i (psys (demo_pool 1 False) [] None [0 \<mapsto> Picking])"
    by (rule reach_step [OF _ pool_step.enter [of _ 0 "demo_pool 1 False" Reserved]])
      (simp_all add: demo_pass after_holder_def)
  moreover have "?i = pool_init (NewPool ''client-0'' 150 ''fifo'' 1)"
    by (simp add: psys_def pool_init_def demo_pool_init)
  ultimately show ?thesis by simp
qed

lemma demo_held:
  "pool_step\<^sup>*\<^sup>* (pool_init (NewPool ''client-0'' 150 ''fifo'' 1)) (psys (demo_pool 1 False) [demo_conn] None [0 \<mapsto> Holding 0])"
  by (rule reach_step [OF demo_reserved pool_step.pick [of _ 0 "now_at 0 0" "''server-0''"]])
    (simp_all add: demo_pass demo_conn_def)

text \<open>The picker of the first caller fails between the other's check and its sleep.\<close>

lemma demo_pick_lost:
  "pool_step\<^sup>*\<^sup>* (pool_init (NewPool ''client-0'' 150 ''fifo'' 1))
    (psys (demo_pool 0 False) [] None [0 \<mapsto> Returned, 1 \<mapsto> Asleep])"
proof -
  have "pool_step\<^sup>*\<^sup>* (pool_init (NewPool ''client-0'' 150 ''fifo'' 1))
      (psys (demo_pool 1 False) [] None [0 \<mapsto> Picking, 1 \<mapsto> Entering])"
    by (rule reach_step [OF demo_reserved pool_step.get [of _ 1]]) (simp_all add: demo_pass)
  then have "pool_step\<^sup>*\<^sup>* (pool_init (NewPool ''client-0'' 150 ''fifo'' 1))
      (psys (demo_pool 1 False) [] (Some 1) [0 \<mapsto> Picking, 1 \<mapsto> Deciding])"
    by (rule reach_step [OF _ pool_step.enter [of _ 1 "demo_pool 1 False" MustWait]])
      (simp_all add: demo_pass after_holder_def)
  then have "pool_step\<^sup>*\<^sup>* (pool_init (NewPool ''client-0'' 150 ''fifo'' 1))
      (psys (demo_pool 0 False) [] (Some 1) [0 \<mapsto> PickFailed, 1 \<mapsto> Deciding])"
    by (rule reach_step [OF _ pool_step.pick_fail [of _ 0]]) (simp_all add: demo_pass fun_upd_twist)
  then have "pool_step\<^sup>*\<^sup>* (pool_init (NewPool ''client-0'' 150 ''fifo'' 1))
      (psys (demo_pool 0 False) [] (Some 1) [0 \<mapsto> Returned, 1 \<mapsto> Deciding])"
    by (rule reach_step [OF _ pool_step.signal [of _ 0 "[0 \<mapsto> PickFailed, 1 \<mapsto> Deciding]"]])
      (simp_all add: pool_signal_def fun_upd_twist)
  then show ?thesis
    by (rule reach_step [OF _ pool_step.sleep [of _ 1]]) (simp_all)
qed

text \<open>The pool is closed between the check of \<^verbatim>\<open>p.closed\<close> and the mutex.\<close>

lemma demo_close_lost:
  "pool_step\<^sup>*\<^sup>* (pool_init (NewPool ''client-0'' 150 ''fifo'' 1))
    (psys (demo_pool 1 True) [demo_conn\<lparr>conn_closed := True\<rparr>] None [0 \<mapsto> Returned, 1 \<mapsto> Asleep, 2 \<mapsto> Returned])"
proof -
  have "pool_step\<^sup>*\<^sup>* (pool_init (NewPool ''client-0'' 150 ''fifo'' 1))
      (psys (demo_pool 1 False) [demo_conn] None [0 \<mapsto> Holding 0, 1 \<mapsto> Entering])"
    by (rule reach_step [OF demo_held pool_step.get [of _ 1]]) (simp_all add: demo_pass)
  then have "pool_step\<^sup>*\<^sup>* (pool_init (NewPool ''client-0'' 150 ''fifo'' 1))
      (psys (demo_pool 1 True) [demo_conn] None [0 \<mapsto> Holding 0, 1 \<mapsto> Entering, 2 \<mapsto> Closing])"
    by (rule reach_step [OF _ pool_step.close [of _ 2]]) (simp_all add: demo_pass)
  then have "pool_step\<^sup>*\<^sup>* (pool_init (NewPool ''client-0'' 150 ''fifo'' 1))
      (psys (demo_pool 1 True) [demo_conn] None [0 \<mapsto> Holding 0, 1 \<mapsto> Entering, 2 \<mapsto> Returned])"
    by (rule reach_step [OF _ pool_step.close_broadcast [of _ 2]]) (auto simp: pool_broadcast_def fun_eq_iff psys_def)
  then have "pool_step\<^sup>*\<^sup>* (pool_init (NewPool ''client-0'' 150 ''fifo'' 1))
      (psys (demo_pool 1 True) [demo_conn] (Some 1) [0 \<mapsto> Holding 0, 1 \<mapsto> Deciding, 2 \<mapsto> Returned])"
    by (rule reach_step [OF _ pool_step.enter [of _ 1 "demo_pool 1 True" MustWait]])
      (auto simp: demo_pass after_holder_def fun_eq_iff psys_def)
  then have "pool_step\<^sup>*\<^sup>* (pool_init (NewPool ''client-0'' 150 ''fifo'' 1))
      (psys (demo_pool 1 True) [demo_conn] None [0 \<mapsto> Holding 0, 1 \<mapsto> Asleep, 2 \<mapsto> Returned])"
    by (rule reach_step [OF _ pool_step.sleep [of _ 1]]) (auto simp: fun_eq_iff psys_def)
  then show ?thesis
    by (rule reach_step [OF _ pool_step.put_closing [of _ 0 0 "demo_pool 1 True"
          "[0 \<mapsto> Holding 0, 1 \<mapsto> Asleep, 2 \<mapsto> Returned]"]])
      (auto simp: put_pass_def demo_pass fun_eq_iff psys_def)
qed

section \<open>Properties\<close>

text \<open>
  Exclusive connections. However callers interleave, no connection is idle twice, idle
  while a caller holds it, or held by two callers.
\<close>

lemma pool_exclusive:
  assumes "pool_step\<^sup>*\<^sup>* (pool_init (NewPool clientID maxRequests strategy maxTotal)) x"
  shows "distinct (idleConnections (pl x))
    \<and> (\<forall>t a. holding (gos x) t = Some a \<longrightarrow> a \<notin> set (idleConnections (pl x)))
    \<and> (\<forall>t u a. holding (gos x) t = Some a \<longrightarrow> holding (gos x) u = Some a \<longrightarrow> t = u)"
  using pool_reach_inv(1) [OF assms] by (auto simp: pool_owner_inv_def owner_ok_def)

text \<open>
  C24. The limit holds. With a positive limit the idle connections, the held connections and the
  reserved slots together never exceed it, and \<^verbatim>\<open>TotalConnections\<close> is exactly their number
  until the pool is closed and at least their number afterwards.
\<close>

theorem pool_limit:
  assumes "pool_step\<^sup>*\<^sup>* (pool_init (NewPool clientID maxRequests strategy maxTotal)) x"
    and "0 < maxTotal" and "in64 maxTotal"
  shows "int (length (idleConnections (pl x))) + count_threads uses_slot (gos x) \<le> pl_TotalConnections (pl x)
    \<and> pl_TotalConnections (pl x) \<le> maxTotal
    \<and> (\<not> pl_closed (pl x) \<longrightarrow>
        pl_TotalConnections (pl x) = int (length (idleConnections (pl x))) + count_threads uses_slot (gos x))"
  using pool_reach_inv(2) [OF assms] pool_reach_max [OF assms(1)]
  by (simp add: pool_slot_inv_def slots_used_def)

theorem pool_limit_witness:
  "let x = psys (demo_pool 1 False) [demo_conn] None [0 \<mapsto> Holding 0] in
     pl_TotalConnections (pl x) = int (length (idleConnections (pl x))) + count_threads uses_slot (gos x)
     \<and> pl_TotalConnections (pl x) \<le> 1 \<and> count_threads uses_slot [0 :: nat \<mapsto> Holding 0] = 1"
  using pool_limit [OF demo_held] by (simp add: demo_pass in64_def)

text \<open>
  A pool in which everybody has returned, sleeps or uses a connection of his own: while nobody
  begins a call of \<^verbatim>\<open>Get\<close> or \<^verbatim>\<open>Close\<close>, it stays one, and the sleepers sleep on. A closed pool
  refuses \<^verbatim>\<open>Get\<close>, so there the calls of \<^verbatim>\<open>Close\<close> are enough.
\<close>

definition dormant :: "pool_sys \<Rightarrow> bool" where
  "dormant x \<longleftrightarrow> (\<forall>t p. gos x t = Some p \<longrightarrow> p = Returned \<or> p = Asleep \<or> (\<exists>a. p = Apart a))"

lemma dormant_step:
  assumes "pool_step x y" and d: "dormant x"
    and close: "\<forall>t. outside (gos x) t \<longrightarrow> gos y t \<noteq> Some Closing"
    and get: "\<forall>t. outside (gos x) t \<longrightarrow> gos y t \<noteq> Some Entering"
  shows "dormant y \<and> (gos x u = Some Asleep \<longrightarrow> gos y u = Some Asleep)"
  using assms(1)
proof cases
  case (get t)
  then show ?thesis using assms(4) by auto
next
  case (close t)
  then show ?thesis using assms(3) by auto
qed (use d in \<open>fastforce simp: dormant_def outside_def\<close>)+

lemma closed_step: "pool_step x y \<Longrightarrow> pl_closed (pl x) \<Longrightarrow> outside (gos x) t \<Longrightarrow> gos y t \<noteq> Some Entering"
  by (erule pool_step.cases)
    (auto simp: outside_def pool_broadcast_def pool_signal_def limit_pass_def split: if_splits)

lemma pass_closed:
  "limit_pass p = (p', r) \<Longrightarrow> pl_closed p' = pl_closed p" "get_pass p = (p', r) \<Longrightarrow> pl_closed p' = pl_closed p"
  "put_pass p c a = (p', d) \<Longrightarrow> pl_closed p' = pl_closed p"
  by (auto simp: get_pass_def limit_pass_def take_idle_def put_pass_def split: if_splits)

lemma closed_stays: "pool_step x y \<Longrightarrow> pl_closed (pl x) \<Longrightarrow> pl_closed (pl y)"
  by (erule pool_step.cases)
    (auto simp: close_pass_def dest: pass_closed)

lemma dormant_run:
  assumes "(\<lambda>a b. pool_step a b \<and> (\<forall>t. outside (gos a) t \<longrightarrow> gos b t \<noteq> Some Entering \<and> gos b t \<noteq> Some Closing))\<^sup>*\<^sup>* x y"
    and "dormant x" and "gos x u = Some Asleep"
  shows "gos y u = Some Asleep"
proof -
  have "dormant y \<and> gos y u = Some Asleep"
    using assms(1)
  proof (induction rule: rtranclp_induct)
    case (step y z)
    then show ?case using dormant_step [of y z u] by blast
  qed (use assms(2,3) in blast)
  then show ?thesis by blast
qed

lemma dormant_closed_run:
  assumes "(\<lambda>a b. pool_step a b \<and> (\<forall>t. outside (gos a) t \<longrightarrow> gos b t \<noteq> Some Closing))\<^sup>*\<^sup>* x y"
    and "dormant x" and "pl_closed (pl x)" and "gos x u = Some Asleep"
  shows "gos y u = Some Asleep"
proof -
  have "dormant y \<and> pl_closed (pl y) \<and> gos y u = Some Asleep"
    using assms(1)
  proof (induction rule: rtranclp_induct)
    case (step y z)
    then show ?case using dormant_step [of y z u] closed_step [of y z] closed_stays [of y z] by blast
  qed (use assms(2-4) in blast)
  then show ?thesis by blast
qed

lemma close_wakes:
  assumes "gos x t = None" and "holder x = None" and "gos x u = Some Asleep"
  shows "\<exists>y. pool_step\<^sup>*\<^sup>* x y \<and> gos y u = Some Awake"
proof -
  have "u \<noteq> t" using assms by auto
  let ?y = "x\<lparr>pl := close_pass (pl x), heap := snd (close_all None () (heap x) (idleConnections (pl x))),
      gos := (gos x)(t \<mapsto> Closing)\<rparr>"
  have "pool_step\<^sup>*\<^sup>* x ?y"
    by (rule r_into_rtranclp [where r = pool_step, OF pool_step.close]) (simp_all add: assms outside_def)
  then have "pool_step\<^sup>*\<^sup>* x (?y\<lparr>gos := (pool_broadcast (gos ?y))(t \<mapsto> Returned)\<rparr>)"
    by (rule reach_step [OF _ pool_step.close_broadcast [of _ t]]) simp_all
  moreover have "gos (?y\<lparr>gos := (pool_broadcast (gos ?y))(t \<mapsto> Returned)\<rparr>) u = Some Awake"
    using assms(3) \<open>u \<noteq> t\<close> by (simp add: pool_broadcast_def)
  ultimately show ?thesis by blast
qed

text \<open>
  C25. Two lost wake-ups. First, when the picker of another caller fails between this caller's
  check of the limit and its sleep, the caller sleeps although the limit leaves room and the
  pool is open: every further step is a new call, and it sleeps on in every run in which no
  other goroutine begins a \<^verbatim>\<open>Get\<close> or a \<^verbatim>\<open>Close\<close>. Second, when \<^verbatim>\<open>Close\<close> runs between its check of
  \<^verbatim>\<open>p.closed\<close> and its \<^verbatim>\<open>p.mu.Lock()\<close>, the caller sleeps in a closed pool, with nobody to wake
  it: every further step is a new call, and it sleeps on in every run in which nobody calls
  \<^verbatim>\<open>Close\<close> a second time. In both states such a call of \<^verbatim>\<open>Close\<close> can wake it.
\<close>

theorem pool_lost_wakeups:
  "(\<exists>x. pool_step\<^sup>*\<^sup>* (pool_init (NewPool ''client-0'' 150 ''fifo'' 1)) x \<and> gos x 1 = Some Asleep
      \<and> pl_TotalConnections (pl x) < pl_maxTotalConnections (pl x) \<and> \<not> pl_closed (pl x)
      \<and> (\<forall>y. pool_step x y \<longrightarrow> (\<exists>t p. outside (gos x) t \<and> gos y = (gos x)(t \<mapsto> p)))
      \<and> (\<forall>y. (\<lambda>a b. pool_step a b \<and> (\<forall>t. outside (gos a) t \<longrightarrow> gos b t \<noteq> Some Entering \<and> gos b t \<noteq> Some Closing))\<^sup>*\<^sup>* x y
            \<longrightarrow> gos y 1 = Some Asleep)
      \<and> (\<exists>y. pool_step\<^sup>*\<^sup>* x y \<and> gos y 1 = Some Awake))
   \<and> (\<exists>x. pool_step\<^sup>*\<^sup>* (pool_init (NewPool ''client-0'' 150 ''fifo'' 1)) x \<and> gos x 1 = Some Asleep \<and> pl_closed (pl x)
      \<and> (\<forall>y. pool_step x y \<longrightarrow> (\<exists>t p. outside (gos x) t \<and> gos y = (gos x)(t \<mapsto> p)))
      \<and> (\<forall>y. (\<lambda>a b. pool_step a b \<and> (\<forall>t. outside (gos a) t \<longrightarrow> gos b t \<noteq> Some Closing))\<^sup>*\<^sup>* x y \<longrightarrow> gos y 1 = Some Asleep)
      \<and> (\<exists>y. pool_step\<^sup>*\<^sup>* x y \<and> gos y 1 = Some Awake))"
proof (rule conjI)
  let ?x = "psys (demo_pool 0 False) [] None [0 \<mapsto> Returned, 1 \<mapsto> Asleep]"
  have q: "\<forall>t p. gos ?x t = Some p \<longrightarrow> p = Returned \<or> p = Asleep" by simp
  then have d: "dormant ?x" by (simp add: dormant_def)
  have sleeps: "gos ?x 1 = Some Asleep" "gos ?x 3 = None" "holder ?x = None" by simp_all
  have room: "pl_TotalConnections (pl ?x) < pl_maxTotalConnections (pl ?x)" "\<not> pl_closed (pl ?x)"
    by (simp_all add: demo_pass)
  show "\<exists>x. pool_step\<^sup>*\<^sup>* (pool_init (NewPool ''client-0'' 150 ''fifo'' 1)) x \<and> gos x 1 = Some Asleep
      \<and> pl_TotalConnections (pl x) < pl_maxTotalConnections (pl x) \<and> \<not> pl_closed (pl x)
      \<and> (\<forall>y. pool_step x y \<longrightarrow> (\<exists>t p. outside (gos x) t \<and> gos y = (gos x)(t \<mapsto> p)))
      \<and> (\<forall>y. (\<lambda>a b. pool_step a b \<and> (\<forall>t. outside (gos a) t \<longrightarrow> gos b t \<noteq> Some Entering \<and> gos b t \<noteq> Some Closing))\<^sup>*\<^sup>* x y
            \<longrightarrow> gos y 1 = Some Asleep)
      \<and> (\<exists>y. pool_step\<^sup>*\<^sup>* x y \<and> gos y 1 = Some Awake)"
    using demo_pick_lost sleeps(1) room quiescent_step [OF _ q] dormant_run [OF _ d sleeps(1)]
      close_wakes [OF sleeps(2,3,1)] by blast
next
  let ?x = "psys (demo_pool 1 True) [demo_conn\<lparr>conn_closed := True\<rparr>] None [0 \<mapsto> Returned, 1 \<mapsto> Asleep, 2 \<mapsto> Returned]"
  have q: "\<forall>t p. gos ?x t = Some p \<longrightarrow> p = Returned \<or> p = Asleep" by simp
  then have d: "dormant ?x" by (simp add: dormant_def)
  have sleeps: "gos ?x 1 = Some Asleep" "gos ?x 3 = None" "holder ?x = None" by simp_all
  have closed: "pl_closed (pl ?x)" by (simp add: demo_pass)
  show "\<exists>x. pool_step\<^sup>*\<^sup>* (pool_init (NewPool ''client-0'' 150 ''fifo'' 1)) x \<and> gos x 1 = Some Asleep \<and> pl_closed (pl x)
      \<and> (\<forall>y. pool_step x y \<longrightarrow> (\<exists>t p. outside (gos x) t \<and> gos y = (gos x)(t \<mapsto> p)))
      \<and> (\<forall>y. (\<lambda>a b. pool_step a b \<and> (\<forall>t. outside (gos a) t \<longrightarrow> gos b t \<noteq> Some Closing))\<^sup>*\<^sup>* x y \<longrightarrow> gos y 1 = Some Asleep)
      \<and> (\<exists>y. pool_step\<^sup>*\<^sup>* x y \<and> gos y 1 = Some Awake)"
    using demo_close_lost sleeps(1) closed quiescent_step [OF _ q] dormant_closed_run [OF _ d closed sleeps(1)]
      close_wakes [OF sleeps(2,3,1)] by blast
qed

theorem pool_lost_wakeups_witness:
  "\<exists>x. pool_step\<^sup>*\<^sup>* (pool_init (NewPool ''client-0'' 150 ''fifo'' 1)) x \<and> gos x 1 = Some Asleep \<and> pl_closed (pl x)"
  using pool_lost_wakeups by blast

end
