(* ===== verification/Client.thy ===== *)
theory Client
  imports Pool Balancer
begin

text \<open>
  The client of \<^verbatim>\<open>pkg/client/client.go\<close>. \<open>Client_Send\<close> is the whole of \<^verbatim>\<open>Send\<close> as one caller
  runs it, over the \<open>world\<close> it shares with others: the heap of connections, the load
  balancer and the transport. \<open>None\<close> is a caller asleep in \<^verbatim>\<open>pool.Get\<close>.

  Shown: every finished request is counted once as a success, as rate limited or as failed;
  no connection carries more requests than its limit; and in the mode with a connection per
  request every connection is closed again.
\<close>

record client_stats =
  cs_totalRequests :: int64
  cs_successfulRequests :: int64
  cs_rateLimitedRequests :: int64
  cs_failedRequests :: int64
  cs_connectionsOpened :: int64
  cs_connectionsClosed :: int64
  cs_totalLatencyNs :: int64

record client =
  cl_id :: string
  cl_pool :: pool
  cl_mode :: connection_mode
  cl_stats :: client_stats
  cl_headers :: "string \<rightharpoonup> string"
  cl_maxRequestsPerConn :: int64
  cl_closed :: bool
  cl_sem :: "int option"

record client_config =
  clc_ID :: string
  clc_ConnectionMode :: connection_mode
  clc_ConnectionPoolStrategy :: string
  clc_MaxConnsPerServer :: int
  clc_MaxRequestsPerConn :: int64
  clc_Headers :: "string \<rightharpoonup> string"
  clc_MaxConcurrency :: int
  clc_MaxConnections :: int

record 't world =
  wd_conns :: "connection list"
  wd_lb :: balancer
  wd_tp :: 't

definition NewClient :: "client_config \<Rightarrow> client" where
  "NewClient config =
     (let maxRequests = (if clc_MaxRequestsPerConn config \<le> 0 then 150 else clc_MaxRequestsPerConn config)
      in \<lparr>cl_id = clc_ID config,
          cl_pool = NewPool (clc_ID config) maxRequests (clc_ConnectionPoolStrategy config) (clc_MaxConnections config),
          cl_mode = clc_ConnectionMode config,
          cl_stats = \<lparr>cs_totalRequests = 0, cs_successfulRequests = 0, cs_rateLimitedRequests = 0,
            cs_failedRequests = 0, cs_connectionsOpened = 0, cs_connectionsClosed = 0, cs_totalLatencyNs = 0\<rparr>,
          cl_headers = clc_Headers config, cl_maxRequestsPerConn = maxRequests, cl_closed = False,
          cl_sem = (if 0 < clc_MaxConcurrency config then Some (clc_MaxConcurrency config) else None)\<rparr>)"

definition SetConnectionMode :: "client \<Rightarrow> connection_mode \<Rightarrow> client" where
  "SetConnectionMode c mode = c\<lparr>cl_mode := mode\<rparr>"

text \<open>\<^verbatim>\<open>atomic.AddInt64\<close> on one counter of the statistics.\<close>

datatype counter = CTotal | CSuccess | CLimited | CFailed | COpened | CClosed | CLatency int64

fun bump_stat :: "counter \<Rightarrow> client_stats \<Rightarrow> client_stats" where
  "bump_stat CTotal s = s\<lparr>cs_totalRequests := w64 (cs_totalRequests s + 1)\<rparr>"
| "bump_stat CSuccess s = s\<lparr>cs_successfulRequests := w64 (cs_successfulRequests s + 1)\<rparr>"
| "bump_stat CLimited s = s\<lparr>cs_rateLimitedRequests := w64 (cs_rateLimitedRequests s + 1)\<rparr>"
| "bump_stat CFailed s = s\<lparr>cs_failedRequests := w64 (cs_failedRequests s + 1)\<rparr>"
| "bump_stat COpened s = s\<lparr>cs_connectionsOpened := w64 (cs_connectionsOpened s + 1)\<rparr>"
| "bump_stat CClosed s = s\<lparr>cs_connectionsClosed := w64 (cs_connectionsClosed s + 1)\<rparr>"
| "bump_stat (CLatency d) s = s\<lparr>cs_totalLatencyNs := w64 (cs_totalLatencyNs s + d)\<rparr>"

definition bump :: "counter \<Rightarrow> client \<Rightarrow> client" where
  "bump k c = c\<lparr>cl_stats := bump_stat k (cl_stats c)\<rparr>"

section \<open>Where the connection comes from\<close>

text \<open>\<open>k\<close> is the random choice of the balancer, \<open>now\<close> the clock at the creation.\<close>

definition open_connection :: "client \<Rightarrow> 't world \<Rightarrow> nat \<Rightarrow> gotime \<Rightarrow> client \<times> 't world \<times> (error + nat)" where
  "open_connection c w k now =
     (case PickServer k (wd_lb w) of
        (lb, Inl err) \<Rightarrow> (c, w\<lparr>wd_lb := lb\<rparr>, Inl (Wrapped ''failed to pick server'' err))
      | (lb, Inr server) \<Rightarrow>
          (case Pool_Create (cl_pool c) now (si_ID server) of
             Inl err \<Rightarrow> (c, w\<lparr>wd_lb := lb\<rparr>, Inl (Wrapped ''failed to create connection'' err))
           | Inr conn \<Rightarrow>
               (bump COpened c, w\<lparr>wd_lb := lb, wd_conns := wd_conns w @ [conn]\<rparr>, Inr (length (wd_conns w)))))"

definition CreateDedicatedConnection :: "client \<Rightarrow> 't world \<Rightarrow> nat \<Rightarrow> gotime \<Rightarrow> client \<times> 't world \<times> (error + nat)" where
  "CreateDedicatedConnection c w k now = open_connection c w k now"

definition close_connection :: "'t transport_ops option \<Rightarrow> 't world \<Rightarrow> nat \<Rightarrow> 't world" where
  "close_connection ops w a =
     (let (t, conn) = Connection_Close ops (wd_tp w) (wd_conns w ! a)
      in w\<lparr>wd_tp := t, wd_conns := (wd_conns w)[a := conn]\<rparr>)"

definition put_connection :: "'t transport_ops option \<Rightarrow> client \<Rightarrow> 't world \<Rightarrow> nat \<Rightarrow> client \<times> 't world" where
  "put_connection ops c w a =
     (let (p, t, conns) = Pool_Put ops (cl_pool c) (wd_tp w) (wd_conns w) a
      in (c\<lparr>cl_pool := p\<rparr>, w\<lparr>wd_tp := t, wd_conns := conns\<rparr>))"

definition picker :: "nat \<Rightarrow> balancer \<Rightarrow> balancer \<times> (error + string)" where
  "picker k lb = (case PickServer k lb of (lb, Inl err) \<Rightarrow> (lb, Inl err) | (lb, Inr server) \<Rightarrow> (lb, Inr (si_ID server)))"

text \<open>The branches of the \<^verbatim>\<open>if\<close> on the mode, with the failures counted.\<close>

definition fail_with :: "client \<times> 't world \<times> (error + nat) \<Rightarrow> client \<times> 't world \<times> (error + nat)" where
  "fail_with r = (case r of (c, w, Inl err) \<Rightarrow> (bump CFailed c, w, Inl err) | _ \<Rightarrow> r)"

definition acquire_dedicated :: "'t transport_ops option \<Rightarrow> client \<Rightarrow> 't world \<Rightarrow> nat \<Rightarrow> gotime \<Rightarrow> nat option
    \<Rightarrow> client \<times> 't world \<times> (error + nat)" where
  "acquire_dedicated ops c w k now dedicated =
     (case dedicated of
        None \<Rightarrow> fail_with (CreateDedicatedConnection c w k now)
      | Some a \<Rightarrow>
          if conn_ShouldClose (wd_conns w ! a)
          then fail_with (CreateDedicatedConnection (bump CClosed c) (close_connection ops w a) k now)
          else (c, w, Inr a))"

definition acquire_pooled :: "client \<Rightarrow> 't world \<Rightarrow> nat \<Rightarrow> gotime
    \<Rightarrow> (client \<times> 't world \<times> (error + nat)) option" where
  "acquire_pooled c w k now =
     (case Pool_Get (cl_pool c) (wd_conns w) (picker k) (wd_lb w) now of
        None \<Rightarrow> None
      | Some (p, conns, lb, Inl err) \<Rightarrow>
          Some (bump CFailed (c\<lparr>cl_pool := p\<rparr>), w\<lparr>wd_conns := conns, wd_lb := lb\<rparr>,
                Inl (Wrapped ''failed to get connection'' err))
      | Some (p, conns, lb, Inr a) \<Rightarrow>
          Some (bump COpened (c\<lparr>cl_pool := p\<rparr>), w\<lparr>wd_conns := conns, wd_lb := lb\<rparr>, Inr a))"

definition use_pool :: "client \<Rightarrow> bool" where
  "use_pool c = (case cl_mode c of
       ConnectionModeReuse \<Rightarrow> True
     | ConnectionModePerRequest \<Rightarrow> False
     | ConnectionModeHybrid \<Rightarrow> remn (cs_totalRequests (cl_stats c)) 10 \<noteq> 0
     | ConnectionModeDedicated \<Rightarrow> False)"

definition acquire :: "'t transport_ops option \<Rightarrow> client \<Rightarrow> 't world \<Rightarrow> nat \<Rightarrow> gotime \<Rightarrow> nat option
    \<Rightarrow> (client \<times> 't world \<times> (error + nat)) option" where
  "acquire ops c w k now dedicated =
     (if cl_mode c = ConnectionModeDedicated then Some (acquire_dedicated ops c w k now dedicated)
      else if use_pool c then acquire_pooled c w k now
      else Some (fail_with (open_connection c w k now)))"

section \<open>Sending\<close>

text \<open>What happens to the connection once the transport has answered.\<close>

definition release_failed :: "'t transport_ops option \<Rightarrow> bool \<Rightarrow> client \<Rightarrow> 't world \<Rightarrow> nat \<Rightarrow> client \<times> 't world" where
  "release_failed ops usePool c w a =
     (if usePool then put_connection ops c w a else (bump CClosed c, close_connection ops w a))"

definition release :: "'t transport_ops option \<Rightarrow> connection_mode \<Rightarrow> bool \<Rightarrow> client \<Rightarrow> 't world \<Rightarrow> nat \<Rightarrow> response
    \<Rightarrow> client \<times> 't world \<times> response" where
  "release ops mode usePool c w a resp =
     (if ShouldClose resp \<or> conn_ShouldClose (wd_conns w ! a)
      then if mode = ConnectionModeDedicated
           then (bump CClosed c, close_connection ops w a, resp\<lparr>ShouldClose := True\<rparr>)
           else if usePool
           then (let (c, w) = put_connection ops c w a in (bump CClosed c, w, resp))
           else (bump CClosed c, close_connection ops w a, resp)
      else if usePool then (let (c, w) = put_connection ops c w a in (c, w, resp))
      else if mode \<noteq> ConnectionModeDedicated then (bump CClosed c, close_connection ops w a, resp)
      else (c, w, resp))"

record send_clock =
  sd_start :: gotime
  sd_connect :: gotime
  sd_done :: gotime
  sd_choice :: nat

text \<open>
  \<open>dedicated\<close> is the connection in the context; \<open>acquired\<close> says that a slot of the semaphore
  was free before the context was done.
\<close>

definition Client_Send :: "'t transport_ops option \<Rightarrow> client \<Rightarrow> 't world \<Rightarrow> send_clock \<Rightarrow> nat option \<Rightarrow> bool
    \<Rightarrow> request \<Rightarrow> (client \<times> 't world \<times> (error + response)) option" where
  "Client_Send ops c w clk dedicated acquired req =
     (if cl_closed c then Some (c, w, Inl ClientClosed)
      else if cl_sem c \<noteq> None \<and> \<not> acquired then Some (c, w, Inl ContextDone)
      else
      let c = bump CTotal c;
          req = req\<lparr>req_Headers := cl_headers c ++ req_Headers req, req_ClientID := cl_id c\<rparr>;
          mode = cl_mode c;
          usePool = use_pool c
      in case acquire ops c w (sd_choice clk) (sd_connect clk) dedicated of
           None \<Rightarrow> None
         | Some (c, w, Inl err) \<Rightarrow> Some (c, w, Inl err)
         | Some (c, w, Inr a) \<Rightarrow>
             (let (t, conn, r) = Connection_Send ops (wd_tp w) (wd_conns w ! a) req;
                  w = w\<lparr>wd_tp := t, wd_conns := (wd_conns w)[a := conn]\<rparr>;
                  latency = time_sub (sd_done clk) (sd_start clk);
                  c = bump (CLatency latency) c
              in case r of
                   Inl err \<Rightarrow>
                     (let (c, w) = release_failed ops usePool (bump CFailed c) w a in Some (c, w, Inl err))
                 | Inr resp \<Rightarrow>
                     (let c = bump (if RateLimited resp then CLimited else CSuccess) c;
                          (c, w, resp) = release ops mode usePool c w a resp
                      in Some (c, w, Inr (resp\<lparr>ProcessingTime := latency\<rparr>)))))"

record client_stats_view =
  cv_TotalRequests :: int64
  cv_SuccessfulRequests :: int64
  cv_RateLimitedRequests :: int64
  cv_FailedRequests :: int64
  cv_ConnectionsOpened :: int64
  cv_ConnectionsClosed :: int64
  cv_AvgLatency :: duration

definition Client_Stats :: "client \<Rightarrow> client_stats_view" where
  "Client_Stats c =
     (let s = cl_stats c; total = cs_totalRequests s
      in \<lparr>cv_TotalRequests = total, cv_SuccessfulRequests = cs_successfulRequests s,
          cv_RateLimitedRequests = cs_rateLimitedRequests s, cv_FailedRequests = cs_failedRequests s,
          cv_ConnectionsOpened = cs_connectionsOpened s, cv_ConnectionsClosed = cs_connectionsClosed s,
          cv_AvgLatency = (if 0 < total then quot (cs_totalLatencyNs s) total else 0)\<rparr>)"

definition Client_Close :: "'t transport_ops option \<Rightarrow> client \<Rightarrow> 't world \<Rightarrow> client \<times> 't world" where
  "Client_Close ops c w =
     (let (p, t, conns) = Pool_Close ops (cl_pool c) (wd_tp w) (wd_conns w)
      in (c\<lparr>cl_closed := True, cl_pool := p\<rparr>, w\<lparr>wd_tp := t, wd_conns := conns\<rparr>))"

section \<open>The counters\<close>

text \<open>The three ways a request can end, and the requests that began.\<close>

definition outcomes :: "client \<Rightarrow> int64 \<times> int64 \<times> int64 \<times> int64" where
  "outcomes c = (cs_totalRequests (cl_stats c), cs_successfulRequests (cl_stats c),
     cs_rateLimitedRequests (cl_stats c), cs_failedRequests (cl_stats c))"

lemma outcomes_simps [simp]:
  "outcomes (bump COpened c) = outcomes c" "outcomes (bump CClosed c) = outcomes c"
  "outcomes (bump (CLatency d) c) = outcomes c" "outcomes (c\<lparr>cl_pool := p\<rparr>) = outcomes c"
  by (simp_all add: outcomes_def bump_def)

lemma put_outcomes: "put_connection ops c w a = (c', w') \<Longrightarrow> outcomes c' = outcomes c"
  by (auto simp: put_connection_def Let_def split: prod.splits)

lemma open_outcomes: "open_connection c w k now = (c', w', r) \<Longrightarrow> outcomes c' = outcomes c"
  by (auto simp: open_connection_def split: prod.splits sum.splits)

definition fail_outcome :: "int64 \<times> int64 \<times> int64 \<times> int64 \<Rightarrow> int64 \<times> int64 \<times> int64 \<times> int64" where
  "fail_outcome = (\<lambda>(t, s, l, f). (t, s, l, w64 (f + 1)))"

lemma outcomes_failed: "outcomes (bump CFailed c) = fail_outcome (outcomes c)"
  by (simp add: outcomes_def bump_def fail_outcome_def)

lemma fail_with_outcomes:
  "fail_with (c, w, r) = (c', w', r') \<Longrightarrow> r' = r \<and> outcomes c' = (if isl r then fail_outcome (outcomes c) else outcomes c)"
  by (auto simp: fail_with_def outcomes_failed split: sum.splits)

lemma acquire_outcomes:
  assumes "acquire ops c w k now dedicated = Some (c', w', r)"
  shows "outcomes c' = (if isl r then fail_outcome (outcomes c) else outcomes c)"
proof (cases "cl_mode c = ConnectionModeDedicated")
  case True
  obtain d e f where o1: "open_connection c w k now = (d, e, f)" by (metis prod_cases3)
  obtain g h i where o2: "open_connection (bump CClosed c) (close_connection ops w (the dedicated)) k now = (g, h, i)"
    by (metis prod_cases3)
  show ?thesis
    using assms True o1 o2 open_outcomes [OF o1] open_outcomes [OF o2] fail_with_outcomes [of d e f c' w' r]
      fail_with_outcomes [of g h i c' w' r]
    by (auto simp: acquire_def acquire_dedicated_def CreateDedicatedConnection_def split: option.splits if_splits)
next
  case False
  obtain d e f where o1: "open_connection c w k now = (d, e, f)" by (metis prod_cases3)
  show ?thesis
  proof (cases "use_pool c")
    case True
    with False assms show ?thesis
      by (auto simp: acquire_def acquire_pooled_def outcomes_failed split: option.splits sum.splits)
  next
    case nopool: False
    with False assms o1 open_outcomes [OF o1] fail_with_outcomes [of d e f c' w' r] show ?thesis
      by (auto simp: acquire_def)
  qed
qed

lemma release_outcomes: "release ops mode u c w a resp = (c', w', resp') \<Longrightarrow> outcomes c' = outcomes c"
  by (auto simp: release_def put_outcomes split: if_splits prod.splits)

lemma release_failed_outcomes: "release_failed ops u c w a = (c', w') \<Longrightarrow> outcomes c' = outcomes c"
  by (auto simp: release_failed_def put_outcomes split: if_splits)

definition balanced :: "client \<Rightarrow> bool" where
  "balanced c \<longleftrightarrow> (case outcomes c of (t, s, l, f) \<Rightarrow> t = w64 (s + l + f))"

text \<open>What one call counts: the request and, by what it returns, its outcome.\<close>

fun outcome_counts :: "error + response \<Rightarrow> int64 \<times> int64 \<times> int64 \<times> int64 \<Rightarrow> int64 \<times> int64 \<times> int64 \<times> int64" where
  "outcome_counts (Inl err) (t, s, l, f) = (w64 (t + 1), s, l, w64 (f + 1))"
| "outcome_counts (Inr resp) (t, s, l, f) =
     (if RateLimited resp then (w64 (t + 1), s, w64 (l + 1), f) else (w64 (t + 1), w64 (s + 1), l, f))"

lemma release_limited: "release ops mode u c w a resp = (c', w', resp') \<Longrightarrow> RateLimited resp' = RateLimited resp"
  by (auto simp: release_def split: if_splits prod.splits)

lemma release_answer:
  "release ops mode u c w a resp = (c', w', resp') \<Longrightarrow> outcomes c' = outcomes c \<and> RateLimited resp' = RateLimited resp"
  by (simp add: release_outcomes release_limited)

lemma send_outcomes:
  assumes "Client_Send ops c w clk dedicated acquired req = Some (c', w', r)"
  shows "outcomes c' = (if cl_closed c \<or> cl_sem c \<noteq> None \<and> \<not> acquired then outcomes c else outcome_counts r (outcomes c))
    \<and> (cl_closed c \<or> cl_sem c \<noteq> None \<and> \<not> acquired \<longrightarrow> isl r)"
proof (cases "cl_closed c \<or> cl_sem c \<noteq> None \<and> \<not> acquired")
  case True
  then show ?thesis using assms by (cases "cl_closed c") (auto simp: Client_Send_def)
next
  case False
  obtain t s l f where o: "outcomes c = (t, s, l, f)" by (metis prod_cases4)
  have b: "outcomes (bump CTotal c) = (w64 (t + 1), s, l, f)" using o by (simp add: outcomes_def bump_def)
  obtain c1 w1 r1 where a: "acquire ops (bump CTotal c) w (sd_choice clk) (sd_connect clk) dedicated = Some (c1, w1, r1)"
    using assms False by (auto simp: Client_Send_def Let_def split: option.splits)
  note oa = acquire_outcomes [OF a]
  show ?thesis
  proof (cases r1)
    case (Inl err)
    then have "c' = c1" "r = Inl err" using assms False a by (auto simp: Client_Send_def Let_def)
    then show ?thesis using False oa b o Inl by (auto simp: fail_outcome_def)
  next
    case (Inr x)
    let ?req = "req\<lparr>req_Headers := cl_headers (bump CTotal c) ++ req_Headers req, req_ClientID := cl_id (bump CTotal c)\<rparr>"
    obtain tp conn rs where s: "Connection_Send ops (wd_tp w1) (wd_conns w1 ! x) ?req = (tp, conn, rs)"
      by (metis prod_cases3)
    have "outcomes c' = outcome_counts r (outcomes c)"
      using assms False a Inr s oa b o
      by (cases rs)
        (auto simp: Client_Send_def Let_def outcomes_failed fail_outcome_def bump_def outcomes_def
          dest!: release_failed_outcomes release_answer split: prod.splits if_splits)
    then show ?thesis using False by auto
  qed
qed

lemma send_balanced:
  assumes "Client_Send ops c w clk dedicated acquired req = Some (c', w', r)" and "balanced c"
  shows "balanced c'"
  using send_outcomes [OF assms(1)] assms(2)
  by (cases r) (auto simp: balanced_def ac_simps split: prod.splits if_splits)

text \<open>A sequence of calls, each with its inputs; \<open>None\<close> if a call does not return.\<close>

type_synonym call = "send_clock \<times> nat option \<times> bool \<times> request \<times> connection_mode"

fun client_run :: "'t transport_ops option \<Rightarrow> client \<Rightarrow> 't world \<Rightarrow> call list
    \<Rightarrow> (client \<times> 't world \<times> (error + response) list) option" where
  "client_run ops c w [] = Some (c, w, [])"
| "client_run ops c w ((clk, dedicated, acquired, req, mode) # cs) =
     (case Client_Send ops (SetConnectionMode c mode) w clk dedicated acquired req of
        None \<Rightarrow> None
      | Some (c, w, r) \<Rightarrow> map_option (\<lambda>(c, w, rs). (c, w, r # rs)) (client_run ops c w cs))"

lemma run_balanced: "client_run ops c w cs = Some (c', w', rs) \<Longrightarrow> balanced c \<Longrightarrow> balanced c'"
proof (induction cs arbitrary: c w rs)
  case (Cons x cs)
  obtain clk dedicated acquired req mode where x: "x = (clk, dedicated, acquired, req, mode)" by (metis prod_cases5)
  have "balanced (SetConnectionMode c mode)" using Cons.prems(2)
    by (simp add: balanced_def outcomes_def SetConnectionMode_def)
  then show ?case using Cons.prems(1) Cons.IH send_balanced
    by (fastforce simp: x split: option.splits prod.splits)
qed simp

section \<open>The connections\<close>

definition conn_ok :: "connection \<Rightarrow> bool" where
  "conn_ok d \<longleftrightarrow> 0 \<le> conn_requestCount d \<and> conn_requestCount d \<le> conn_maxRequests d
     \<and> 0 < conn_maxRequests d \<and> conn_maxRequests d < 2 ^ 63"

text \<open>
  The open connections are the idle ones and those of \<open>X\<close>, the one in use; the idle ones
  have requests left; none has more than its limit.
\<close>

definition conns_inv :: "client \<Rightarrow> 't world \<Rightarrow> nat set \<Rightarrow> bool" where
  "conns_inv c w X \<longleftrightarrow> distinct (idleConnections (cl_pool c)) \<and> X \<inter> set (idleConnections (cl_pool c)) = {}
     \<and> set (idleConnections (cl_pool c)) \<union> X \<subseteq> {..<length (wd_conns w)}
     \<and> (\<forall>a\<in>set (idleConnections (cl_pool c)). \<not> conn_ShouldClose (wd_conns w ! a))
     \<and> (\<forall>a<length (wd_conns w). conn_ok (wd_conns w ! a)
          \<and> (\<not> conn_closed (wd_conns w ! a) \<longleftrightarrow> a \<in> set (idleConnections (cl_pool c)) \<union> X))
     \<and> 0 < pl_maxRequestsPerConn (cl_pool c) \<and> pl_maxRequestsPerConn (cl_pool c) < 2 ^ 63 \<and> \<not> pl_closed (cl_pool c)"

lemma conns_inv_cong:
  "cl_pool c' = cl_pool c \<Longrightarrow> wd_conns w' = wd_conns w \<Longrightarrow> conns_inv c' w' X = conns_inv c w X"
  by (simp add: conns_inv_def)

lemma bump_pool [simp]: "cl_pool (bump k c) = cl_pool c" "cl_mode (bump k c) = cl_mode c"
  by (simp_all add: bump_def)

text \<open>A new connection joins the heap.\<close>

lemma conns_inv_new:
  assumes "conns_inv c w {}" and "cl_pool c' = cl_pool c"
    and "wd_conns w' = wd_conns w @ [NewConnection now i serverID (pl_maxRequestsPerConn (cl_pool c))]"
  shows "conns_inv c' w' {length (wd_conns w)} \<and> \<not> conn_ShouldClose (wd_conns w' ! length (wd_conns w))"
  using assms
  by (auto simp: conns_inv_def nth_append less_Suc_eq NewConnection_def conn_ok_def conn_ShouldClose_def)

lemma open_conns:
  assumes "open_connection c w k now = (c', w', r)" and "conns_inv c w {}"
  shows "case r of Inl _ \<Rightarrow> conns_inv c' w' {}
    | Inr a \<Rightarrow> conns_inv c' w' {a} \<and> \<not> conn_ShouldClose (wd_conns w' ! a)"
proof -
  obtain lb pr where p: "PickServer k (wd_lb w) = (lb, pr)" by fastforce
  show ?thesis
  proof (cases pr)
    case (Inl err)
    then show ?thesis using assms p by (auto simp: open_connection_def conns_inv_def)
  next
    case (Inr server)
    have "\<not> pl_closed (cl_pool c)" using assms(2) by (simp add: conns_inv_def)
    then have "c' = bump COpened c" "r = Inr (length (wd_conns w))"
      "wd_conns w' = wd_conns w @ [NewConnection now (new_conn_id (cl_pool c) (si_ID server) now) (si_ID server)
         (pl_maxRequestsPerConn (cl_pool c))]"
      using assms(1) p Inr by (auto simp: open_connection_def Pool_Create_def)
    then show ?thesis using conns_inv_new [OF assms(2), of c' w'] by simp
  qed
qed

lemma fail_with_pool:
  "fail_with (c, w, r) = (c', w', r') \<Longrightarrow> cl_pool c' = cl_pool c \<and> w' = w \<and> r' = r"
  by (auto simp: fail_with_def split: sum.splits)

lemma pooled_conns:
  assumes "acquire_pooled c w k now = Some (c', w', r)" and "conns_inv c w {}"
  shows "case r of Inl _ \<Rightarrow> conns_inv c' w' {}
    | Inr a \<Rightarrow> conns_inv c' w' {a} \<and> \<not> conn_ShouldClose (wd_conns w' ! a)"
proof -
  have nc: "\<not> pl_closed (cl_pool c)" using assms(2) by (simp add: conns_inv_def)
  obtain p oc where g: "get_pass (cl_pool c) = (p, oc)" by fastforce
  obtain lb pr where pk: "picker k (wd_lb w) = (lb, pr)" by fastforce
  show ?thesis using g
  proof (cases rule: get_pass_cases)
    case reserved
    have m: "pl_maxRequestsPerConn p = pl_maxRequestsPerConn (cl_pool c)"
      by (simp add: reserved add_connections_def)
    show ?thesis
    proof (cases pr)
      case (Inl err)
      then have "cl_pool c' = add_connections (-1) p" "wd_conns w' = wd_conns w" "\<exists>e. r = Inl e"
        using assms(1) nc g pk reserved(1) by (auto simp: acquire_pooled_def Pool_Get_def)
      then show ?thesis using assms(2) reserved by (auto simp: conns_inv_def add_connections_def)
    next
      case (Inr serverID)
      then have c': "cl_pool c' = p" "r = Inr (length (wd_conns w))"
        "wd_conns w' = wd_conns w @ [NewConnection now (new_conn_id p serverID now) serverID (pl_maxRequestsPerConn p)]"
        using assms(1) nc g pk reserved(1) by (auto simp: acquire_pooled_def Pool_Get_def Let_def)
      have "conns_inv (c\<lparr>cl_pool := p\<rparr>) w {}"
        using assms(2) reserved by (simp add: conns_inv_def add_connections_def)
      from conns_inv_new [OF this, of c' w'] show ?thesis using c' m by simp
    qed
  next
    case (reused a xs ys)
    then have "cl_pool c' = p" "wd_conns w' = wd_conns w" "r = Inr a"
      using assms(1) nc g by (auto simp: acquire_pooled_def Pool_Get_def)
    then show ?thesis using assms(2) reused by (auto simp: conns_inv_def)
  next
    case must_wait
    then show ?thesis using assms(1) nc g by (simp add: acquire_pooled_def Pool_Get_def)
  qed
qed

lemma acquire_conns:
  assumes "acquire ops c w k now dedicated = Some (c', w', r)" and "conns_inv c w {}"
    and "cl_mode c \<noteq> ConnectionModeDedicated"
  shows "case r of Inl _ \<Rightarrow> conns_inv c' w' {}
    | Inr a \<Rightarrow> conns_inv c' w' {a} \<and> \<not> conn_ShouldClose (wd_conns w' ! a)"
proof (cases "use_pool c")
  case True
  then show ?thesis using assms pooled_conns by (auto simp: acquire_def)
next
  case False
  obtain c1 w1 r1 where o: "open_connection c w k now = (c1, w1, r1)" by (metis prod_cases3)
  have "fail_with (c1, w1, r1) = (c', w', r)" using assms False o by (auto simp: acquire_def)
  from fail_with_pool [OF this] have f: "cl_pool c' = cl_pool c1" "w' = w1" "r = r1" by auto
  show ?thesis
    using open_conns [OF o assms(2)] f conns_inv_cong [OF f(1), of w1 w1]
    by (auto split: sum.splits)
qed

lemma conn_send_cases:
  assumes "Connection_Send ops t d req = (t', d', r)"
  shows "d' = d \<and> conn_closed d \<or> d' = d\<lparr>conn_requestCount := w64 (conn_requestCount d + 1)\<rparr>"
  using assms by (auto simp: Connection_Send_def IncrementRequests_def Let_def split: if_splits option.splits
      prod.splits sum.splits)

lemma send_conns:
  assumes "conns_inv c w {a}" and "\<not> conn_ShouldClose (wd_conns w ! a)"
    and "Connection_Send ops t (wd_conns w ! a) req = (t', d, r)" and "cl_pool c' = cl_pool c"
  shows "conns_inv c' (w\<lparr>wd_tp := t', wd_conns := (wd_conns w)[a := d]\<rparr>) {a}"
proof -
  have a: "a < length (wd_conns w)" "conn_ok (wd_conns w ! a)" "\<not> conn_closed (wd_conns w ! a)"
    using assms(1) by (auto simp: conns_inv_def)
  then have d: "d = (wd_conns w ! a)\<lparr>conn_requestCount := conn_requestCount (wd_conns w ! a) + 1\<rparr>"
    using conn_send_cases [OF assms(3)] assms(2)
    by (auto simp: conn_ok_def conn_ShouldClose_def w64_id in64_def)
  have "conn_ok d" using a assms(2) by (auto simp: d conn_ok_def conn_ShouldClose_def)
  then show ?thesis
    using assms(1,4) a by (auto simp: conns_inv_def nth_list_update d)
qed

lemma conn_close_sel:
  "conn_closed (snd (Connection_Close ops t d))" "conn_ok (snd (Connection_Close ops t d)) = conn_ok d"
  by (auto simp: Connection_Close_def conn_ok_def)

lemma close_conns:
  assumes "conns_inv c w {a}" and "cl_pool c' = cl_pool c"
  shows "conns_inv c' (close_connection ops w a) {}"
  using assms conn_close_sel [of ops "wd_tp w" "wd_conns w ! a"]
  by (auto simp: conns_inv_def close_connection_def Let_def case_prod_beta nth_list_update)

lemma put_conns:
  assumes "conns_inv c w {a}" and "put_connection ops c w a = (c', w')"
  shows "conns_inv c' w' {}"
proof -
  have nc: "\<not> pl_closed (cl_pool c)" using assms(1) by (simp add: conns_inv_def)
  show ?thesis
  proof (cases "conn_ShouldClose (wd_conns w ! a)")
    case True
    then have "cl_pool c' = add_connections (-1) (cl_pool c)" "w' = close_connection ops w a"
      using assms(2) nc by (auto simp: put_connection_def Pool_Put_def put_pass_def close_connection_def Let_def
          case_prod_beta)
    moreover have "conns_inv (c\<lparr>cl_pool := add_connections (-1) (cl_pool c)\<rparr>) w {a}"
      using assms(1) by (simp add: conns_inv_def add_connections_def)
    ultimately show ?thesis using close_conns by fastforce
  next
    case False
    then have "c' = c\<lparr>cl_pool := (cl_pool c)\<lparr>idleConnections := idleConnections (cl_pool c) @ [a]\<rparr>\<rparr>" "w' = w"
      using assms(2) nc by (auto simp: put_connection_def Pool_Put_def put_pass_def Let_def)
    then show ?thesis using assms(1) False by (auto simp: conns_inv_def)
  qed
qed

lemma release_conns:
  assumes "release ops mode u c w a resp = (c', w', resp')" and "conns_inv c w {a}" and "mode \<noteq> ConnectionModeDedicated"
  shows "conns_inv c' w' {}"
proof -
  obtain c1 w1 where p: "put_connection ops c w a = (c1, w1)" by fastforce
  have q: "conns_inv c1 w1 {}" "conns_inv (bump CClosed c1) w1 {}"
    using put_conns [OF assms(2) p] conns_inv_cong [of "bump CClosed c1" c1 w1 w1] by simp_all
  have "conns_inv (bump CClosed c) (close_connection ops w a) {}" by (rule close_conns [OF assms(2)]) simp
  then show ?thesis using assms(1,3) p q by (auto simp: release_def split: if_splits)
qed

lemma release_failed_conns:
  assumes "release_failed ops u c w a = (c', w')" and "conns_inv c w {a}"
  shows "conns_inv c' w' {}"
proof -
  obtain c1 w1 where p: "put_connection ops c w a = (c1, w1)" by fastforce
  have "conns_inv (bump CClosed c) (close_connection ops w a) {}" by (rule close_conns [OF assms(2)]) simp
  then show ?thesis using assms(1) put_conns [OF assms(2) p] p by (auto simp: release_failed_def split: if_splits)
qed

lemma client_send_conns:
  assumes "Client_Send ops c w clk dedicated acquired req = Some (c', w', r)" and inv: "conns_inv c w {}"
    and mode: "cl_mode c \<noteq> ConnectionModeDedicated"
  shows "conns_inv c' w' {}"
proof (cases "cl_closed c \<or> cl_sem c \<noteq> None \<and> \<not> acquired")
  case True
  then show ?thesis using assms by (cases "cl_closed c") (auto simp: Client_Send_def)
next
  case False
  have inv1: "conns_inv (bump CTotal c) w {}" using inv conns_inv_cong [of "bump CTotal c" c w w] by simp
  obtain c1 w1 r1 where a: "acquire ops (bump CTotal c) w (sd_choice clk) (sd_connect clk) dedicated = Some (c1, w1, r1)"
    using assms(1) False by (auto simp: Client_Send_def Let_def split: option.splits)
  have acq: "case r1 of Inl _ \<Rightarrow> conns_inv c1 w1 {}
    | Inr a \<Rightarrow> conns_inv c1 w1 {a} \<and> \<not> conn_ShouldClose (wd_conns w1 ! a)"
    using acquire_conns [OF a inv1] mode by simp
  show ?thesis
  proof (cases r1)
    case (Inl err)
    then show ?thesis using assms(1) False a acq by (auto simp: Client_Send_def Let_def)
  next
    case (Inr x)
    let ?req = "req\<lparr>req_Headers := cl_headers (bump CTotal c) ++ req_Headers req, req_ClientID := cl_id (bump CTotal c)\<rparr>"
    let ?lat = "time_sub (sd_done clk) (sd_start clk)"
    obtain tp d rs where s: "Connection_Send ops (wd_tp w1) (wd_conns w1 ! x) ?req = (tp, d, rs)"
      by (metis prod_cases3)
    let ?w = "w1\<lparr>wd_tp := tp, wd_conns := (wd_conns w1)[x := d]\<rparr>"
    have held: "conns_inv c1 w1 {x}" "\<not> conn_ShouldClose (wd_conns w1 ! x)" using acq Inr by simp_all
    have sent: "cl_pool c2 = cl_pool c1 \<Longrightarrow> conns_inv c2 ?w {x}" for c2
      by (rule send_conns [OF held s])
    show ?thesis
    proof (cases rs)
      case (Inl err)
      obtain c2 w2 where f: "release_failed ops (use_pool (bump CTotal c)) (bump CFailed (bump (CLatency ?lat) c1)) ?w x
          = (c2, w2)" by fastforce
      then have "c' = c2" "w' = w2" using assms(1) False a \<open>r1 = Inr x\<close> s Inl by (auto simp: Client_Send_def Let_def)
      then show ?thesis using release_failed_conns [OF f sent] by simp
    next
      case (Inr resp)
      let ?c = "bump (if RateLimited resp then CLimited else CSuccess) (bump (CLatency ?lat) c1)"
      obtain c2 w2 resp2 where f: "release ops (cl_mode c) (use_pool (bump CTotal c)) ?c ?w x resp = (c2, w2, resp2)"
        by (metis prod_cases3)
      then have "c' = c2" "w' = w2" using assms(1) False a \<open>r1 = Inr x\<close> s Inr by (auto simp: Client_Send_def Let_def)
      then show ?thesis using release_conns [OF f sent mode] by simp
    qed
  qed
qed

lemma client_run_conns:
  "client_run ops c w cs = Some (c', w', rs) \<Longrightarrow> conns_inv c w {} \<Longrightarrow>
    \<forall>(_, _, _, _, mode)\<in>set cs. mode \<noteq> ConnectionModeDedicated \<Longrightarrow> conns_inv c' w' {}"
proof (induction cs arbitrary: c w rs)
  case (Cons x cs)
  obtain clk dedicated acquired req mode where x: "x = (clk, dedicated, acquired, req, mode)" by (metis prod_cases5)
  obtain c1 w1 r1 where s: "Client_Send ops (SetConnectionMode c mode) w clk dedicated acquired req = Some (c1, w1, r1)"
    using Cons.prems(1) by (auto simp: x split: option.splits)
  obtain rs1 where run: "client_run ops c1 w1 cs = Some (c', w', rs1)"
    using Cons.prems(1) s by (auto simp: x)
  have "conns_inv (SetConnectionMode c mode) w {}"
    using Cons.prems(2) conns_inv_cong [of "SetConnectionMode c mode" c w w] by (simp add: SetConnectionMode_def)
  moreover have "cl_mode (SetConnectionMode c mode) \<noteq> ConnectionModeDedicated"
    using Cons.prems(3) by (simp add: x SetConnectionMode_def)
  ultimately have "conns_inv c1 w1 {}" using client_send_conns [OF s] by blast
  then show ?case using Cons.IH [OF run] Cons.prems(3) by simp
qed simp

section \<open>A sample client\<close>

text \<open>One server, a transport that admits everything, a limit of two requests per connection.\<close>

definition demo_ops :: "nat transport_ops option" where
  "demo_ops = Some \<lparr>tp_Send = (\<lambda>t serverID connID req. (Suc t, Inr \<lparr>RequestID = req_ID req, StatusCode = 200,
       resp_Headers = Map.empty, RateLimited = False, ShouldClose = False, resp_Timestamp = now_at 0 0,
       ProcessingTime = 0\<rparr>)),
     tp_CloseConnection = (\<lambda>t serverID connID. t)\<rparr>"

definition demo_client :: client where
  "demo_client = NewClient \<lparr>clc_ID = ''client-0'', clc_ConnectionMode = ConnectionModeReuse,
     clc_ConnectionPoolStrategy = ''fifo'', clc_MaxConnsPerServer = 10, clc_MaxRequestsPerConn = 2,
     clc_Headers = Map.empty, clc_MaxConcurrency = 1, clc_MaxConnections = 1\<rparr>"

definition demo_world :: "nat world" where
  "demo_world = \<lparr>wd_conns = [], wd_lb = RoundRobin \<lparr>rr_base = \<lparr>servers = [demo_server ''a'' 1]\<rparr>, rr_current = 0\<rparr>,
     wd_tp = 0\<rparr>"

definition demo_call :: "connection_mode \<Rightarrow> call" where
  "demo_call mode = (\<lparr>sd_start = now_at 0 0, sd_connect = now_at 1 1, sd_done = now_at 5 5, sd_choice = 0\<rparr>,
     None, True, \<lparr>req_ID = ''req'', req_ClientID = [], req_Headers = Map.empty, req_Timestamp = now_at 0 0\<rparr>, mode)"

lemmas demo_client_defs = demo_ops_def demo_client_def demo_world_def demo_call_def demo_server_def
  NewClient_def NewPool_def SetConnectionMode_def Client_Send_def bump_def use_pool_def acquire_def
  acquire_pooled_def Pool_Get_def get_pass_def limit_pass_def take_idle_def picker_def open_connection_def
  RoundRobin_PickServer_def getHealthyServers_def Pool_Create_def fail_with_def Connection_Send_def
  IncrementRequests_def NewConnection_def release_def conn_ShouldClose_def put_connection_def Pool_Put_def
  put_pass_def close_connection_def Connection_Close_def add_connections_def w64_id in64_def remn_def quot_def

lemma demo_client_run: "\<exists>c w' rs. client_run demo_ops demo_client demo_world
    [demo_call ConnectionModeReuse, demo_call ConnectionModePerRequest] = Some (c, w', rs)
    \<and> length (wd_conns w') = 2 \<and> cs_successfulRequests (cl_stats c) = 2"
  by (simp add: demo_client_defs Let_def)

section \<open>Properties\<close>

text \<open>
  Client accounting. After any sequence of calls that return, whatever the modes, the
  transport and the balancer do, the requests begun are the successes, the rate limited and
  the failed ones together.
\<close>

lemma client_accounting:
  assumes "client_run ops (NewClient config) w cs = Some (c, w', rs)"
  shows "cs_totalRequests (cl_stats c) = w64 (cs_successfulRequests (cl_stats c)
    + cs_rateLimitedRequests (cl_stats c) + cs_failedRequests (cl_stats c))"
proof -
  have "balanced (NewClient config)"
    by (simp add: balanced_def outcomes_def NewClient_def Let_def w64_id in64_def)
  from run_balanced [OF assms this] show ?thesis by (simp add: balanced_def outcomes_def)
qed

lemma client_accounting_witness:
  "\<exists>c w' rs. client_run demo_ops demo_client demo_world
      [demo_call ConnectionModeReuse, demo_call ConnectionModePerRequest] = Some (c, w', rs)
    \<and> cs_totalRequests (cl_stats c) = w64 (cs_successfulRequests (cl_stats c)
      + cs_rateLimitedRequests (cl_stats c) + cs_failedRequests (cl_stats c))"
  using demo_client_run client_accounting [of demo_ops _ demo_world
      "[demo_call ConnectionModeReuse, demo_call ConnectionModePerRequest]", folded demo_client_def]
  unfolding demo_client_def by blast

text \<open>
  Connections are neither overused nor leaked. For a client with its own connections, in
  the reuse, per-request and hybrid modes and any changes between them, no connection has
  carried more requests than its limit, and after every call the open connections are exactly
  the idle ones of the pool.
\<close>

lemma client_connections:
  assumes "client_run ops (NewClient config) w cs = Some (c, w', rs)" and "wd_conns w = []"
    and "clc_MaxRequestsPerConn config < 2 ^ 63"
    and "\<forall>(_, _, _, _, mode)\<in>set cs. mode \<noteq> ConnectionModeDedicated"
  shows "\<forall>a<length (wd_conns w'). conn_requestCount (wd_conns w' ! a) \<le> conn_maxRequests (wd_conns w' ! a)
    \<and> (\<not> conn_closed (wd_conns w' ! a) \<longleftrightarrow> a \<in> set (idleConnections (cl_pool c)))"
proof -
  have "conns_inv (NewClient config) w {}"
    using assms(2,3) by (simp add: conns_inv_def NewClient_def NewPool_def Let_def)
  from client_run_conns [OF assms(1) this assms(4)] show ?thesis by (simp add: conns_inv_def conn_ok_def)
qed

lemma client_connections_witness:
  "\<exists>c w' rs. client_run demo_ops demo_client demo_world
      [demo_call ConnectionModeReuse, demo_call ConnectionModePerRequest] = Some (c, w', rs)
    \<and> conn_requestCount (wd_conns w' ! 0) \<le> conn_maxRequests (wd_conns w' ! 0)
    \<and> (conn_closed (wd_conns w' ! 1) = (1 \<notin> set (idleConnections (cl_pool c))))"
proof -
  obtain c w' rs where run: "client_run demo_ops demo_client demo_world
      [demo_call ConnectionModeReuse, demo_call ConnectionModePerRequest] = Some (c, w', rs)" "length (wd_conns w') = 2"
    using demo_client_run by blast
  have "wd_conns demo_world = []" by (simp add: demo_world_def)
  from client_connections [OF run(1) [unfolded demo_client_def] this]
  have *: "\<forall>a<2. conn_requestCount (wd_conns w' ! a) \<le> conn_maxRequests (wd_conns w' ! a)
      \<and> (\<not> conn_closed (wd_conns w' ! a) \<longleftrightarrow> a \<in> set (idleConnections (cl_pool c)))"
    using run(2) by (simp add: demo_call_def)
  show ?thesis using run *[rule_format, of 0] *[rule_format, of 1] by auto
qed

text \<open>
  The server's instruction to close is lost on a pooled connection. When a response says to
  close and the connection is still below the client's own limit, \<^verbatim>\<open>Send\<close> counts it as closed,
  but \<^verbatim>\<open>Put\<close> keeps it open and idle, to be used again.
\<close>

lemma server_close_ignored:
  assumes "ShouldClose resp" and "\<not> conn_ShouldClose (wd_conns w ! a)" and "\<not> pl_closed (cl_pool c)"
    and "mode \<noteq> ConnectionModeDedicated" and "release ops mode True c w a resp = (c', w', resp')"
  shows "idleConnections (cl_pool c') = idleConnections (cl_pool c) @ [a] \<and> wd_conns w' = wd_conns w \<and> wd_tp w' = wd_tp w
    \<and> cs_connectionsClosed (cl_stats c') = w64 (cs_connectionsClosed (cl_stats c) + 1)"
  using assms by (auto simp: release_def put_connection_def Pool_Put_def put_pass_def bump_def Let_def)

lemma server_close_ignored_witness:
  "idleConnections (cl_pool (fst (release demo_ops ConnectionModeReuse True demo_client
      (demo_world\<lparr>wd_conns := [NewConnection (now_at 0 0) ''conn'' ''a'' 2]\<rparr>) 0
      \<lparr>RequestID = ''req'', StatusCode = 200, resp_Headers = Map.empty, RateLimited = False, ShouldClose = True,
       resp_Timestamp = now_at 0 0, ProcessingTime = 0\<rparr>))) = [0]"
proof -
  let ?w = "demo_world\<lparr>wd_conns := [NewConnection (now_at 0 0) ''conn'' ''a'' 2]\<rparr>"
  let ?r = "\<lparr>RequestID = ''req'', StatusCode = 200, resp_Headers = Map.empty, RateLimited = False, ShouldClose = True,
       resp_Timestamp = now_at 0 0, ProcessingTime = 0\<rparr>"
  obtain c' w' r' where r: "release demo_ops ConnectionModeReuse True demo_client ?w 0 ?r = (c', w', r')"
    by (metis prod_cases3)
  have "idleConnections (cl_pool demo_client) = []" "\<not> pl_closed (cl_pool demo_client)"
    by (simp_all add: demo_client_def NewClient_def NewPool_def Let_def)
  then show ?thesis
    using server_close_ignored [OF _ _ _ _ r] r by (simp add: NewConnection_def conn_ShouldClose_def)
qed

text \<open>
  In dedicated mode a call without a connection in its context opens one, uses it and leaves it
  open; nobody has it afterwards, and the next call opens another.
\<close>

lemma dedicated_leak:
  "\<exists>c w' rs. client_run demo_ops demo_client demo_world
      [demo_call ConnectionModeDedicated, demo_call ConnectionModeDedicated] = Some (c, w', rs)
    \<and> length (wd_conns w') = 2 \<and> \<not> conn_closed (wd_conns w' ! 0) \<and> \<not> conn_closed (wd_conns w' ! 1)
    \<and> idleConnections (cl_pool c) = []"
  by (simp add: demo_client_defs acquire_dedicated_def CreateDedicatedConnection_def Let_def)

end
