(* ===== verification/Metrics.thy ===== *)
theory Metrics
  imports GoFloat Shards "HOL-Library.Multiset"
begin

text \<open>
  The metrics collector of \<^verbatim>\<open>pkg/metrics/metrics.go\<close> and the file writer of
  \<^verbatim>\<open>pkg/metrics/filewriter.go\<close>. Buckets are objects in a heap (a list), which
  \<^verbatim>\<open>currentBucket\<close> and the history point to, because a recorder keeps its pointer while
  another goroutine archives the bucket. Each \<^verbatim>\<open>Record...\<close> is one function of the collector
  and the clock readings it takes.

  Shown: the cumulative counters and the buckets are consistent, the history is bounded, with
  a clock that does not go back a bucket holds exactly the requests of its second, and the
  percentiles are samples of the right rank.
\<close>

section \<open>State\<close>

record bucket =
  bk_Timestamp :: int64
  bk_Total :: int64
  bk_Success :: int64
  bk_Rejected :: int64
  bk_RateLimitChecks :: int64
  bk_RemoteFetches :: int64
  bk_TokenFetchWaitDuration :: int64
  bk_SuccessLatencies :: "duration list list"
  bk_RejectedLatencies :: "duration list list"
  bk_RateLimitCheckLatencies :: "duration list list"
  bk_RemoteFetchLatencies :: "duration list list"

record collector =
  col_startTime :: gotime
  col_totalRequests :: int64
  col_successfulRequests :: int64
  col_rateLimitedRequests :: int64
  col_failedRequests :: int64
  col_activeConnections :: int64
  col_rateLimitChecks :: int64
  col_remoteFetches :: int64
  col_tokenFetchWaitDuration :: int64
  buckets :: "bucket list"
  currentBucket :: nat
  history :: "int64 \<rightharpoonup> nat"
  col_numShards :: int
  col_closed :: bool

definition newBucket :: "int64 \<Rightarrow> int \<Rightarrow> bucket" where
  "newBucket timestamp numShards =
     \<lparr>bk_Timestamp = timestamp, bk_Total = 0, bk_Success = 0, bk_Rejected = 0, bk_RateLimitChecks = 0,
      bk_RemoteFetches = 0, bk_TokenFetchWaitDuration = 0,
      bk_SuccessLatencies = replicate (nat numShards) [], bk_RejectedLatencies = replicate (nat numShards) [],
      bk_RateLimitCheckLatencies = replicate (nat numShards) [], bk_RemoteFetchLatencies = replicate (nat numShards) []\<rparr>"

definition NewCollector :: "gotime \<Rightarrow> gotime \<Rightarrow> int \<Rightarrow> collector" where
  "NewCollector startTime now n =
     (let numShards = (if n \<le> 0 then 64 else n)
      in \<lparr>col_startTime = startTime, col_totalRequests = 0, col_successfulRequests = 0,
          col_rateLimitedRequests = 0, col_failedRequests = 0, col_activeConnections = 0,
          col_rateLimitChecks = 0, col_remoteFetches = 0, col_tokenFetchWaitDuration = 0,
          buckets = [newBucket (time_unix now) numShards], currentBucket = 0, history = Map.empty,
          col_numShards = numShards, col_closed = False\<rparr>)"

abbreviation current :: "collector \<Rightarrow> bucket" where
  "current c \<equiv> buckets c ! currentBucket c"

section \<open>Recording\<close>

definition rotateBucket :: "collector \<Rightarrow> int64 \<Rightarrow> collector" where
  "rotateBucket c newTimestamp =
     (if newTimestamp \<le> bk_Timestamp (current c) then c
      else
      let archived = (history c)(bk_Timestamp (current c) \<mapsto> currentBucket c)
      in c\<lparr>history := archived |` {ts. \<not> ts < newTimestamp - 10},
           buckets := buckets c @ [newBucket newTimestamp (col_numShards c)],
           currentBucket := length (buckets c)\<rparr>)"

text \<open>The bucket a record made at \<open>now\<close> goes to: rotated when the second has advanced.\<close>

definition bucket_for :: "collector \<Rightarrow> int64 \<Rightarrow> collector \<times> nat" where
  "bucket_for c now =
     (let c = (if bk_Timestamp (current c) \<noteq> now \<and> bk_Timestamp (current c) < now then rotateBucket c now else c)
      in (c, currentBucket c))"

definition update_bucket :: "nat \<Rightarrow> (bucket \<Rightarrow> bucket) \<Rightarrow> collector \<Rightarrow> collector" where
  "update_bucket a f c = c\<lparr>buckets := (buckets c)[a := f (buckets c ! a)]\<rparr>"

text \<open>\<^verbatim>\<open>shard.latencies = append(shard.latencies, latency)\<close>.\<close>

definition add_latency :: "nat \<Rightarrow> duration \<Rightarrow> duration list list \<Rightarrow> duration list list" where
  "add_latency i latency shs = shs[i := shs ! i @ [latency]]"

definition client_shard :: "collector \<Rightarrow> string \<Rightarrow> nat" where
  "client_shard c clientID = unat (fnv1a clientID mod word_of_int (col_numShards c))"

text \<open>\<open>uint64(time.Now().Nanosecond()) % uint64(c.numShards)\<close>.\<close>

definition time_shard :: "collector \<Rightarrow> gotime \<Rightarrow> nat" where
  "time_shard c now = unat (word_of_int (wall now mod second) mod (word_of_int (col_numShards c) :: uint64))"

definition RecordRequest :: "collector \<Rightarrow> gotime \<Rightarrow> string \<Rightarrow> string \<Rightarrow> duration \<Rightarrow> bool \<Rightarrow> collector" where
  "RecordRequest c now clientID serverID latency rateLimited =
     (let c = c\<lparr>col_totalRequests := w64 (col_totalRequests c + 1)\<rparr>;
          (c, a) = bucket_for c (time_unix now);
          c = update_bucket a (\<lambda>b. b\<lparr>bk_Total := w64 (bk_Total b + 1)\<rparr>) c;
          i = client_shard c clientID
      in if rateLimited
         then update_bucket a (\<lambda>b. b\<lparr>bk_Rejected := w64 (bk_Rejected b + 1),
                                     bk_RejectedLatencies := add_latency i latency (bk_RejectedLatencies b)\<rparr>)
                (c\<lparr>col_rateLimitedRequests := w64 (col_rateLimitedRequests c + 1)\<rparr>)
         else update_bucket a (\<lambda>b. b\<lparr>bk_Success := w64 (bk_Success b + 1),
                                     bk_SuccessLatencies := add_latency i latency (bk_SuccessLatencies b)\<rparr>)
                (c\<lparr>col_successfulRequests := w64 (col_successfulRequests c + 1)\<rparr>))"

text \<open>\<open>shardTime\<close> is the second reading of the clock, which chooses the shard.\<close>

definition Collector_RecordRateLimitCheck :: "collector \<Rightarrow> gotime \<Rightarrow> gotime \<Rightarrow> duration \<Rightarrow> collector" where
  "Collector_RecordRateLimitCheck c now shardTime latency =
     (let c = c\<lparr>col_rateLimitChecks := w64 (col_rateLimitChecks c + 1)\<rparr>;
          (c, a) = bucket_for c (time_unix now);
          i = time_shard c shardTime
      in update_bucket a (\<lambda>b. b\<lparr>bk_RateLimitChecks := w64 (bk_RateLimitChecks b + 1),
           bk_RateLimitCheckLatencies := add_latency i latency (bk_RateLimitCheckLatencies b)\<rparr>) c)"

definition Collector_RecordRemoteTokenFetch :: "collector \<Rightarrow> gotime \<Rightarrow> gotime \<Rightarrow> duration \<Rightarrow> collector" where
  "Collector_RecordRemoteTokenFetch c now shardTime latency =
     (let c = c\<lparr>col_remoteFetches := w64 (col_remoteFetches c + 1)\<rparr>;
          (c, a) = bucket_for c (time_unix now);
          i = time_shard c shardTime
      in update_bucket a (\<lambda>b. b\<lparr>bk_RemoteFetches := w64 (bk_RemoteFetches b + 1),
           bk_RemoteFetchLatencies := add_latency i latency (bk_RemoteFetchLatencies b)\<rparr>) c)"

definition Collector_RecordTokenFetchWait :: "collector \<Rightarrow> gotime \<Rightarrow> duration \<Rightarrow> collector" where
  "Collector_RecordTokenFetchWait c now d =
     (let c = c\<lparr>col_tokenFetchWaitDuration := w64 (col_tokenFetchWaitDuration c + d)\<rparr>;
          (c, a) = bucket_for c (time_unix now)
      in update_bucket a (\<lambda>b. b\<lparr>bk_TokenFetchWaitDuration := w64 (bk_TokenFetchWaitDuration b + d)\<rparr>) c)"

definition RecordFailedRequest :: "collector \<Rightarrow> collector" where
  "RecordFailedRequest c =
     c\<lparr>col_totalRequests := w64 (col_totalRequests c + 1), col_failedRequests := w64 (col_failedRequests c + 1)\<rparr>"

definition RecordConnection :: "collector \<Rightarrow> string \<Rightarrow> string \<Rightarrow> bool \<Rightarrow> collector" where
  "RecordConnection c clientID serverID opened =
     c\<lparr>col_activeConnections := w64 (col_activeConnections c + (if opened then 1 else - 1))\<rparr>"

definition Reset :: "collector \<Rightarrow> gotime \<Rightarrow> gotime \<Rightarrow> collector" where
  "Reset c startTime now =
     c\<lparr>col_startTime := startTime, col_totalRequests := 0, col_successfulRequests := 0,
       col_rateLimitedRequests := 0, col_failedRequests := 0, col_activeConnections := 0,
       col_rateLimitChecks := 0, col_remoteFetches := 0, col_tokenFetchWaitDuration := 0,
       history := Map.empty, buckets := buckets c @ [newBucket (time_unix now) (col_numShards c)],
       currentBucket := length (buckets c)\<rparr>"

definition Collector_Close :: "collector \<Rightarrow> collector" where
  "Collector_Close c = c\<lparr>col_closed := True\<rparr>"

section \<open>Snapshots\<close>

record latency_stats =
  st_Avg :: duration
  st_P50 :: duration
  st_P95 :: duration
  st_P99 :: duration

record metrics_snapshot =
  ms_Timestamp :: gotime
  ms_Duration :: duration
  ms_TotalRequests :: int64
  ms_SuccessfulRequests :: int64
  ms_RateLimitedRequests :: int64
  ms_FailedRequests :: int64
  ms_RequestsPerSecond :: float64
  ms_SuccessQPS :: float64
  ms_RejectedQPS :: float64
  ms_Latency :: latency_stats
  ms_SuccessLatency :: latency_stats
  ms_RejectedLatency :: latency_stats
  ms_RateLimitCheckQPS :: float64
  ms_RateLimitCheckLatency :: latency_stats
  ms_RemoteFetchQPS :: float64
  ms_RemoteFetchLatency :: latency_stats
  ms_AvgTokenFetchWaiters :: float64
  ms_ActiveConnections :: int64
  ms_TotalConnections :: int64
  ms_ClosedConnections :: int64

definition zero_latency :: latency_stats where
  "zero_latency = \<lparr>st_Avg = 0, st_P50 = 0, st_P95 = 0, st_P99 = 0\<rparr>"

definition calculateStats :: "duration list \<Rightarrow> latency_stats" where
  "calculateStats latencies =
     (if latencies = [] then zero_latency
      else
      let ls = sort latencies;
          total = foldl (\<lambda>s l. w64 (s + l)) 0 ls;
          n = length ls
      in \<lparr>st_Avg = quot total (int n), st_P50 = ls ! (n * 50 div 100), st_P95 = ls ! (n * 95 div 100),
          st_P99 = ls ! (n * 99 div 100)\<rparr>)"

text \<open>
  The length in seconds of the part of the bucket's second that lies after the start of the
  run and before \<open>now\<close>, by which the counts are divided.
\<close>

definition effective_duration :: "collector \<Rightarrow> bucket \<Rightarrow> gotime \<Rightarrow> float64" where
  "effective_duration c b now =
     (let bucketStart = unix_time (bk_Timestamp b);
          bucketEnd = time_add bucketStart second;
          effectiveStart = (if time_after (col_startTime c) bucketStart then col_startTime c else bucketStart);
          effectiveEnd = (if time_before now bucketEnd then now else bucketEnd);
          d = seconds (time_sub effectiveEnd effectiveStart)
      in if d < rnd (1 / 1000) then 1 else d)"

record snapshot_clock =
  at_elapsed :: gotime
  at_now :: gotime
  at_timestamp :: gotime

definition createSnapshotFromBucket :: "collector \<Rightarrow> snapshot_clock \<Rightarrow> bucket option \<Rightarrow> metrics_snapshot" where
  "createSnapshotFromBucket c clk bo =
     (let base = \<lparr>ms_Timestamp = at_timestamp clk, ms_Duration = time_sub (at_elapsed clk) (col_startTime c),
            ms_TotalRequests = col_totalRequests c, ms_SuccessfulRequests = col_successfulRequests c,
            ms_RateLimitedRequests = col_rateLimitedRequests c, ms_FailedRequests = col_failedRequests c,
            ms_RequestsPerSecond = 0, ms_SuccessQPS = 0, ms_RejectedQPS = 0,
            ms_Latency = zero_latency, ms_SuccessLatency = zero_latency, ms_RejectedLatency = zero_latency,
            ms_RateLimitCheckQPS = 0, ms_RateLimitCheckLatency = zero_latency,
            ms_RemoteFetchQPS = 0, ms_RemoteFetchLatency = zero_latency, ms_AvgTokenFetchWaiters = 0,
            ms_ActiveConnections = col_activeConnections c, ms_TotalConnections = 0, ms_ClosedConnections = 0\<rparr>
      in case bo of
           None \<Rightarrow> base
         | Some b \<Rightarrow>
             let d = effective_duration c b (at_now clk);
                 successLatencies = concat (bk_SuccessLatencies b);
                 rejectedLatencies = concat (bk_RejectedLatencies b)
             in base\<lparr>ms_RequestsPerSecond := fdiv (i2f (bk_Total b)) d,
                     ms_SuccessQPS := fdiv (i2f (bk_Success b)) d,
                     ms_RejectedQPS := fdiv (i2f (bk_Rejected b)) d,
                     ms_RateLimitCheckQPS := fdiv (i2f (bk_RateLimitChecks b)) d,
                     ms_RemoteFetchQPS := fdiv (i2f (bk_RemoteFetches b)) d,
                     ms_AvgTokenFetchWaiters :=
                       fdiv (fdiv (i2f (bk_TokenFetchWaitDuration b)) (i2f second)) d,
                     ms_Latency := calculateStats (successLatencies @ rejectedLatencies),
                     ms_SuccessLatency := calculateStats successLatencies,
                     ms_RejectedLatency := calculateStats rejectedLatencies,
                     ms_RateLimitCheckLatency := calculateStats (concat (bk_RateLimitCheckLatencies b)),
                     ms_RemoteFetchLatency := calculateStats (concat (bk_RemoteFetchLatencies b))\<rparr>)"

definition getSnapshotForTimestamp :: "collector \<Rightarrow> snapshot_clock \<Rightarrow> int64 \<Rightarrow> metrics_snapshot" where
  "getSnapshotForTimestamp c clk ts =
     createSnapshotFromBucket c clk (map_option (\<lambda>a. buckets c ! a) (history c ts))"

definition Snapshot :: "collector \<Rightarrow> gotime \<Rightarrow> snapshot_clock \<Rightarrow> metrics_snapshot" where
  "Snapshot c now clk = getSnapshotForTimestamp c clk (w64 (time_unix now - 1))"

definition CaptureFinalSnapshot :: "collector \<Rightarrow> snapshot_clock \<Rightarrow> metrics_snapshot" where
  "CaptureFinalSnapshot c clk = createSnapshotFromBucket c clk (Some (current c))"

section \<open>The report file\<close>

record report_config =
  rc_ClientCount :: int
  rc_ServerCount :: int
  rc_ConnectionMode :: string
  rc_RateLimiterType :: string
  rc_RateLimitRate :: int64
  rc_MaxRequestsPerConn :: int
  rc_DurationSeconds :: int

record metrics_report =
  rep_StartTime :: gotime
  rep_EndTime :: gotime
  rep_Config :: report_config
  rep_Snapshots :: "metrics_snapshot list"
  rep_FinalResult :: "metrics_snapshot option"

record file_writer =
  fw_path :: string
  fw_report :: metrics_report

definition NewFileWriter :: "gotime \<Rightarrow> string \<Rightarrow> report_config \<Rightarrow> file_writer" where
  "NewFileWriter now path config =
     \<lparr>fw_path = path, fw_report = \<lparr>rep_StartTime = now, rep_EndTime = zero_time, rep_Config = config,
        rep_Snapshots = [], rep_FinalResult = None\<rparr>\<rparr>"

definition AddSnapshot :: "file_writer \<Rightarrow> metrics_snapshot \<Rightarrow> file_writer" where
  "AddSnapshot w s = w\<lparr>fw_report := (fw_report w)\<lparr>rep_Snapshots := rep_Snapshots (fw_report w) @ [s]\<rparr>\<rparr>"

definition SetFinalResult :: "file_writer \<Rightarrow> gotime \<Rightarrow> metrics_snapshot \<Rightarrow> file_writer" where
  "SetFinalResult w now s =
     w\<lparr>fw_report := (fw_report w)\<lparr>rep_FinalResult := Some s, rep_EndTime := now\<rparr>\<rparr>"

text \<open>\<^verbatim>\<open>json.MarshalIndent\<close> and \<^verbatim>\<open>os.WriteFile\<close> are arguments.\<close>

definition Save :: "(metrics_report \<Rightarrow> error + 'bytes) \<Rightarrow> ('fs \<Rightarrow> string \<Rightarrow> 'bytes \<Rightarrow> 'fs \<times> error option)
    \<Rightarrow> 'fs \<Rightarrow> file_writer \<Rightarrow> 'fs \<times> error option" where
  "Save marshal write fs w =
     (case marshal (fw_report w) of
        Inl err \<Rightarrow> (fs, Some err)
      | Inr data \<Rightarrow> write fs (fw_path w) data)"

section \<open>The collector is consistent\<close>

definition bucket_ok :: "int \<Rightarrow> bucket \<Rightarrow> bool" where
  "bucket_ok n b \<longleftrightarrow> bk_Total b = w64 (bk_Success b + bk_Rejected b)
     \<and> bk_Success b = w64 (int (length (concat (bk_SuccessLatencies b))))
     \<and> bk_Rejected b = w64 (int (length (concat (bk_RejectedLatencies b))))
     \<and> bk_RateLimitChecks b = w64 (int (length (concat (bk_RateLimitCheckLatencies b))))
     \<and> bk_RemoteFetches b = w64 (int (length (concat (bk_RemoteFetchLatencies b))))
     \<and> length (bk_SuccessLatencies b) = nat n \<and> length (bk_RejectedLatencies b) = nat n
     \<and> length (bk_RateLimitCheckLatencies b) = nat n \<and> length (bk_RemoteFetchLatencies b) = nat n"

definition buckets_ok :: "collector \<Rightarrow> bool" where
  "buckets_ok c \<longleftrightarrow> 0 < col_numShards c \<and> col_numShards c < 2 ^ 63 \<and> currentBucket c < length (buckets c)
     \<and> (\<forall>b\<in>set (buckets c). bucket_ok (col_numShards c) b)
     \<and> (\<forall>ts a. history c ts = Some a \<longrightarrow> a < length (buckets c) \<and> bk_Timestamp (buckets c ! a) = ts
          \<and> bk_Timestamp (current c) - 10 \<le> ts \<and> ts < bk_Timestamp (current c) \<and> a \<noteq> currentBucket c)"

definition counters :: "collector \<Rightarrow> int64 \<times> int64 \<times> int64 \<times> int64" where
  "counters c = (col_totalRequests c, col_successfulRequests c, col_rateLimitedRequests c, col_failedRequests c)"

definition collector_ok :: "collector \<Rightarrow> bool" where
  "collector_ok c \<longleftrightarrow> buckets_ok c \<and> (case counters c of (t, s, l, f) \<Rightarrow> t = w64 (s + l + f))"

lemma bucket_ok_new: "bucket_ok n (newBucket ts n)"
  by (simp add: bucket_ok_def newBucket_def w64_id in64_def)

lemma newBucket_Timestamp [simp]: "bk_Timestamp (newBucket ts n) = ts"
  by (simp add: newBucket_def)

lemma length_concat_update:
  "i < length xss \<Longrightarrow> length (concat (add_latency i x xss)) = Suc (length (concat xss))"
  by (induction xss arbitrary: i) (auto simp: add_latency_def length_concat split: nat.splits)

lemma add_latency_length [simp]: "length (add_latency i x xss) = length xss"
  by (simp add: add_latency_def)

lemma shard_index_less:
  assumes "0 < n" and "n < 2 ^ 63"
  shows "unat ((w :: uint64) mod word_of_int n) < nat n"
proof -
  have "(word_of_int n :: uint64) = of_nat (nat n)" using assms by simp
  moreover have "unat (w mod of_nat (nat n)) = unat w mod nat n"
    using assms by (intro word_index_less) (simp_all add: nat_less_iff)
  ultimately show ?thesis using assms by simp
qed

lemma client_shard_less: "0 < col_numShards c \<Longrightarrow> col_numShards c < 2 ^ 63 \<Longrightarrow> client_shard c i < nat (col_numShards c)"
  by (simp add: client_shard_def shard_index_less)

lemma time_shard_less: "0 < col_numShards c \<Longrightarrow> col_numShards c < 2 ^ 63 \<Longrightarrow> time_shard c t < nat (col_numShards c)"
  by (simp add: time_shard_def shard_index_less)

lemma buckets_ok_bounds:
  "buckets_ok c \<Longrightarrow> 0 < col_numShards c \<and> col_numShards c < 2 ^ 63 \<and> currentBucket c < length (buckets c)"
  by (simp add: buckets_ok_def)

text \<open>A change of the counters of the collector keeps the buckets.\<close>

lemma buckets_ok_frame:
  assumes "buckets_ok c" and "buckets c' = buckets c" and "currentBucket c' = currentBucket c"
    and "history c' = history c" and "col_numShards c' = col_numShards c"
  shows "buckets_ok c'"
  using assms by (simp add: buckets_ok_def)

lemma buckets_rotate:
  assumes "buckets_ok c"
  shows "buckets_ok (rotateBucket c ts)"
  using assms bucket_ok_new
  by (auto simp: buckets_ok_def rotateBucket_def Let_def nth_append restrict_map_def less_Suc_eq
      split: if_splits) fastforce

lemma buckets_for:
  assumes "buckets_ok c" and "bucket_for c ts = (c', a)"
  shows "buckets_ok c'" "a = currentBucket c'" "counters c' = counters c" "col_numShards c' = col_numShards c"
    "col_startTime c' = col_startTime c"
  using assms buckets_rotate [OF assms(1), of ts]
  by (auto simp: bucket_for_def Let_def rotateBucket_def counters_def split: if_splits)

lemma buckets_update:
  assumes "buckets_ok c" and "a = currentBucket c"
    and "\<And>b. bucket_ok (col_numShards c) b \<Longrightarrow> bucket_ok (col_numShards c) (f b)"
    and "\<And>b. bk_Timestamp (f b) = bk_Timestamp b"
  shows "buckets_ok (update_bucket a f c)"
proof -
  have a: "a < length (buckets c)" using assms(1,2) by (simp add: buckets_ok_def)
  have "\<forall>b\<in>set ((buckets c)[a := f (buckets c ! a)]). bucket_ok (col_numShards c) b"
    using assms(1,3) a set_update_subset_insert [of "buckets c" a "f (buckets c ! a)"]
    by (auto simp: buckets_ok_def)
  then show ?thesis
    using assms(1,2,4) a by (auto simp: buckets_ok_def update_bucket_def nth_list_update)
qed

lemma update_frame [simp]: "col_numShards (update_bucket a f c) = col_numShards c"
  "currentBucket (update_bucket a f c) = currentBucket c" "history (update_bucket a f c) = history c"
  "length (buckets (update_bucket a f c)) = length (buckets c)" "counters (update_bucket a f c) = counters c"
  by (simp_all add: update_bucket_def counters_def)

text \<open>
  Every operation that records in a bucket has one shape: it counts in the collector, finds the
  bucket of its second and changes that bucket once.
\<close>

definition request_update :: "nat \<Rightarrow> duration \<Rightarrow> bool \<Rightarrow> bucket \<Rightarrow> bucket" where
  "request_update i l rl b =
     (if rl then b\<lparr>bk_Total := w64 (bk_Total b + 1), bk_Rejected := w64 (bk_Rejected b + 1),
                   bk_RejectedLatencies := add_latency i l (bk_RejectedLatencies b)\<rparr>
      else b\<lparr>bk_Total := w64 (bk_Total b + 1), bk_Success := w64 (bk_Success b + 1),
             bk_SuccessLatencies := add_latency i l (bk_SuccessLatencies b)\<rparr>)"

datatype metric_op =
    MRequest gotime string string duration bool
  | MCheck gotime gotime duration
  | MFetch gotime gotime duration
  | MWait gotime duration
  | MFailed
  | MConnection string string bool
  | MReset gotime gotime

fun metric_apply :: "metric_op \<Rightarrow> collector \<Rightarrow> collector" where
  "metric_apply (MRequest now clientID serverID l rl) c = RecordRequest c now clientID serverID l rl"
| "metric_apply (MCheck now t l) c = Collector_RecordRateLimitCheck c now t l"
| "metric_apply (MFetch now t l) c = Collector_RecordRemoteTokenFetch c now t l"
| "metric_apply (MWait now d) c = Collector_RecordTokenFetchWait c now d"
| "metric_apply MFailed c = RecordFailedRequest c"
| "metric_apply (MConnection i j opened) c = RecordConnection c i j opened"
| "metric_apply (MReset startTime now) c = Reset c startTime now"

fun op_update :: "metric_op \<Rightarrow> collector \<Rightarrow> bucket \<Rightarrow> bucket" where
  "op_update (MRequest now clientID serverID l rl) c = request_update (client_shard c clientID) l rl"
| "op_update (MCheck now t l) c = (\<lambda>b. b\<lparr>bk_RateLimitChecks := w64 (bk_RateLimitChecks b + 1),
     bk_RateLimitCheckLatencies := add_latency (time_shard c t) l (bk_RateLimitCheckLatencies b)\<rparr>)"
| "op_update (MFetch now t l) c = (\<lambda>b. b\<lparr>bk_RemoteFetches := w64 (bk_RemoteFetches b + 1),
     bk_RemoteFetchLatencies := add_latency (time_shard c t) l (bk_RemoteFetchLatencies b)\<rparr>)"
| "op_update (MWait now d) c = (\<lambda>b. b\<lparr>bk_TokenFetchWaitDuration := w64 (bk_TokenFetchWaitDuration b + d)\<rparr>)"
| "op_update _ c = id"

text \<open>The second an operation records in.\<close>

fun op_second :: "metric_op \<Rightarrow> int64 option" where
  "op_second (MRequest now _ _ _ _) = Some (time_unix now)"
| "op_second (MCheck now _ _) = Some (time_unix now)"
| "op_second (MFetch now _ _) = Some (time_unix now)"
| "op_second (MWait now _) = Some (time_unix now)"
| "op_second _ = None"

definition same_buckets :: "collector \<Rightarrow> collector \<Rightarrow> bool" where
  "same_buckets c c' \<longleftrightarrow> buckets c' = buckets c \<and> currentBucket c' = currentBucket c
     \<and> history c' = history c \<and> col_numShards c' = col_numShards c \<and> col_startTime c' = col_startTime c"

text \<open>What an operation counts in the collector before and after it has its bucket.\<close>

fun count_before :: "metric_op \<Rightarrow> collector \<Rightarrow> collector" where
  "count_before (MRequest now clientID serverID l rl) c = c\<lparr>col_totalRequests := w64 (col_totalRequests c + 1)\<rparr>"
| "count_before (MCheck now t l) c = c\<lparr>col_rateLimitChecks := w64 (col_rateLimitChecks c + 1)\<rparr>"
| "count_before (MFetch now t l) c = c\<lparr>col_remoteFetches := w64 (col_remoteFetches c + 1)\<rparr>"
| "count_before (MWait now d) c = c\<lparr>col_tokenFetchWaitDuration := w64 (col_tokenFetchWaitDuration c + d)\<rparr>"
| "count_before _ c = c"

fun count_after :: "metric_op \<Rightarrow> collector \<Rightarrow> collector" where
  "count_after (MRequest now clientID serverID l rl) c =
     (if rl then c\<lparr>col_rateLimitedRequests := w64 (col_rateLimitedRequests c + 1)\<rparr>
      else c\<lparr>col_successfulRequests := w64 (col_successfulRequests c + 1)\<rparr>)"
| "count_after _ c = c"

lemma count_frame:
  "same_buckets c (count_before op c)" "same_buckets c (count_after op c)"
  by (cases op; simp add: same_buckets_def)+

lemma same_buckets_ok: "same_buckets c c' \<Longrightarrow> buckets_ok c \<Longrightarrow> buckets_ok c'"
  by (auto simp: same_buckets_def intro: buckets_ok_frame)

lemma bucket_for_current: "snd (bucket_for c ts) = currentBucket (fst (bucket_for c ts))"
  by (simp add: bucket_for_def Let_def)

lemma op_shape:
  assumes "op_second op = Some s" and "buckets_ok c"
  obtains c' where "bucket_for (count_before op c) s = (c', currentBucket c')" and "buckets_ok c'"
    and "metric_apply op c = update_bucket (currentBucket c') (op_update op c') (count_after op c')"
proof -
  define c' where "c' = fst (bucket_for (count_before op c) s)"
  have f: "bucket_for (count_before op c) s = (c', currentBucket c')"
    using bucket_for_current [of "count_before op c" s] by (simp add: c'_def prod_eq_iff)
  have ok: "buckets_ok c'"
    using buckets_for(1) [OF _ f] same_buckets_ok [OF count_frame(1) assms(2)] by blast
  then have "currentBucket c' < length (buckets c')" by (simp add: buckets_ok_def)
  then have "metric_apply op c = update_bucket (currentBucket c') (op_update op c') (count_after op c')"
    using assms(1) f
    by (cases op) (auto simp: RecordRequest_def Collector_RecordRateLimitCheck_def Collector_RecordRemoteTokenFetch_def
        Collector_RecordTokenFetchWait_def Let_def update_bucket_def request_update_def client_shard_def time_shard_def)
  with f ok show thesis by (rule that)
qed

lemma op_update_ok:
  assumes "buckets_ok c" and "bucket_ok (col_numShards c) b"
  shows "bucket_ok (col_numShards c) (op_update op c b)"
proof -
  have n: "0 < col_numShards c" "col_numShards c < 2 ^ 63" using assms(1) by (simp_all add: buckets_ok_def)
  show ?thesis
    using assms(2) client_shard_less [OF n] time_shard_less [OF n]
    by (cases op) (auto simp: bucket_ok_def request_update_def length_concat_update ac_simps)
qed

lemma op_update_Timestamp [simp]: "bk_Timestamp (op_update op c b) = bk_Timestamp b"
  by (cases op) (simp_all add: request_update_def)

lemma metric_apply_buckets:
  assumes "buckets_ok c"
  shows "buckets_ok (metric_apply op c)"
proof (cases "op_second op")
  case (Some s)
  then obtain c' where c': "buckets_ok c'"
    "metric_apply op c = update_bucket (currentBucket c') (op_update op c') (count_after op c')"
    using assms by (rule op_shape)
  have a: "same_buckets c' (count_after op c')" by (rule count_frame)
  show ?thesis
    unfolding c'(2)
  proof (rule buckets_update)
    show "buckets_ok (count_after op c')" using a c'(1) by (rule same_buckets_ok)
    show "bucket_ok (col_numShards (count_after op c')) (op_update op c' b)"
      if "bucket_ok (col_numShards (count_after op c')) b" for b
      using that a op_update_ok [OF c'(1)] by (simp add: same_buckets_def)
  qed (use a in \<open>simp_all add: same_buckets_def\<close>)
next
  case None
  then show ?thesis
    using assms bucket_ok_new
    by (cases op) (auto simp: RecordFailedRequest_def RecordConnection_def Reset_def buckets_ok_def)
qed

lemma metric_apply_ok:
  assumes "collector_ok c"
  shows "collector_ok (metric_apply op c)"
proof -
  have b: "buckets_ok c" and n: "case counters c of (t, s, l, f) \<Rightarrow> t = w64 (s + l + f)"
    using assms by (simp_all add: collector_ok_def)
  have "case counters (metric_apply op c) of (t, s, l, f) \<Rightarrow> t = w64 (s + l + f)"
  proof (cases "op_second op")
    case (Some s)
    then obtain c' where f: "bucket_for (count_before op c) s = (c', currentBucket c')"
      and c': "metric_apply op c = update_bucket (currentBucket c') (op_update op c') (count_after op c')"
      using b by (rule op_shape)
    have "counters c' = counters (count_before op c)"
      using buckets_for(3) [OF same_buckets_ok [OF count_frame(1) b] f] .
    then show ?thesis using n unfolding c' update_frame by (cases op) (auto simp: counters_def ac_simps)
  next
    case None
    then show ?thesis
      using n by (cases op) (auto simp: RecordFailedRequest_def RecordConnection_def Reset_def counters_def ac_simps w64_id in64_def)
  qed
  then show ?thesis using metric_apply_buckets [OF b] by (simp add: collector_ok_def)
qed

lemma new_collector_ok: "n < 2 ^ 63 \<Longrightarrow> collector_ok (NewCollector startTime now n)"
  by (simp add: NewCollector_def collector_ok_def buckets_ok_def counters_def bucket_ok_new Let_def w64_id in64_def)

lemma metric_run_ok: "collector_ok c \<Longrightarrow> collector_ok (fold metric_apply ops c)"
  by (induction ops arbitrary: c) (simp_all add: metric_apply_ok)

section \<open>A bucket holds the requests of its second\<close>

text \<open>The bucket of a second as a reader finds it; a second without a bucket had no record.\<close>

definition bucket_of :: "collector \<Rightarrow> int64 \<Rightarrow> bucket" where
  "bucket_of c ts =
     (if ts = bk_Timestamp (current c) then current c
      else case history c ts of
             Some a \<Rightarrow> buckets c ! a
           | None \<Rightarrow> newBucket ts (col_numShards c))"

lemma bucket_of_same: "same_buckets c c' \<Longrightarrow> bucket_of c' = bucket_of c"
  by (rule ext) (auto simp: bucket_of_def same_buckets_def split: option.splits)

lemma history_before: "buckets_ok c \<Longrightarrow> history c ts = Some a \<Longrightarrow> ts < bk_Timestamp (current c) \<and> a < length (buckets c)"
  by (simp add: buckets_ok_def)

lemma bucket_of_later: "buckets_ok c \<Longrightarrow> bk_Timestamp (current c) < ts \<Longrightarrow> bucket_of c ts = newBucket ts (col_numShards c)"
  using history_before [of c ts] by (auto simp: bucket_of_def split: option.splits)

lemma bucket_of_ok: "buckets_ok c \<Longrightarrow> bucket_ok (col_numShards c) (bucket_of c ts)"
  by (auto simp: bucket_of_def buckets_ok_def bucket_ok_new split: option.splits)

lemma bucket_of_for:
  assumes ok: "buckets_ok c" and f: "bucket_for c s = (c', a)" and s: "bk_Timestamp (current c) \<le> s"
  shows "bk_Timestamp (current c') = s" and "s - 10 \<le> ts \<Longrightarrow> bucket_of c' ts = bucket_of c ts"
proof -
  have "currentBucket c < length (buckets c)" using ok by (simp add: buckets_ok_def)
  then show "bk_Timestamp (current c') = s" and "s - 10 \<le> ts \<Longrightarrow> bucket_of c' ts = bucket_of c ts"
    using f s history_before [OF ok, of s] history_before [OF ok, of ts]
    by (auto simp: bucket_for_def rotateBucket_def bucket_of_def Let_def nth_append restrict_map_def
        split: if_splits option.splits)
qed

lemma bucket_of_update:
  assumes "buckets_ok c" and "\<And>b. bk_Timestamp (f b) = bk_Timestamp b"
  shows "bucket_of (update_bucket (currentBucket c) f c) ts
    = (if ts = bk_Timestamp (current c) then f (bucket_of c ts) else bucket_of c ts)"
  using assms by (auto simp: bucket_of_def update_bucket_def buckets_ok_def nth_list_update split: option.splits)

lemma op_update_cong: "col_numShards c = col_numShards c' \<Longrightarrow> op_update op c = op_update op c'"
  by (cases op) (simp_all add: client_shard_def time_shard_def fun_eq_iff)

text \<open>A record changes the bucket of its second and no other that is still kept.\<close>

lemma bucket_of_apply:
  assumes op: "op_second op = Some s" and ok: "buckets_ok c" and s: "bk_Timestamp (current c) \<le> s"
  shows "bk_Timestamp (current (metric_apply op c)) = s"
    and "s - 10 \<le> ts \<Longrightarrow> bucket_of (metric_apply op c) ts
      = (if ts = s then op_update op c (bucket_of c ts) else bucket_of c ts)"
proof -
  obtain c' where f: "bucket_for (count_before op c) s = (c', currentBucket c')" and c': "buckets_ok c'"
    and a: "metric_apply op c = update_bucket (currentBucket c') (op_update op c') (count_after op c')"
    using op ok by (rule op_shape)
  note same = count_frame [of c op] count_frame [of c' op]
  have cur: "bk_Timestamp (current (count_before op c)) \<le> s" using s same by (simp add: same_buckets_def)
  note b = bucket_of_for [OF same_buckets_ok [OF same(1) ok] f cur]
  have n: "op_update op c' = op_update op c"
    using buckets_for(4) [OF same_buckets_ok [OF same(1) ok] f] same(1)
    by (intro op_update_cong) (simp add: same_buckets_def)
  have u: "metric_apply op c = update_bucket (currentBucket (count_after op c')) (op_update op c) (count_after op c')"
    using a n same(4) by (simp add: same_buckets_def)
  have ok': "buckets_ok (count_after op c')" using same(4) c' by (rule same_buckets_ok)
  have t: "bk_Timestamp (current (count_after op c')) = s" using b(1) same(4) by (simp add: same_buckets_def)
  show "bk_Timestamp (current (metric_apply op c)) = s"
    using t ok' unfolding u by (simp add: update_bucket_def buckets_ok_def)
  show "bucket_of (metric_apply op c) ts = (if ts = s then op_update op c (bucket_of c ts) else bucket_of c ts)"
    if "s - 10 \<le> ts"
    unfolding u bucket_of_update [OF ok' op_update_Timestamp] t
    using b(2) [OF that] bucket_of_same [OF same(4)] bucket_of_same [OF same(1)] by auto
qed

fun request_latencies :: "int64 \<Rightarrow> bool \<Rightarrow> metric_op list \<Rightarrow> duration list" where
  "request_latencies ts rl [] = []"
| "request_latencies ts rl (MRequest now clientID serverID l rl' # ops) =
     (if time_unix now = ts \<and> rl' = rl then l # request_latencies ts rl ops else request_latencies ts rl ops)"
| "request_latencies ts rl (_ # ops) = request_latencies ts rl ops"

lemma request_latencies_append [simp]:
  "request_latencies ts rl (ops @ ops') = request_latencies ts rl ops @ request_latencies ts rl ops'"
  by (induction ts rl ops rule: request_latencies.induct) simp_all

lemma mset_add_latency:
  "i < length xss \<Longrightarrow> mset (concat (add_latency i x xss)) = add_mset x (mset (concat xss))"
  by (induction xss arbitrary: i) (auto simp: add_latency_def split: nat.splits)

definition latencies_of :: "bool \<Rightarrow> bucket \<Rightarrow> duration multiset" where
  "latencies_of rl b = mset (concat (if rl then bk_RejectedLatencies b else bk_SuccessLatencies b))"

lemma latencies_of_new [simp]: "latencies_of rl (newBucket ts n) = {#}"
  by (simp add: latencies_of_def newBucket_def)

lemma latencies_of_update:
  assumes "buckets_ok c" and "bucket_ok (col_numShards c) b" and "op_second op = Some s"
  shows "latencies_of rl (op_update op c b) = latencies_of rl b + mset (request_latencies s rl [op])"
proof -
  have n: "0 < col_numShards c" "col_numShards c < 2 ^ 63" using assms(1) by (simp_all add: buckets_ok_def)
  show ?thesis
    using assms(2,3) client_shard_less [OF n]
    by (cases op) (auto simp: latencies_of_def request_update_def mset_add_latency bucket_ok_def)
qed

lemma request_latencies_other: "op_second op \<noteq> Some ts \<Longrightarrow> request_latencies ts rl [op] = []"
  by (cases op) auto

fun is_reset :: "metric_op \<Rightarrow> bool" where
  "is_reset (MReset _ _) = True"
| "is_reset _ = False"

text \<open>The seconds the operations record in, from the creation of the collector.\<close>

definition seconds_of :: "gotime \<Rightarrow> metric_op list \<Rightarrow> int64 list" where
  "seconds_of now ops = time_unix now # List.map_filter op_second ops"

lemma seconds_of_snoc [simp]:
  "seconds_of now (ops @ [op]) = seconds_of now ops @ (case op_second op of Some s \<Rightarrow> [s] | None \<Rightarrow> [])"
  by (simp add: seconds_of_def map_filter_def split: option.splits)

lemma seconds_of_not_empty [simp]: "seconds_of now ops \<noteq> []"
  by (simp add: seconds_of_def)

lemma sorted_last: "sorted (xs @ [x]) \<Longrightarrow> xs \<noteq> [] \<Longrightarrow> last xs \<le> x"
  by (simp add: sorted_append)

lemma seconds_exact:
  assumes n: "n < 2 ^ 63" and "sorted (seconds_of now ops)" and "\<forall>op\<in>set ops. \<not> is_reset op"
  shows "let c = fold metric_apply ops (NewCollector startTime now n) in
    bk_Timestamp (current c) = last (seconds_of now ops)
    \<and> (\<forall>ts rl. last (seconds_of now ops) - 10 \<le> ts \<longrightarrow>
         latencies_of rl (bucket_of c ts) = mset (request_latencies ts rl ops))"
  using assms(2,3)
proof (induction ops rule: rev_induct)
  case Nil
  then show ?case by (simp add: NewCollector_def Let_def bucket_of_def seconds_of_def map_filter_def)
next
  case (snoc op ops)
  define c where "c = fold metric_apply ops (NewCollector startTime now n)"
  have ok: "buckets_ok c" using metric_run_ok [OF new_collector_ok [OF n]] by (simp add: c_def collector_ok_def)
  have IH: "bk_Timestamp (current c) = last (seconds_of now ops)"
    "\<And>ts rl. last (seconds_of now ops) - 10 \<le> ts \<Longrightarrow> latencies_of rl (bucket_of c ts) = mset (request_latencies ts rl ops)"
    using snoc by (auto simp: c_def Let_def sorted_append split: option.splits)
  have run: "fold metric_apply (ops @ [op]) (NewCollector startTime now n) = metric_apply op c" by (simp add: c_def)
  show ?case
  proof (cases "op_second op")
    case None
    then have "same_buckets c (metric_apply op c)"
      using snoc.prems by (cases op) (auto simp: same_buckets_def RecordFailedRequest_def RecordConnection_def)
    then have same: "bucket_of (metric_apply op c) = bucket_of c" "current (metric_apply op c) = current c"
      by (rule bucket_of_same) (use \<open>same_buckets c (metric_apply op c)\<close> in \<open>simp add: same_buckets_def\<close>)
    have "request_latencies ts rl (ops @ [op]) = request_latencies ts rl ops" for ts rl
      using None by (simp add: request_latencies_other)
    then show ?thesis
      unfolding run Let_def same using IH None by simp
  next
    case (Some s)
    then have le: "last (seconds_of now ops) \<le> s" using snoc.prems by (intro sorted_last) auto
    note b = bucket_of_apply [OF Some ok]
    have "latencies_of rl (bucket_of (metric_apply op c) ts) = mset (request_latencies ts rl (ops @ [op]))"
      if "s - 10 \<le> ts" for ts rl
    proof -
      have keep: "latencies_of rl (bucket_of c ts) = mset (request_latencies ts rl ops)"
        using that le by (intro IH(2)) simp
      have cur: "bk_Timestamp (current c) \<le> s" using IH(1) le by simp
      show ?thesis
      proof (cases "ts = s")
        case True
        have "bucket_of (metric_apply op c) ts = op_update op c (bucket_of c s)" using b(2) [OF cur that] True by simp
        then show ?thesis using latencies_of_update [OF ok bucket_of_ok [OF ok] Some, of rl s] keep True by simp
      next
        case False
        then have "bucket_of (metric_apply op c) ts = bucket_of c ts" using b(2) [OF cur that] by simp
        then show ?thesis using keep False Some by (simp add: request_latencies_other)
      qed
    qed
    then show ?thesis unfolding run Let_def using b(1) le IH(1) Some by simp
  qed
qed

lemma mset_length: "mset xs = mset ys \<Longrightarrow> length xs = length ys"
  by (metis size_mset)

lemma calculateStats_mset: "mset xs = mset ys \<Longrightarrow> calculateStats xs = calculateStats ys"
proof -
  assume m: "mset xs = mset ys"
  then have "sort xs = sort ys" using properties_for_sort [of "sort xs" ys] by simp
  moreover have "xs = [] \<longleftrightarrow> ys = []" using m by auto
  ultimately show ?thesis by (simp add: calculateStats_def)
qed

lemma effective_duration_cong:
  "bk_Timestamp b = bk_Timestamp b' \<Longrightarrow> effective_duration c b now = effective_duration c b' now"
  by (simp add: effective_duration_def)

lemma createSnapshot_request_fields:
  assumes ok: "bucket_ok n b" and S: "latencies_of False b = mset succ" and R: "latencies_of True b = mset rej"
  shows "let m = createSnapshotFromBucket c clk (Some b); d = effective_duration c b (at_now clk) in
    ms_SuccessQPS m = fdiv (i2f (w64 (int (length succ)))) d
    \<and> ms_RejectedQPS m = fdiv (i2f (w64 (int (length rej)))) d
    \<and> ms_RequestsPerSecond m = fdiv (i2f (w64 (int (length succ + length rej)))) d
    \<and> ms_SuccessLatency m = calculateStats succ
    \<and> ms_RejectedLatency m = calculateStats rej
    \<and> ms_Latency m = calculateStats (succ @ rej)"
proof -
  let ?s = "concat (bk_SuccessLatencies b)" and ?r = "concat (bk_RejectedLatencies b)"
  have m: "mset ?s = mset succ" "mset ?r = mset rej" using S R by (simp_all add: latencies_of_def)
  have l: "length ?s = length succ" "length ?r = length rej" using m by (blast dest: mset_length)+
  have t: "bk_Success b = w64 (int (length succ))" "bk_Rejected b = w64 (int (length rej))"
    "bk_Total b = w64 (int (length succ + length rej))"
    using ok l by (auto simp: bucket_ok_def)
  have c: "calculateStats ?s = calculateStats succ" "calculateStats ?r = calculateStats rej"
    "calculateStats (?s @ ?r) = calculateStats (succ @ rej)"
    using m by (auto intro!: calculateStats_mset)
  show ?thesis using t c by (simp add: createSnapshotFromBucket_def Let_def)
qed

text \<open>A second without a bucket is reported as one whose bucket is empty.\<close>

lemma snapshot_none:
  "let m = createSnapshotFromBucket c clk None; m' = createSnapshotFromBucket c clk (Some (newBucket ts n)) in
     ms_SuccessQPS m = ms_SuccessQPS m' \<and> ms_RejectedQPS m = ms_RejectedQPS m'
     \<and> ms_RequestsPerSecond m = ms_RequestsPerSecond m' \<and> ms_SuccessLatency m = ms_SuccessLatency m'
     \<and> ms_RejectedLatency m = ms_RejectedLatency m' \<and> ms_Latency m = ms_Latency m'"
proof -
  have "concat (replicate k []) = []" for k by (induction k) simp_all
  then show ?thesis
    by (simp add: createSnapshotFromBucket_def newBucket_def Let_def fdiv_def calculateStats_def)
qed

text \<open>
  C30. With a clock that does not go back and no reset, the snapshot of a finished second of the
  last ten reports exactly the requests recorded in that second, whichever shards their latencies
  went to and however records of checks, fetches, waits and failures are mixed in: the rates are
  their numbers over the length of the second, and the averages and percentiles are those of
  their latencies. A second without records is reported as zero. The requests counted since the
  start are the successful, the rate limited and the failed ones together.
\<close>

theorem snapshot_exact:
  assumes "n < 2 ^ 63" and "sorted (seconds_of now ops)" and "\<forall>op\<in>set ops. \<not> is_reset op"
    and "last (seconds_of now ops) - 10 \<le> ts" and "ts < last (seconds_of now ops)"
  shows "let c = fold metric_apply ops (NewCollector startTime now n);
      m = getSnapshotForTimestamp c clk ts;
      d = effective_duration c (newBucket ts n) (at_now clk);
      succ = request_latencies ts False ops; rej = request_latencies ts True ops
    in ms_SuccessQPS m = fdiv (i2f (w64 (int (length succ)))) d
      \<and> ms_RejectedQPS m = fdiv (i2f (w64 (int (length rej)))) d
      \<and> ms_RequestsPerSecond m = fdiv (i2f (w64 (int (length succ + length rej)))) d
      \<and> ms_SuccessLatency m = calculateStats succ
      \<and> ms_RejectedLatency m = calculateStats rej
      \<and> ms_Latency m = calculateStats (succ @ rej)
      \<and> ms_TotalRequests m = w64 (ms_SuccessfulRequests m + ms_RateLimitedRequests m + ms_FailedRequests m)"
proof -
  define c where "c = fold metric_apply ops (NewCollector startTime now n)"
  have col: "collector_ok c" using metric_run_ok [OF new_collector_ok [OF assms(1)]] by (simp add: c_def)
  then have ok: "buckets_ok c" by (simp add: collector_ok_def)
  have sum: "ms_TotalRequests (createSnapshotFromBucket c clk bo) = w64 (ms_SuccessfulRequests (createSnapshotFromBucket c clk bo)
      + ms_RateLimitedRequests (createSnapshotFromBucket c clk bo) + ms_FailedRequests (createSnapshotFromBucket c clk bo))" for bo
    using col by (simp add: collector_ok_def counters_def createSnapshotFromBucket_def Let_def split: option.splits)
  have e: "bk_Timestamp (current c) = last (seconds_of now ops)"
    "\<And>rl. latencies_of rl (bucket_of c ts) = mset (request_latencies ts rl ops)"
    using seconds_exact [OF assms(1-3)] assms(4) by (simp_all add: c_def Let_def)
  have t: "bk_Timestamp (bucket_of c ts) = ts"
    using ok by (auto simp: bucket_of_def buckets_ok_def split: option.splits)
  have d: "effective_duration c (bucket_of c ts) (at_now clk) = effective_duration c (newBucket ts n) (at_now clk)"
    using t by (intro effective_duration_cong) simp
  note f = createSnapshot_request_fields [OF bucket_of_ok [OF ok] e(2) e(2), of c clk, unfolded d]
  have "getSnapshotForTimestamp c clk ts = createSnapshotFromBucket c clk
      (case history c ts of None \<Rightarrow> None | Some _ \<Rightarrow> Some (bucket_of c ts))"
    using assms(5) e(1) by (simp add: getSnapshotForTimestamp_def bucket_of_def split: option.splits)
  moreover have "bucket_of c ts = newBucket ts (col_numShards c)" if "history c ts = None"
    using that assms(5) e(1) by (simp add: bucket_of_def)
  ultimately show ?thesis
    using f snapshot_none [of c clk ts "col_numShards c"] unfolding c_def [symmetric] Let_def
    by (cases "history c ts") (simp_all add: sum)
qed

lemma snapshot_exact_witness:
  "let ops = [MRequest (now_at second 0) ''client-0'' ''server-0'' 9 False,
        MCheck (now_at second 1) (now_at (second + 7) 9) 3,
        MRequest (now_at second 2) ''client-1'' ''server-0'' 5 True,
        MRequest (now_at (2 * second) 3) ''client-0'' ''server-0'' 7 False];
      c = fold metric_apply ops (NewCollector (now_at 0 0) (now_at second 0) 4);
      clk = \<lparr>at_elapsed = now_at (2 * second) 4, at_now = now_at (2 * second) 5, at_timestamp = now_at (2 * second) 6\<rparr>;
      m = getSnapshotForTimestamp c clk (1 - unix_offset)
    in ms_SuccessLatency m = calculateStats [9] \<and> ms_RejectedLatency m = calculateStats [5]
      \<and> ms_Latency m = calculateStats [9, 5]"
  using snapshot_exact [of 4 "now_at second 0"
      "[MRequest (now_at second 0) ''client-0'' ''server-0'' 9 False,
        MCheck (now_at second 1) (now_at (second + 7) 9) 3,
        MRequest (now_at second 2) ''client-1'' ''server-0'' 5 True,
        MRequest (now_at (2 * second) 3) ''client-0'' ''server-0'' 7 False]" "1 - unix_offset" "now_at 0 0"
      "\<lparr>at_elapsed = now_at (2 * second) 4, at_now = now_at (2 * second) 5, at_timestamp = now_at (2 * second) 6\<rparr>"]
  by (simp add: Let_def seconds_of_def map_filter_def time_unix_def second_def)

text \<open>
  \<^verbatim>\<open>Snapshot\<close> asks for the second before the clock's. While no record has been made in
  the clock's own second, that one is still the current bucket and not in the history, and the
  snapshot reports nothing of it.
\<close>

lemma snapshot_before_rotation:
  assumes "buckets_ok c" and "time_unix now - 1 = bk_Timestamp (current c)" and "in64 (time_unix now - 1)"
  shows "Snapshot c now clk = createSnapshotFromBucket c clk None"
proof -
  have "history c (bk_Timestamp (current c)) = None"
    using history_before [OF assms(1), of "bk_Timestamp (current c)"] by (meson less_irrefl not_None_eq)
  then show ?thesis using assms(2,3) by (simp add: Snapshot_def getSnapshotForTimestamp_def w64_id)
qed

section \<open>Percentiles\<close>

lemma sorted_rank:
  assumes "sorted xs" and "k < length xs"
  shows "k < length (filter (\<lambda>x. x \<le> xs ! k) xs)" and "length (filter (\<lambda>x. x < xs ! k) xs) \<le> k"
proof -
  have le: "filter (\<lambda>x. x \<le> xs ! k) (take (Suc k) xs) = take (Suc k) xs"
    using assms by (intro filter_True) (auto simp: in_set_conv_nth less_Suc_eq_le intro!: sorted_nth_mono)
  have "length (filter (\<lambda>x. x \<le> xs ! k) (take (Suc k) xs @ drop (Suc k) xs)) \<ge> Suc k"
    unfolding filter_append le using assms by simp
  then show "k < length (filter (\<lambda>x. x \<le> xs ! k) xs)" unfolding append_take_drop_id by simp
  have ge: "filter (\<lambda>x. x < xs ! k) (drop k xs) = []"
    using assms by (intro filter_False) (auto simp: in_set_conv_nth not_less intro!: sorted_nth_mono)
  have "length (filter (\<lambda>x. x < xs ! k) (take k xs @ drop k xs)) \<le> k"
    unfolding filter_append ge using length_filter_le [of _ "take k xs"] by (simp add: le_trans)
  then show "length (filter (\<lambda>x. x < xs ! k) xs) \<le> k" unfolding append_take_drop_id .
qed

lemma length_filter_sort: "length (filter P (sort xs)) = length (filter P xs)"
  by (metis mset_filter mset_sort size_mset)

lemma percentile_rank:
  assumes "k < length xs"
  shows "sort xs ! k \<in> set xs" and "k < length (filter (\<lambda>x. x \<le> sort xs ! k) xs)"
    and "length (filter (\<lambda>x. x < sort xs ! k) xs) \<le> k"
  using assms sorted_rank [of "sort xs" k] nth_mem [of k "sort xs"]
  by (simp_all add: length_filter_sort)

lemma foldl_w64_sum:
  assumes "\<forall>x\<in>set xs. 0 \<le> x" and "0 \<le> s" and "in64 (s + sum_list xs)"
  shows "foldl (\<lambda>s l. w64 (s + l)) s xs = s + sum_list xs"
  using assms
proof (induction xs arbitrary: s)
  case (Cons x xs)
  have "0 \<le> sum_list xs" using Cons.prems(1) by (simp add: sum_list_nonneg)
  then have "w64 (s + x) = s + x" using Cons.prems by (intro w64_id) (auto simp: in64_def)
  then show ?case using Cons by (simp add: add.assoc)
qed simp

lemma sum_between:
  assumes "\<forall>x\<in>set xs. lo \<le> x \<and> x \<le> (hi :: int)"
  shows "lo * int (length xs) \<le> sum_list xs \<and> sum_list xs \<le> hi * int (length xs)"
  using assms by (induction xs) (auto simp: algebra_simps)

text \<open>
  C32. The percentiles of a nonempty sample are samples of the right rank: for each of 50, 95
  and 99 more than that share (rounded down) of the samples is at most the percentile and at
  most that share is below it; the three are in order; and for latencies that are not negative
  and whose sum fits the average lies between the smallest and the largest.
\<close>

theorem calculateStats_ranks:
  assumes "ls \<noteq> []"
  shows "(\<forall>(p, x) \<in> {(50, st_P50 (calculateStats ls)), (95, st_P95 (calculateStats ls)), (99, st_P99 (calculateStats ls))}.
      x \<in> set ls \<and> length ls * p div 100 < length (filter (\<lambda>l. l \<le> x) ls)
      \<and> length (filter (\<lambda>l. l < x) ls) \<le> length ls * p div 100)
    \<and> st_P50 (calculateStats ls) \<le> st_P95 (calculateStats ls)
    \<and> st_P95 (calculateStats ls) \<le> st_P99 (calculateStats ls)
    \<and> ((\<forall>l\<in>set ls. 0 \<le> l) \<and> in64 (sum_list ls) \<longrightarrow>
         Min (set ls) \<le> st_Avg (calculateStats ls) \<and> st_Avg (calculateStats ls) \<le> Max (set ls))"
proof -
  let ?n = "length ls"
  have n: "0 < ?n" using assms by simp
  have k: "?n * 50 div 100 < ?n" "?n * 95 div 100 < ?n" "?n * 99 div 100 < ?n" using n by linarith+
  have p: "st_P50 (calculateStats ls) = sort ls ! (?n * 50 div 100)" "st_P95 (calculateStats ls) = sort ls ! (?n * 95 div 100)"
    "st_P99 (calculateStats ls) = sort ls ! (?n * 99 div 100)"
    using assms by (simp_all add: calculateStats_def Let_def)
  have o: "sort ls ! (?n * 50 div 100) \<le> sort ls ! (?n * 95 div 100)"
    "sort ls ! (?n * 95 div 100) \<le> sort ls ! (?n * 99 div 100)"
    using k by (auto intro!: sorted_nth_mono div_le_mono)
  have "Min (set ls) \<le> st_Avg (calculateStats ls) \<and> st_Avg (calculateStats ls) \<le> Max (set ls)"
    if l: "\<forall>l\<in>set ls. 0 \<le> l" and s: "in64 (sum_list ls)"
  proof -
    have "sum_list (sort ls) = sum_list ls" by (metis mset_sort sum_mset_sum_list)
    moreover have "foldl (\<lambda>s l. w64 (s + l)) 0 (sort ls) = 0 + sum_list (sort ls)"
      using l s \<open>sum_list (sort ls) = sum_list ls\<close> by (intro foldl_w64_sum) simp_all
    ultimately have "st_Avg (calculateStats ls) = sum_list ls div int ?n"
      using assms n l by (simp add: calculateStats_def Let_def quot_nonneg sum_list_nonneg)
    moreover have "Min (set ls) * int ?n \<le> sum_list ls \<and> sum_list ls \<le> Max (set ls) * int ?n"
      by (intro sum_between) simp
    ultimately show ?thesis
      using n zdiv_mono1 [of "Min (set ls) * int ?n" "sum_list ls" "int ?n"]
        zdiv_mono1 [of "sum_list ls" "Max (set ls) * int ?n" "int ?n"] by simp
  qed
  then show ?thesis
    unfolding p using percentile_rank [OF k(1)] percentile_rank [OF k(2)] percentile_rank [OF k(3)] o by auto
qed

lemma calculateStats_ranks_witness:
  "st_P50 (calculateStats [30, 10, 20]) \<le> st_P95 (calculateStats [30, 10, 20 :: int])
    \<and> calculateStats [30, 10, 20] = \<lparr>st_Avg = 20, st_P50 = 20, st_P95 = 30, st_P99 = 30\<rparr>"
proof
  show "st_P50 (calculateStats [30, 10, 20]) \<le> st_P95 (calculateStats [30, 10, 20 :: int])"
    using calculateStats_ranks [of "[30, 10, 20]"] by simp
  show "calculateStats [30, 10, 20] = \<lparr>st_Avg = 20, st_P50 = 20, st_P95 = 30, st_P99 = 30\<rparr>"
    by code_simp
qed

end
