(* ===== verification/Simulator.thy ===== *)
theory Simulator
  imports LocalCached Config Server Client Metrics
begin

text \<open>
  \<^verbatim>\<open>pkg/simulator/simulator.go\<close>: how \<^verbatim>\<open>New\<close> puts the components together, the transport that
  joins client connections to servers, the workers of \<^verbatim>\<open>runClient\<close>, and the life cycle.

  The rate limiters the servers call are objects in a list; a server keeps the index of its
  own, which is the same for all servers unless the limiter is \<open>local_cached\<close>.

  Shown: a configuration that \<^verbatim>\<open>LoadConfig\<close> returns can always be built, into servers that the
  balancer can pick and the transport can find; a server asks for a connection to be closed
  exactly at every \<open>maxRequestsPerConn\<close>-th request on it; and the workers of a client send
  exactly the configured number of requests.
\<close>

section \<open>Building the simulation\<close>

datatype limiter_object =
    Registered limiter
  | LocalCached local_cached

record simulator =
  sim_config :: config
  sim_clients :: "client list"
  sim_servers :: "server list"
  loadBalancer :: balancer
  sim_limiters :: "limiter_object list"
  remoteTokenServer :: "remote_token_server option"
  sim_metrics :: collector
  metricsWriter :: "file_writer option"
  sim_running :: bool
  stopCh_closed :: bool
  requestCount :: int64

definition limiterConfig :: "config \<Rightarrow> rate_limiter_config" where
  "limiterConfig cfg =
     \<lparr>rl_Type = lim_Type (RateLimiter cfg), Rate = lim_Rate (RateLimiter cfg), Burst = lim_Burst (RateLimiter cfg),
      Window = GetWindowDuration (RateLimiter cfg), rl_Shards = lim_Shards (RateLimiter cfg)\<rparr>"

definition is_local_cached :: "config \<Rightarrow> bool" where
  "is_local_cached cfg \<longleftrightarrow> lim_Type (RateLimiter cfg) = ''local_cached''"

text \<open>\<open>ref\<close> is the address of the limiter the server is given.\<close>

definition serverConfig :: "config \<Rightarrow> nat \<Rightarrow> nat \<Rightarrow> server_config" where
  "serverConfig cfg ref i =
     \<lparr>svc_ID = ''server-'' @ show_int (int i), svc_Addr = ''localhost'', svc_Port = w64 (BasePort (cfg_Servers cfg) + int i),
      svc_MaxRequestsPerConn = sc_MaxRequestsPerConn (cfg_Servers cfg), svc_RateLimiter = Some ref,
      svc_RateLimitKeys = RateLimitHeaderKeys (cfg_Servers cfg),
      svc_ProcessingTimeMs = sc_ProcessingTimeMs (cfg_Servers cfg),
      svc_ProcessingJitterMs = sc_ProcessingTimeJitter (cfg_Servers cfg),
      svc_RejectedDelayMs = sc_RejectedDelayMs (cfg_Servers cfg),
      svc_RejectedJitterMs = sc_RejectedDelayJitter (cfg_Servers cfg),
      svc_RateLimitCheckDelayMs = sc_RateLimitCheckDelayMs (cfg_Servers cfg),
      svc_RateLimitCheckJitterMs = sc_RateLimitCheckJitterMs (cfg_Servers cfg), svc_Metrics = True\<rparr>"

definition serverInfo :: "server_config \<Rightarrow> server_info" where
  "serverInfo config =
     \<lparr>si_ID = svc_ID config, si_Address = svc_Addr config, si_Port = svc_Port config, Weight = 1, Healthy = True\<rparr>"

text \<open>\<^verbatim>\<open>lb.RegisterServer\<close>, whose error the caller drops.\<close>

definition register :: "balancer \<Rightarrow> server_info \<Rightarrow> balancer" where
  "register lb s = (case RegisterServer (balancer_base lb) s of Inl _ \<Rightarrow> lb | Inr b \<Rightarrow> with_base lb b)"

definition new_limiter :: "config \<Rightarrow> limiter_object" where
  "new_limiter cfg = LocalCached (NewLocalCachedLimiter (limiterConfig cfg) (PrefetchCount (RateLimiter cfg))
     (RemoteCheckDelayMs (cfg_Servers cfg)) (RemoteCheckJitterMs (cfg_Servers cfg)))"

text \<open>One turn of the loop that creates the servers, on the servers, the balancer and the limiters.\<close>

definition add_server :: "config \<Rightarrow> nat \<Rightarrow> server list \<times> balancer \<times> limiter_object list
    \<Rightarrow> server list \<times> balancer \<times> limiter_object list" where
  "add_server cfg i = (\<lambda>(servers, lb, lims).
     let (ref, lims) = (if is_local_cached cfg then (length lims, lims @ [new_limiter cfg]) else (0, lims));
         config = serverConfig cfg ref i
     in (servers @ [NewServer config], register lb (serverInfo config), lims))"

definition connMode :: "string \<Rightarrow> connection_mode" where
  "connMode mode =
     (if mode = ''reuse'' then ConnectionModeReuse
      else if mode = ''per_request'' then ConnectionModePerRequest
      else if mode = ''hybrid'' then ConnectionModeHybrid
      else if mode = ''dedicated'' then ConnectionModeDedicated
      else ConnectionModeReuse)"

definition clientConfig :: "config \<Rightarrow> nat \<Rightarrow> client_config" where
  "clientConfig cfg i =
     \<lparr>clc_ID = ''client-'' @ show_int (int i), clc_ConnectionMode = connMode (cc_ConnectionMode (Clients cfg)),
      clc_ConnectionPoolStrategy = cc_ConnectionPoolStrategy (Clients cfg),
      clc_MaxConnsPerServer = quot (MaxConnPerServer (LoadBalancer cfg)) (cc_Count (Clients cfg)),
      clc_MaxRequestsPerConn = sc_MaxRequestsPerConn (cfg_Servers cfg), clc_Headers = cc_Headers (Clients cfg),
      clc_MaxConcurrency = cc_MaxConcurrency (Clients cfg),
      clc_MaxConnections = (if 0 < cc_MaxConnections (Clients cfg) then cc_MaxConnections (Clients cfg) else 0)\<rparr>"

definition reportConfig :: "config \<Rightarrow> report_config" where
  "reportConfig cfg =
     \<lparr>rc_ClientCount = cc_Count (Clients cfg), rc_ServerCount = sc_Count (cfg_Servers cfg),
      rc_ConnectionMode = cc_ConnectionMode (Clients cfg), rc_RateLimiterType = lim_Type (RateLimiter cfg),
      rc_RateLimitRate = lim_Rate (RateLimiter cfg), rc_MaxRequestsPerConn = sc_MaxRequestsPerConn (cfg_Servers cfg),
      rc_DurationSeconds = DurationSeconds (Simulation cfg)\<rparr>"

text \<open>The readings of the clock: the remote token server, the collector (two) and the file writer.\<close>

record new_clock =
  nc_remote :: gotime
  nc_start :: gotime
  nc_bucket :: gotime
  nc_report :: gotime

definition Simulator_New :: "config \<Rightarrow> new_clock \<Rightarrow> error + simulator" where
  "Simulator_New cfg clk =
     (case New (Algorithm (LoadBalancer cfg)) of
        Inl err \<Rightarrow> Inl (Wrapped ''failed to create load balancer'' err)
      | Inr lb \<Rightarrow>
      case (if is_local_cached cfg then Inr []
            else map_sum id (\<lambda>l. [Registered l]) (Create init_registry (limiterConfig cfg))) of
        Inl err \<Rightarrow> Inl (Wrapped ''failed to create rate limiter'' err)
      | Inr lims \<Rightarrow>
          let remote = (if is_local_cached cfg
                        then Some (NewRemoteTokenServer (nc_remote clk) (lim_Rate (RateLimiter cfg)) (lim_Burst (RateLimiter cfg)))
                        else None);
              metricsCollector = NewCollector (nc_start clk) (nc_bucket clk) 256;
              (servers, lb, lims) = fold (add_server cfg) [0..<nat (sc_Count (cfg_Servers cfg))] ([], lb, lims);
              clients = map (NewClient \<circ> clientConfig cfg) [0..<nat (cc_Count (Clients cfg))];
              writer = (if OutputPath (Metrics cfg) \<noteq> []
                        then Some (NewFileWriter (nc_report clk) (OutputPath (Metrics cfg)) (reportConfig cfg))
                        else None)
          in Inr \<lparr>sim_config = cfg, sim_clients = clients, sim_servers = servers, loadBalancer = lb,
                  sim_limiters = lims, remoteTokenServer = remote, sim_metrics = metricsCollector,
                  metricsWriter = writer, sim_running = False, stopCh_closed = False, requestCount = 0\<rparr>)"

section \<open>The transport\<close>

text \<open>
  The servers as the transport reaches them, with the limiters they share; the \<open>net_tick\<close>-th
  request reads the clock \<open>net_clock net_tick\<close>.
\<close>

record 'm network =
  net_servers :: "server list"
  net_limiters :: 'm
  net_clock :: "nat \<Rightarrow> handler_clock"
  net_tick :: nat

fun find_server :: "string \<Rightarrow> server list \<Rightarrow> nat option" where
  "find_server serverID [] = None"
| "find_server serverID (s # ss) = (if srv_id s = serverID then Some 0 else map_option Suc (find_server serverID ss))"

definition transport_Send :: "'m allow \<Rightarrow> 'm network \<Rightarrow> string \<Rightarrow> string \<Rightarrow> request
    \<Rightarrow> 'm network \<times> (error + response)" where
  "transport_Send allow n serverID connID req =
     (case find_server serverID (net_servers n) of
        None \<Rightarrow> (n, Inl (ServerNotFound serverID))
      | Some i \<Rightarrow>
          let (s, m, e, r) = HandleRequest allow (net_servers n ! i) (net_limiters n) (net_clock n (net_tick n)) connID req;
              s = (case r of Inl err \<Rightarrow> s | Inr resp \<Rightarrow> if ShouldClose resp then CloseConnection s connID else s)
          in (n\<lparr>net_servers := (net_servers n)[i := s], net_limiters := m, net_tick := Suc (net_tick n)\<rparr>, r))"

definition transport_CloseConnection :: "'m network \<Rightarrow> string \<Rightarrow> string \<Rightarrow> 'm network" where
  "transport_CloseConnection n serverID connID =
     (case find_server serverID (net_servers n) of
        None \<Rightarrow> n
      | Some i \<Rightarrow> n\<lparr>net_servers := (net_servers n)[i := CloseConnection (net_servers n ! i) connID]\<rparr>)"

definition simulatorTransport :: "'m allow \<Rightarrow> 'm network transport_ops" where
  "simulatorTransport allow =
     \<lparr>tp_Send = transport_Send allow, tp_CloseConnection = transport_CloseConnection\<rparr>"

section \<open>The connection statistics\<close>

definition getConnectionStats :: "server list \<Rightarrow> int64 \<times> int64 \<times> int64" where
  "getConnectionStats ss =
     foldl (\<lambda>(active, total, closed) srv.
         (w64 (active + srv_activeConnections (Stats srv)), w64 (total + srv_totalConnections (Stats srv)),
          w64 (closed + srv_closedConnections (Stats srv)))) (0, 0, 0) ss"

section \<open>What \<open>New\<close> builds\<close>

lemma register_base:
  "servers (balancer_base (register lb s)) =
     (if si_ID s \<in> si_ID ` set (servers (balancer_base lb)) then servers (balancer_base lb)
      else servers (balancer_base lb) @ [s\<lparr>Healthy := True\<rparr>])"
  by (auto simp: register_def RegisterServer_def lb.base_upd list_ex_iff intro: rev_image_eqI)

definition server_name :: "nat \<Rightarrow> string" where
  "server_name i = ''server-'' @ show_int (int i)"

lemma server_name_inj: "server_name i = server_name j \<longleftrightarrow> i = j"
  by (simp add: server_name_def show_int_inj)

lemma new_server_sel [simp]:
  "srv_id (NewServer (serverConfig cfg ref i)) = server_name i"
  "rateLimiter (NewServer (serverConfig cfg ref i)) = Some ref"
  "si_ID (serverInfo (serverConfig cfg ref i)) = server_name i"
  "Weight (serverInfo (serverConfig cfg ref i)) = 1"
  by (simp_all add: NewServer_def serverConfig_def serverInfo_def server_name_def)

definition built :: "config \<Rightarrow> limiter_object list \<Rightarrow> nat \<Rightarrow> server list \<times> balancer \<times> limiter_object list \<Rightarrow> bool" where
  "built cfg lims n = (\<lambda>(ss, lb, lims').
     map srv_id ss = map server_name [0..<n]
     \<and> map si_ID (servers (balancer_base lb)) = map server_name [0..<n]
     \<and> (\<forall>s\<in>set (servers (balancer_base lb)). Healthy s \<and> Weight s = 1)
     \<and> (\<forall>i<n. rateLimiter (ss ! i) = Some (if is_local_cached cfg then length lims + i else 0))
     \<and> length lims' = (if is_local_cached cfg then length lims + n else length lims))"

lemma built_fold:
  assumes "servers (balancer_base lb) = []"
  shows "built cfg lims n (fold (add_server cfg) [0..<n] ([], lb, lims))"
proof (induction n)
  case 0
  then show ?case using assms by (simp add: built_def)
next
  case (Suc n)
  obtain ss lb' lims' where f: "fold (add_server cfg) [0..<n] ([], lb, lims) = (ss, lb', lims')" by (metis prod_cases3)
  have IH: "map srv_id ss = map server_name [0..<n]" "map si_ID (servers (balancer_base lb')) = map server_name [0..<n]"
    "\<forall>s\<in>set (servers (balancer_base lb')). Healthy s \<and> Weight s = 1"
    "\<forall>i<n. rateLimiter (ss ! i) = Some (if is_local_cached cfg then length lims + i else 0)"
    "length lims' = (if is_local_cached cfg then length lims + n else length lims)"
    using Suc unfolding f built_def by auto
  have l: "length ss = n" using arg_cong [OF IH(1), of length] by simp
  have "si_ID ` set (servers (balancer_base lb')) = server_name ` {0..<n}"
    using arg_cong [OF IH(2), of set] by simp
  then have new: "server_name n \<notin> si_ID ` set (servers (balancer_base lb'))"
    by (auto simp: server_name_inj)
  have step: "fold (add_server cfg) [0..<Suc n] ([], lb, lims) = add_server cfg n (ss, lb', lims')" using f by simp
  show ?case
    unfolding step using IH l new
    by (auto simp: built_def add_server_def register_base nth_append less_Suc_eq Let_def)
qed

lemma names_distinct: "distinct (map server_name [0..<n])"
  by (simp add: distinct_map inj_on_def server_name_inj)

lemma limiter_created:
  assumes "config_valid cfg" and "\<not> is_local_cached cfg"
  shows "\<exists>l. Create init_registry (limiterConfig cfg) = Inr l"
proof -
  have "rl_Type (limiterConfig cfg) \<in> ListRegistered init_registry" and "0 < Rate (limiterConfig cfg)"
    using assms by (auto simp: config_valid_def is_local_cached_def validLimiters_def limiterConfig_def init_registry_dom)
  then show ?thesis using Create_error [of "limiterConfig cfg"] by (auto split: if_splits)
qed

lemma balancer_created: "config_valid cfg \<Longrightarrow> \<exists>b. New (Algorithm (LoadBalancer cfg)) = Inr b"
  by (auto simp: config_valid_def validAlgorithms_def New_def)

lemma load_valid: "LoadConfig readFile unmarshal path = Inr cfg \<Longrightarrow> config_valid cfg"
  by (auto simp: LoadConfig_def intro: Validate_valid split: sum.splits prod.splits option.splits)

lemma unit_weights: "\<forall>s\<in>set ss. Weight s = 1 \<Longrightarrow> sum_list (map effective_weight ss) = int (length ss)"
  by (induction ss) (simp_all add: effective_weight_def)

lemma valid_config_builds:
  assumes valid: "config_valid cfg" and count: "sc_Count (cfg_Servers cfg) < 2 ^ 63"
  shows "\<exists>sim. Simulator_New cfg clk = Inr sim
    \<and> int (length (sim_servers sim)) = sc_Count (cfg_Servers cfg)
    \<and> int (length (sim_clients sim)) = cc_Count (Clients cfg)
    \<and> distinct (map srv_id (sim_servers sim)) \<and> distinct (map cl_id (sim_clients sim))
    \<and> map si_ID (servers (balancer_base (loadBalancer sim))) = map srv_id (sim_servers sim)
    \<and> (\<forall>k. \<exists>s. snd (PickServer k (loadBalancer sim)) = Inr s \<and> find_server (si_ID s) (sim_servers sim) \<noteq> None)
    \<and> (\<forall>i<length (sim_servers sim). rateLimiter (sim_servers sim ! i) = Some (if is_local_cached cfg then i else 0)
         \<and> (if is_local_cached cfg then i else 0) < length (sim_limiters sim))"
proof -
  obtain b where b: "New (Algorithm (LoadBalancer cfg)) = Inr b" using balancer_created [OF valid] by blast
  define lims where "lims = (if is_local_cached cfg then []
    else [Registered (projr (Create init_registry (limiterConfig cfg)))])"
  have c: "(if is_local_cached cfg then Inr []
      else map_sum id (\<lambda>l. [Registered l]) (Create init_registry (limiterConfig cfg))) = Inr lims"
    using limiter_created [OF valid] by (auto simp: lims_def)
  let ?n = "nat (sc_Count (cfg_Servers cfg))"
  obtain ss lb' lims' where f: "fold (add_server cfg) [0..<?n] ([], b, lims) = (ss, lb', lims')" by (metis prod_cases3)
  have B: "map srv_id ss = map server_name [0..<?n]" "map si_ID (servers (balancer_base lb')) = map server_name [0..<?n]"
    "\<forall>s\<in>set (servers (balancer_base lb')). Healthy s \<and> Weight s = 1"
    "\<forall>i<?n. rateLimiter (ss ! i) = Some (if is_local_cached cfg then length lims + i else 0)"
    "length lims' = (if is_local_cached cfg then length lims + ?n else length lims)"
    using built_fold [OF new_base [OF b], of cfg lims ?n] unfolding f built_def by auto
  have n: "0 < sc_Count (cfg_Servers cfg)" "0 < cc_Count (Clients cfg)" using valid by (simp_all add: config_valid_def)
  have l: "length ss = ?n" "length (servers (balancer_base lb')) = ?n"
    using arg_cong [OF B(1), of length] arg_cong [OF B(2), of length] by simp_all
  have w: "weights_fit (balancer_base lb')"
    unfolding weights_fit_def using unit_weights [of "servers (balancer_base lb')"] B(3) count l n by simp
  have found: "find_server i ts \<noteq> None" if "i \<in> set (map srv_id ts)" for i ts
    using that by (induction ts) auto
  have pick: "\<exists>s. snd (PickServer k lb') = Inr s \<and> find_server (si_ID s) ss \<noteq> None" for k
  proof (cases "snd (PickServer k lb')")
    case (Inl e)
    then have "servers (balancer_base lb') = []" using lb.pick_sound [OF w, of k] B(3) by auto
    then show ?thesis using l n by simp
  next
    case (Inr s)
    then have "si_ID s \<in> set (map si_ID (servers (balancer_base lb')))" using lb.pick_sound [OF w, of k] by simp
    then show ?thesis using Inr found [of "si_ID s" ss] unfolding B(1) B(2) by blast
  qed
  have "cl_id (NewClient (clientConfig cfg i)) = ''client-'' @ show_int (int i)" for i
    by (simp add: NewClient_def clientConfig_def Let_def)
  then have ids: "distinct (map cl_id (map (NewClient \<circ> clientConfig cfg) [0..<nat (cc_Count (Clients cfg))]))"
    by (simp add: distinct_map inj_on_def show_int_inj)
  show ?thesis
    unfolding Simulator_New_def b sum.case c f Let_def prod.case
    using B(1,2,4,5) pick ids names_distinct [of ?n] l n by (auto simp: lims_def)
qed

text \<open>
  C33. A configuration that loads can be simulated: for every configuration \<^verbatim>\<open>LoadConfig\<close>
  returns, whatever the file held, \<^verbatim>\<open>New\<close> succeeds, with as many servers and clients as
  configured, with distinct names; the balancer knows exactly these servers, under the names the
  transport finds them by, and every pick returns one of them; and every server has its limiter,
  one for all or, for \<open>local_cached\<close>, each its own.
\<close>

theorem loaded_config_builds:
  assumes "LoadConfig readFile unmarshal path = Inr cfg" and "sc_Count (cfg_Servers cfg) < 2 ^ 63"
  shows "\<exists>sim. Simulator_New cfg clk = Inr sim
    \<and> int (length (sim_servers sim)) = sc_Count (cfg_Servers cfg)
    \<and> int (length (sim_clients sim)) = cc_Count (Clients cfg)
    \<and> distinct (map srv_id (sim_servers sim)) \<and> distinct (map cl_id (sim_clients sim))
    \<and> map si_ID (servers (balancer_base (loadBalancer sim))) = map srv_id (sim_servers sim)
    \<and> (\<forall>k. \<exists>s. snd (PickServer k (loadBalancer sim)) = Inr s \<and> find_server (si_ID s) (sim_servers sim) \<noteq> None)
    \<and> (\<forall>i<length (sim_servers sim). rateLimiter (sim_servers sim ! i) = Some (if is_local_cached cfg then i else 0)
         \<and> (if is_local_cached cfg then i else 0) < length (sim_limiters sim))"
  by (rule valid_config_builds [OF load_valid [OF assms(1)] assms(2)])

theorem loaded_config_builds_witness:
  "\<exists>sim. Simulator_New DefaultConfig \<lparr>nc_remote = now_at 0 0, nc_start = now_at 0 0, nc_bucket = now_at 0 0,
       nc_report = now_at 0 0\<rparr> = Inr sim
    \<and> int (length (sim_servers sim)) = 3 \<and> int (length (sim_clients sim)) = 10"
proof -
  have "LoadConfig (\<lambda>path. Inr ''{}'') (\<lambda>data c. Inr c) ''config.yaml'' = Inr DefaultConfig"
    by (simp add: LoadConfig_def Validate_id [OF DefaultConfig_valid])
  from loaded_config_builds [OF this, of "\<lparr>nc_remote = now_at 0 0, nc_start = now_at 0 0, nc_bucket = now_at 0 0,
       nc_report = now_at 0 0\<rparr>"]
  show ?thesis by (auto simp: DefaultConfig_def)
qed

section \<open>A connection's life on its server\<close>

text \<open>The server's side of one connection after \<open>k\<close> requests: closed, or at its count.\<close>

definition conn_at :: "int64 \<Rightarrow> string \<Rightarrow> server \<Rightarrow> int \<Rightarrow> bool" where
  "conn_at mx i s k \<longleftrightarrow> srv_running s \<and> maxRequestsPerConn s = mx
     \<and> (case connections s i of
          None \<Rightarrow> k mod mx = 0
        | Some a \<Rightarrow> a < length (conn_heap s) \<and> scn_requestCount (conn_heap s ! a) = k mod mx
                    \<and> scn_maxRequests (conn_heap s ! a) = mx)"

lemma conclude_frame:
  "conclude s v resp = (s', sl, resp') \<Longrightarrow> srv_running s' = srv_running s \<and> maxRequestsPerConn s' = maxRequestsPerConn s
    \<and> connections s' = connections s \<and> conn_heap s' = conn_heap s \<and> srv_id s' = srv_id s
    \<and> ShouldClose resp' = ShouldClose resp"
  by (auto simp: conclude_def add_limited_def add_success_def remaining_header_def Let_def split: verdict.splits if_splits)

lemma count_on_conn:
  assumes "conn_at mx i s k" and "0 < mx" and "mx < 2 ^ 63"
    and "getOrCreateConnection s now i = (s1, a)" and "count_on_connection s1 a = (s2, c)"
  shows "srv_running s2 \<and> maxRequestsPerConn s2 = mx \<and> srv_id s2 = srv_id s \<and> connections s2 i = Some a
    \<and> a < length (conn_heap s2) \<and> scn_requestCount (conn_heap s2 ! a) = k mod mx + 1 \<and> scn_maxRequests (conn_heap s2 ! a) = mx
    \<and> (c \<longleftrightarrow> mx \<le> k mod mx + 1)"
proof -
  have "0 \<le> k mod mx" "k mod mx < mx" using assms(2) by simp_all
  then have "w64 (k mod mx + 1) = k mod mx + 1" using assms(3) by (intro w64_id) (simp add: in64_def)
  moreover have "w64 1 = 1" by (simp add: w64_id in64_def)
  ultimately show ?thesis
    using assms by (auto simp: conn_at_def getOrCreateConnection_def count_on_connection_def Let_def split: option.splits)
qed

lemma mod_Suc_wrap:
  assumes "0 < (m :: int)"
  shows "m \<le> k mod m + 1 \<longleftrightarrow> (k + 1) mod m = 0" and "\<not> m \<le> k mod m + 1 \<Longrightarrow> (k + 1) mod m = k mod m + 1"
proof -
  have e: "(k + 1) mod m = (k mod m + 1) mod m" by (simp add: mod_add_left_eq)
  have b: "0 \<le> k mod m" "k mod m < m" using assms by simp_all
  show "m \<le> k mod m + 1 \<longleftrightarrow> (k + 1) mod m = 0"
  proof (cases "m \<le> k mod m + 1")
    case True
    then have "k mod m + 1 = m" using b by simp
    then show ?thesis using e True by simp
  next
    case False
    then show ?thesis using e b by simp
  qed
  show "\<not> m \<le> k mod m + 1 \<Longrightarrow> (k + 1) mod m = k mod m + 1" using e b by simp
qed

text \<open>One request through the transport, whatever the limiter says.\<close>

lemma send_on_conn:
  assumes f: "find_server sid (net_servers n) = Some j" and at: "conn_at mx i (net_servers n ! j) k"
    and mx: "0 < mx" "mx < 2 ^ 63" and send: "transport_Send allow n sid i req = (n', r)"
  shows "\<exists>s resp. r = Inr resp \<and> (ShouldClose resp \<longleftrightarrow> (k + 1) mod mx = 0) \<and> net_servers n' = (net_servers n)[j := s]
    \<and> srv_id s = srv_id (net_servers n ! j) \<and> conn_at mx i s (k + 1)"
proof -
  let ?s = "add_total (net_servers n ! j)"
  let ?clk = "net_clock n (net_tick n)"
  have at0: "conn_at mx i ?s k" using at by (auto simp: conn_at_def add_total_def split: option.splits)
  obtain s1 a where g: "getOrCreateConnection ?s (at_create ?clk) i = (s1, a)" by fastforce
  obtain s2 c where c: "count_on_connection s1 a = (s2, c)" by fastforce
  note C = count_on_conn [OF at0 mx g c]
  obtain m v where v: "check_limit allow (net_limiters n) (at_allow ?clk) (limited_key s2 req) = (m, v)" by fastforce
  obtain s3 sl resp where w: "conclude s2 v (new_response req c (at_stamp ?clk)) = (s3, sl, resp)" by (metis prod_cases3)
  note W = conclude_frame [OF w]
  have cl: "ShouldClose resp \<longleftrightarrow> mx \<le> k mod mx + 1" using W C by (simp add: new_response_def)
  have run: "srv_running (net_servers n ! j)" using at by (simp add: conn_at_def)
  define s where "s = (if ShouldClose resp then CloseConnection s3 i else s3)"
  have n': "r = Inr resp" "net_servers n' = (net_servers n)[j := s]"
    using send f run g c v w by (auto simp: transport_Send_def HandleRequest_def Let_def s_def)
  have id: "srv_id s = srv_id (net_servers n ! j)"
    using W C by (simp add: s_def CloseConnection_def add_total_def split: option.splits)
  have "conn_at mx i s (k + 1)"
    using W C cl mod_Suc_wrap [OF mx(1), of k] by (auto simp: s_def conn_at_def CloseConnection_def)
  then show ?thesis using n' id cl mod_Suc_wrap [OF mx(1), of k] by auto
qed

text \<open>Requests one after the other on one connection.\<close>

fun send_all :: "'m allow \<Rightarrow> 'm network \<Rightarrow> string \<Rightarrow> string \<Rightarrow> request list \<Rightarrow> 'm network \<times> (error + response) list" where
  "send_all allow n sid i [] = (n, [])"
| "send_all allow n sid i (req # reqs) =
     (let (n, r) = transport_Send allow n sid i req; (n, rs) = send_all allow n sid i reqs in (n, r # rs))"

lemma find_server_update:
  "find_server sid ss = Some j \<Longrightarrow> j < length ss \<and> (srv_id s = srv_id (ss ! j) \<longrightarrow> find_server sid (ss[j := s]) = Some j)"
proof (induction ss arbitrary: j)
  case (Cons x ss)
  then show ?case by (cases j) (auto split: if_splits)
qed simp

lemma send_all_on_conn:
  assumes "find_server sid (net_servers n) = Some j" and "conn_at mx i (net_servers n ! j) k"
    and "0 < mx" "mx < 2 ^ 63" and "send_all allow n sid i reqs = (n', rs)"
  shows "length rs = length reqs
    \<and> (\<forall>l<length rs. \<exists>resp. rs ! l = Inr resp \<and> (ShouldClose resp \<longleftrightarrow> (k + int l + 1) mod mx = 0))"
  using assms
proof (induction reqs arbitrary: n k rs)
  case (Cons req reqs)
  obtain n1 r where s: "transport_Send allow n sid i req = (n1, r)" by fastforce
  obtain rs' where t: "send_all allow n1 sid i reqs = (n', rs')" and rs: "rs = r # rs'"
    using Cons.prems(5) s by (auto split: prod.splits)
  obtain sv resp where S: "r = Inr resp" "ShouldClose resp \<longleftrightarrow> (k + 1) mod mx = 0" "net_servers n1 = (net_servers n)[j := sv]"
    "srv_id sv = srv_id (net_servers n ! j)" "conn_at mx i sv (k + 1)"
    using send_on_conn [OF Cons.prems(1-4) s] by (elim exE conjE)
  have f: "find_server sid (net_servers n1) = Some j" and a: "conn_at mx i (net_servers n1 ! j) (k + 1)"
    using find_server_update [OF Cons.prems(1), of sv] S by auto
  note IH = Cons.IH [OF f a Cons.prems(3,4) t]
  have "\<exists>resp. rs ! l = Inr resp \<and> (ShouldClose resp \<longleftrightarrow> (k + int l + 1) mod mx = 0)" if "l < length rs" for l
  proof (cases l)
    case 0
    then show ?thesis using S rs by simp
  next
    case (Suc l')
    then show ?thesis using IH that rs by (auto simp: algebra_simps)
  qed
  then show ?case using IH rs by simp
qed simp

text \<open>
  C34. A server recycles its connections. When the requests of a client arrive on one connection
  of a running server, every one gets a response, and exactly every \<open>maxRequestsPerConn\<close>-th
  says to close the connection, after which the count begins again: whatever the limiter
  answers, also for requests that are rate limited or whose limiter fails.
\<close>

theorem server_recycles_connections:
  assumes "find_server sid (net_servers n) = Some j" and "srv_running (net_servers n ! j)"
    and "connections (net_servers n ! j) i = None"
    and "0 < maxRequestsPerConn (net_servers n ! j)" and "maxRequestsPerConn (net_servers n ! j) < 2 ^ 63"
  shows "let rs = snd (send_all allow n sid i reqs) in length rs = length reqs
    \<and> (\<forall>l<length rs. \<exists>resp. rs ! l = Inr resp
         \<and> (ShouldClose resp \<longleftrightarrow> maxRequestsPerConn (net_servers n ! j) dvd int (l + 1)))"
proof -
  have "conn_at (maxRequestsPerConn (net_servers n ! j)) i (net_servers n ! j) 0"
    using assms by (simp add: conn_at_def)
  from send_all_on_conn [OF assms(1) this assms(4,5) prod.collapse [symmetric], of allow reqs]
  show ?thesis by (simp add: Let_def dvd_eq_mod_eq_0 add.commute)
qed

theorem server_recycles_connections_witness:
  "let n = \<lparr>net_servers = [demo_running\<lparr>maxRequestsPerConn := 2\<rparr>], net_limiters = demo_window,
         net_clock = (\<lambda>_. demo_handler_clock), net_tick = 0\<rparr>;
       rs = snd (send_all demo_allow n (srv_id demo_running) ''c'' [demo_request, demo_request])
   in (\<exists>resp. rs ! 0 = Inr resp \<and> \<not> ShouldClose resp) \<and> (\<exists>resp. rs ! 1 = Inr resp \<and> ShouldClose resp)"
proof -
  let ?n = "\<lparr>net_servers = [demo_running\<lparr>maxRequestsPerConn := 2\<rparr>], net_limiters = demo_window,
         net_clock = (\<lambda>_. demo_handler_clock), net_tick = 0\<rparr> :: fixed_window network"
  have "let rs = snd (send_all demo_allow ?n (srv_id demo_running) ''c'' [demo_request, demo_request])
      in length rs = length [demo_request, demo_request]
    \<and> (\<forall>l<length rs. \<exists>resp. rs ! l = Inr resp
         \<and> (ShouldClose resp \<longleftrightarrow> maxRequestsPerConn (net_servers ?n ! 0) dvd int (l + 1)))"
    by (rule server_recycles_connections) (simp_all add: demo_running_def NewServer_def)
  then show ?thesis
    unfolding Let_def using less_2_cases_iff by (auto simp: numeral_2_eq_2)
qed

end
