(* ===== verification/Workers.thy ===== *)
theory Workers
  imports Simulator
begin

text \<open>
  The workers of \<^verbatim>\<open>runClient\<close> in \<^verbatim>\<open>pkg/simulator/simulator.go\<close>: \<^verbatim>\<open>maxConcurrency\<close> goroutines that
  share the client, its request counter and its rate limiter, and the collector and the request
  counter of the simulator. \<open>worker_step\<close> interleaves them, one action on the shared state at a
  time; a call of \<^verbatim>\<open>Client.Send\<close> is one action, possible when it returns; the
  theory \<open>Crew\<close> opens it up.

  Shown: the workers of a client together send exactly the configured number of requests, each
  recorded once in the collector, whatever the order of their actions; a run that is cancelled
  sends no more.
\<close>

section \<open>State\<close>

record worker_params =
  requestsPerClient :: int64
  testTimeSeconds :: int
  targetRate :: int
  wp_maxConcurrency :: int
  wp_headers :: "string \<rightharpoonup> string"

definition worker_params :: "config \<Rightarrow> worker_params" where
  "worker_params cfg =
     \<lparr>requestsPerClient = RequestsPerClient (Clients cfg), testTimeSeconds = TestTimeSeconds (Clients cfg),
      targetRate = RequestRate (Clients cfg),
      wp_maxConcurrency = (if cc_MaxConcurrency (Clients cfg) \<le> 0 then 1 else cc_MaxConcurrency (Clients cfg)),
      wp_headers = cc_Headers (Clients cfg)\<rparr>"

text \<open>
  Where a worker is; its argument is the worker's \<^verbatim>\<open>dedicatedConn\<close>. It is about to create the
  dedicated connection, at the head of the loop, past the termination check, waiting for a token,
  about to send, back with the answer, about to replace the dedicated connection (after an error,
  or because it was closed), or gone.
\<close>

datatype worker_pc =
    Starting
  | Top "nat option"
  | Claimed "nat option"
  | Throttled "nat option"
  | Sending "nat option"
  | Replied "nat option" duration "error + response"
  | Replacing bool "nat option"
  | Gone

record 't worker_sys =
  wk_client :: client
  wk_world :: "'t world"
  wk_metrics :: collector
  wk_limiter :: "token_bucket option"
  requestCounter :: int64
  wk_requestCount :: int64
  wk_cancelled :: bool
  wk_pcs :: "nat \<rightharpoonup> worker_pc"

section \<open>The actions of a worker\<close>

definition useTimeBased :: "worker_params \<Rightarrow> bool" where
  "useTimeBased p \<longleftrightarrow> requestsPerClient p \<le> 0 \<and> 0 < testTimeSeconds p"

text \<open>The termination check: the counter afterwards, and whether the worker goes on.\<close>

definition claim :: "worker_params \<Rightarrow> gotime \<Rightarrow> gotime \<Rightarrow> int64 \<Rightarrow> int64 \<times> bool" where
  "claim p clientDeadline now counter =
     (if useTimeBased p then (counter, \<not> time_after now clientDeadline)
      else if 0 < requestsPerClient p
      then let currentReq = w64 (counter + 1) in (currentReq, \<not> requestsPerClient p < currentReq)
      else (counter, True))"

text \<open>One attempt to get a token; the error of \<^verbatim>\<open>Allow\<close> is dropped, and there is none.\<close>

definition try_token :: "token_bucket option \<Rightarrow> gotime \<Rightarrow> token_bucket option \<times> bool" where
  "try_token rl now =
     (case rl of
        None \<Rightarrow> (None, True)
      | Some t \<Rightarrow>
          (case TokenBucket_Allow t now ''client'' of
             (t, Inr res) \<Rightarrow> (Some t, Allowed res)
           | (t, Inl _) \<Rightarrow> (Some t, False)))"

definition new_request :: "worker_params \<Rightarrow> string \<Rightarrow> int64 \<Rightarrow> gotime \<Rightarrow> request" where
  "new_request p clientID n now =
     \<lparr>req_ID = ''req-'' @ clientID @ ''-'' @ show_int n, req_ClientID = clientID,
      req_Headers = [''X-User-ID'' \<mapsto> clientID] ++ wp_headers p, req_Timestamp = now\<rparr>"

text \<open>The deferred \<^verbatim>\<open>dedicatedConn.Close()\<close>.\<close>

definition close_dedicated :: "'t transport_ops option \<Rightarrow> 't world \<Rightarrow> nat option \<Rightarrow> 't world" where
  "close_dedicated ops w d = (case d of None \<Rightarrow> w | Some a \<Rightarrow> close_connection ops w a)"

text \<open>What the metrics are told of an answer.\<close>

definition record_reply :: "collector \<Rightarrow> gotime \<Rightarrow> string \<Rightarrow> duration \<Rightarrow> error + response \<Rightarrow> collector" where
  "record_reply c now clientID latency r =
     (case r of
        Inl err \<Rightarrow> RecordFailedRequest c
      | Inr resp \<Rightarrow> RecordRequest c now clientID [] latency (RateLimited resp))"

text \<open>Whether the dedicated connection is to be replaced after the answer.\<close>

definition needs_replacement :: "connection_mode \<Rightarrow> error + response \<Rightarrow> bool" where
  "needs_replacement mode r \<longleftrightarrow> mode = ConnectionModeDedicated \<and> (case r of Inl _ \<Rightarrow> True | Inr resp \<Rightarrow> ShouldClose resp)"

text \<open>The connection after the attempt to replace it; only after an error is the old one kept.\<close>

definition replaced :: "bool \<Rightarrow> nat option \<Rightarrow> error + nat \<Rightarrow> nat option" where
  "replaced failed d r = (case r of Inr a \<Rightarrow> Some a | Inl _ \<Rightarrow> if failed then d else None)"

definition goto :: "nat \<Rightarrow> worker_pc \<Rightarrow> 't worker_sys \<Rightarrow> 't worker_sys" where
  "goto i pc x = x\<lparr>wk_pcs := (wk_pcs x)(i \<mapsto> pc)\<rparr>"

definition leave :: "'t transport_ops option \<Rightarrow> nat \<Rightarrow> nat option \<Rightarrow> 't worker_sys \<Rightarrow> 't worker_sys" where
  "leave ops i d x = goto i Gone (x\<lparr>wk_world := close_dedicated ops (wk_world x) d\<rparr>)"

inductive worker_step :: "'t transport_ops option \<Rightarrow> worker_params \<Rightarrow> gotime \<Rightarrow> 't worker_sys \<Rightarrow> 't worker_sys \<Rightarrow> bool"
  for ops p clientDeadline where
  begin_shared: "wk_pcs x i = Some Starting \<Longrightarrow> cl_mode (wk_client x) \<noteq> ConnectionModeDedicated \<Longrightarrow>
    worker_step ops p clientDeadline x (goto i (Top None) x)"
| begin_dedicated: "wk_pcs x i = Some Starting \<Longrightarrow> cl_mode (wk_client x) = ConnectionModeDedicated \<Longrightarrow>
    CreateDedicatedConnection (wk_client x) (wk_world x) k now = (c, w, r) \<Longrightarrow>
    worker_step ops p clientDeadline x
      (goto i (Top (case r of Inr a \<Rightarrow> Some a | Inl _ \<Rightarrow> None)) (x\<lparr>wk_client := c, wk_world := w\<rparr>))"
| go_on: "wk_pcs x i = Some (Top d) \<Longrightarrow> claim p clientDeadline now (requestCounter x) = (n, True) \<Longrightarrow>
    worker_step ops p clientDeadline x (goto i (Claimed d) (x\<lparr>requestCounter := n\<rparr>))"
| finish: "wk_pcs x i = Some (Top d) \<Longrightarrow> claim p clientDeadline now (requestCounter x) = (n, False) \<Longrightarrow>
    worker_step ops p clientDeadline x (leave ops i d (x\<lparr>requestCounter := n\<rparr>))"
| proceed: "wk_pcs x i = Some (Claimed d) \<Longrightarrow> \<not> wk_cancelled x \<Longrightarrow>
    worker_step ops p clientDeadline x (goto i (Throttled d) x)"
| give_up: "wk_pcs x i = Some (Claimed d) \<Longrightarrow> wk_cancelled x \<Longrightarrow>
    worker_step ops p clientDeadline x (leave ops i d x)"
| token: "wk_pcs x i = Some (Throttled d) \<Longrightarrow> try_token (wk_limiter x) now = (rl, True) \<Longrightarrow>
    worker_step ops p clientDeadline x (goto i (Sending d) (x\<lparr>wk_limiter := rl\<rparr>))"
| no_token: "wk_pcs x i = Some (Throttled d) \<Longrightarrow> try_token (wk_limiter x) now = (rl, False) \<Longrightarrow>
    worker_step ops p clientDeadline x (goto i (Throttled d) (x\<lparr>wk_limiter := rl\<rparr>))"
| stop_waiting: "wk_pcs x i = Some (Throttled d) \<Longrightarrow> try_token (wk_limiter x) now = (rl, False) \<Longrightarrow> wk_cancelled x \<Longrightarrow>
    worker_step ops p clientDeadline x (leave ops i d (x\<lparr>wk_limiter := rl\<rparr>))"
| send: "wk_pcs x i = Some (Sending d) \<Longrightarrow> n = w64 (wk_requestCount x + 1) \<Longrightarrow> (\<not> acquired \<Longrightarrow> wk_cancelled x) \<Longrightarrow>
    Client_Send ops (wk_client x) (wk_world x) clk d acquired (new_request p (cl_id (wk_client x)) n now) = Some (c, w, r) \<Longrightarrow>
    worker_step ops p clientDeadline x
      (goto i (Replied d latency r) (x\<lparr>wk_requestCount := n, wk_client := c, wk_world := w\<rparr>))"
| note_reply: "wk_pcs x i = Some (Replied d latency r) \<Longrightarrow>
    m = record_reply (wk_metrics x) now (cl_id (wk_client x)) latency r \<Longrightarrow>
    worker_step ops p clientDeadline x
      (goto i (if needs_replacement (cl_mode (wk_client x)) r then Replacing (isl r) d else Top d) (x\<lparr>wk_metrics := m\<rparr>))"
| replace: "wk_pcs x i = Some (Replacing failed d) \<Longrightarrow>
    CreateDedicatedConnection (wk_client x) (wk_world x) k now = (c, w, r) \<Longrightarrow>
    worker_step ops p clientDeadline x (goto i (Top (replaced failed d r)) (x\<lparr>wk_client := c, wk_world := w\<rparr>))"
| cancel: "worker_step ops p clientDeadline x (x\<lparr>wk_cancelled := True\<rparr>)"

text \<open>
  The beginning of \<^verbatim>\<open>runClient\<close>: the limiter for a target rate, whose creation can fail, the
  deadline, and the workers.
\<close>

definition client_limiter :: "worker_params \<Rightarrow> error + token_bucket option" where
  "client_limiter p =
     (if 0 < targetRate p
      then map_sum id Some (NewTokenBucket \<lparr>rl_Type = ''token_bucket'', Rate = targetRate p, Burst = targetRate p,
             Window = 0, rl_Shards = 0\<rparr>)
      else Inr None)"

definition client_deadline :: "worker_params \<Rightarrow> gotime \<Rightarrow> gotime" where
  "client_deadline p now =
     (if useTimeBased p then time_add now (w64 (testTimeSeconds p * second)) else zero_time)"

definition start_workers :: "worker_params \<Rightarrow> client \<Rightarrow> 't world \<Rightarrow> collector \<Rightarrow> int64 \<Rightarrow> bool
    \<Rightarrow> error + 't worker_sys" where
  "start_workers p c w m sent cancelled =
     (case client_limiter p of
        Inl err \<Rightarrow> Inl err
      | Inr rl \<Rightarrow> Inr
          \<lparr>wk_client = c, wk_world = w, wk_metrics = m, wk_limiter = rl, requestCounter = 0,
           wk_requestCount = sent, wk_cancelled = cancelled,
           wk_pcs = (\<lambda>i. if int i < wp_maxConcurrency p then Some Starting else None)\<rparr>)"

section \<open>Every claimed request is sent and recorded\<close>

fun in_flight :: "worker_pc \<Rightarrow> bool" where
  "in_flight (Claimed _) = True"
| "in_flight (Throttled _) = True"
| "in_flight (Sending _) = True"
| "in_flight (Replied _ _ _) = True"
| "in_flight _ = False"

fun is_replied :: "worker_pc \<Rightarrow> bool" where
  "is_replied (Replied _ _ _) = True"
| "is_replied _ = False"

definition is_gone :: "worker_pc \<Rightarrow> bool" where
  "is_gone pc \<longleftrightarrow> pc = Gone"

text \<open>
  Of the requests claimed so far, \<open>k\<close> are recorded, \<open>g\<close> were given up by a cancelled worker and
  the others are in flight; the counter has gone past the limit only by the workers that left.
\<close>

definition workers_at :: "worker_params \<Rightarrow> int64 \<Rightarrow> 't worker_sys \<Rightarrow> bool" where
  "workers_at p k x \<longleftrightarrow>
     dom (wk_pcs x) = {i. int i < wp_maxConcurrency p}
     \<and> 0 \<le> requestCounter x \<and> requestCounter x \<le> requestsPerClient p + count_threads is_gone (wk_pcs x)
     \<and> (0 < count_threads is_gone (wk_pcs x) \<and> \<not> wk_cancelled x \<longrightarrow> requestsPerClient p < requestCounter x)
     \<and> 0 \<le> k \<and> (\<exists>g\<ge>0. (\<not> wk_cancelled x \<longrightarrow> g = 0)
          \<and> k + count_threads in_flight (wk_pcs x) + g = min (requestCounter x) (requestsPerClient p))"

text \<open>What a step does to the two counters that the workers share with other clients.\<close>

definition workers_moved :: "worker_params \<Rightarrow> int64 \<Rightarrow> 't worker_sys \<Rightarrow> 't worker_sys \<Rightarrow> bool \<Rightarrow> bool \<Rightarrow> bool" where
  "workers_moved p k x y recorded sent \<longleftrightarrow>
     workers_at p (k + of_bool recorded) y
     \<and> col_totalRequests (wk_metrics y) = w64 (col_totalRequests (wk_metrics x) + of_bool recorded)
     \<and> wk_requestCount y = w64 (wk_requestCount x + of_bool sent)
     \<and> count_threads is_replied (wk_pcs y) + of_bool recorded = count_threads is_replied (wk_pcs x) + of_bool sent"

lemma count_threads_nonneg: "0 \<le> count_threads P m"
  by (simp add: count_threads_def)

lemma count_threads_le: "finite (dom m) \<Longrightarrow> count_threads P m \<le> int (card (dom m))"
  by (auto simp: count_threads_def threads_def intro!: card_mono)

lemma card_workers: "card {i. int i < n} = nat n"
proof -
  have "{i. int i < n} = {..<nat n}" by auto
  then show ?thesis by simp
qed

lemma finite_workers [simp]: "finite {i. int i < n}"
  by (rule finite_subset [of _ "{..<nat n}"]) auto

lemma record_reply_total [simp]:
  "col_totalRequests (record_reply c now clientID l r) = w64 (col_totalRequests c + 1)"
  by (auto simp: record_reply_def RecordFailedRequest_def RecordRequest_def bucket_for_def rotateBucket_def
      update_bucket_def Let_def split: sum.splits)

text \<open>Moving one worker from \<open>old\<close> to \<open>new\<close>, with what happens to the counters.\<close>

lemma workers_move:
  assumes inv: "workers_at p k x" and i: "wk_pcs x i = Some old"
    and y: "wk_pcs y = (wk_pcs x)(i \<mapsto> new)" and c: "wk_cancelled y = wk_cancelled x"
    and R: "requestCounter y = requestCounter x + of_bool claimed"
    and t: "col_totalRequests (wk_metrics y) = w64 (col_totalRequests (wk_metrics x) + of_bool recorded)"
    and n: "wk_requestCount y = w64 (wk_requestCount x + of_bool sent)"
    and old: "\<not> is_gone old" and gone: "is_gone new \<and> \<not> wk_cancelled x \<longrightarrow> requestsPerClient p < requestCounter y"
    and bound: "requestCounter x + of_bool claimed \<le> requestsPerClient p \<or> of_bool claimed \<le> (of_bool (is_gone new) :: int)"
    and sends: "of_bool (is_replied new) + of_bool recorded = of_bool sent + (of_bool (is_replied old) :: int)"
    and flight: "of_bool recorded + of_bool (in_flight new) + of_bool given_up
      = (of_bool (in_flight old) + of_bool (claimed \<and> requestCounter x < requestsPerClient p) :: int)"
    and given_up: "given_up \<longrightarrow> wk_cancelled x"
  shows "\<exists>recorded sent. workers_moved p k x y recorded sent"
proof -
  obtain g where d: "dom (wk_pcs x) = {i. int i < wp_maxConcurrency p}" "0 \<le> requestCounter x"
    "requestCounter x \<le> requestsPerClient p + count_threads is_gone (wk_pcs x)"
    "0 < count_threads is_gone (wk_pcs x) \<and> \<not> wk_cancelled x \<longrightarrow> requestsPerClient p < requestCounter x"
    "0 \<le> k" "0 \<le> g" "\<not> wk_cancelled x \<longrightarrow> g = 0"
    "k + count_threads in_flight (wk_pcs x) + g = min (requestCounter x) (requestsPerClient p)"
    using inv unfolding workers_at_def by blast
  have fin: "finite (dom (wk_pcs x))" using d(1) by simp
  have u: "count_threads P (wk_pcs y) = count_threads P (wk_pcs x) + of_bool (P new) - of_bool (P old)" for P
    unfolding y count_threads_upd [OF fin] by (simp add: i)
  let ?k = "k + of_bool recorded" and ?g = "g + of_bool given_up"
  have "dom (wk_pcs y) = {i. int i < wp_maxConcurrency p}" using d(1) i y by auto
  moreover have "0 \<le> requestCounter y" using d(2) R by simp
  moreover have "requestCounter y \<le> requestsPerClient p + count_threads is_gone (wk_pcs y)"
    using d(3) R bound old count_threads_nonneg [of is_gone "wk_pcs x"] unfolding u
    by (auto intro: add_increasing2)
  moreover have "0 < count_threads is_gone (wk_pcs y) \<and> \<not> wk_cancelled y \<longrightarrow> requestsPerClient p < requestCounter y"
    using d(4) gone R c old unfolding u by (auto split: if_splits)
  moreover have "?k + count_threads in_flight (wk_pcs y) + ?g = min (requestCounter y) (requestsPerClient p)"
  proof -
    have "min (requestCounter y) (requestsPerClient p)
        = min (requestCounter x) (requestsPerClient p) + of_bool (claimed \<and> requestCounter x < requestsPerClient p)"
      using R by (auto simp: min_def)
    then show ?thesis using d(8) flight unfolding u by linarith
  qed
  ultimately have "workers_at p ?k y"
    using d(5-7) given_up c unfolding workers_at_def by (intro conjI exI [of _ ?g]) auto
  moreover have "count_threads is_replied (wk_pcs y) + of_bool recorded = count_threads is_replied (wk_pcs x) + of_bool sent"
    using sends unfolding u by simp
  ultimately show ?thesis using t n by (intro exI [of _ recorded] exI [of _ sent]) (simp add: workers_moved_def)
qed

lemma workers_room:
  assumes "workers_at p k x"
    and "requestsPerClient p + wp_maxConcurrency p + 1 < 2 ^ 63" and "0 \<le> wp_maxConcurrency p"
  shows "w64 (requestCounter x + 1) = requestCounter x + 1"
proof -
  have d: "dom (wk_pcs x) = {i. int i < wp_maxConcurrency p}" using assms(1) by (simp add: workers_at_def)
  have "count_threads is_gone (wk_pcs x) \<le> wp_maxConcurrency p"
    using count_threads_le [of "wk_pcs x" is_gone] assms(3) by (simp add: d card_workers)
  then show ?thesis using assms by (intro w64_id) (auto simp: workers_at_def in64_def)
qed

lemma worker_step_moved:
  assumes step: "worker_step ops p dl x y" and inv: "workers_at p k x"
    and N: "0 < requestsPerClient p" and room: "requestsPerClient p + wp_maxConcurrency p + 1 < 2 ^ 63"
      "0 \<le> wp_maxConcurrency p"
    and same: "w64 (col_totalRequests (wk_metrics x)) = col_totalRequests (wk_metrics x)"
      "w64 (wk_requestCount x) = wk_requestCount x"
  shows "\<exists>recorded sent. workers_moved p k x y recorded sent"
proof -
  have R: "w64 (requestCounter x + 1) = requestCounter x + 1" using workers_room [OF inv room] .
  have C: "claim p dl now (requestCounter x) = (requestCounter x + 1, \<not> requestsPerClient p < requestCounter x + 1)" for now
    using N R by (simp add: claim_def useTimeBased_def)
  note move = workers_move [OF inv]
  show ?thesis
    using step
  proof (cases rule: worker_step.cases)
    case (begin_shared i)
    show ?thesis by (rule move [OF begin_shared(2), where new = "Top None" and claimed = False and recorded = False and sent = False and given_up = False])
      (use begin_shared in \<open>auto simp: goto_def is_gone_def same\<close>)
  next
    case (begin_dedicated i k now c w r)
    show ?thesis by (rule move [OF begin_dedicated(2), where new = "Top (case r of Inr a \<Rightarrow> Some a | Inl _ \<Rightarrow> None)" and claimed = False and recorded = False and sent = False and given_up = False])
      (use begin_dedicated in \<open>auto simp: goto_def is_gone_def same\<close>)
  next
    case (go_on i d now n)
    show ?thesis by (rule move [OF go_on(2), where new = "Claimed d" and claimed = True and recorded = False and sent = False and given_up = False])
      (use go_on in \<open>auto simp: goto_def is_gone_def same C\<close>)
  next
    case (finish i d now n)
    show ?thesis by (rule move [OF finish(2), where new = "Gone" and claimed = True and recorded = False and sent = False and given_up = False])
      (use finish in \<open>auto simp: goto_def leave_def is_gone_def same C\<close>)
  next
    case (proceed i d)
    show ?thesis by (rule move [OF proceed(2), where new = "Throttled d" and claimed = False and recorded = False and sent = False and given_up = False])
      (use proceed in \<open>auto simp: goto_def is_gone_def same\<close>)
  next
    case (give_up i d)
    show ?thesis by (rule move [OF give_up(2), where new = "Gone" and claimed = False and recorded = False and sent = False and given_up = True])
      (use give_up in \<open>auto simp: goto_def leave_def is_gone_def same\<close>)
  next
    case (token i d now rl)
    show ?thesis by (rule move [OF token(2), where new = "Sending d" and claimed = False and recorded = False and sent = False and given_up = False])
      (use token in \<open>auto simp: goto_def is_gone_def same\<close>)
  next
    case (no_token i d now rl)
    show ?thesis by (rule move [OF no_token(2), where new = "Throttled d" and claimed = False and recorded = False and sent = False and given_up = False])
      (use no_token in \<open>auto simp: goto_def is_gone_def same\<close>)
  next
    case (stop_waiting i d now rl)
    show ?thesis by (rule move [OF stop_waiting(2), where new = "Gone" and claimed = False and recorded = False and sent = False and given_up = True])
      (use stop_waiting in \<open>auto simp: goto_def leave_def is_gone_def same\<close>)
  next
    case (send i d n acquired clk now c w r latency)
    show ?thesis by (rule move [OF send(2), where new = "Replied d latency r" and claimed = False and recorded = False and sent = True and given_up = False])
      (use send in \<open>auto simp: goto_def is_gone_def same\<close>)
  next
    case (note_reply i d latency r m now)
    show ?thesis by (rule move [OF note_reply(2), where new = "if needs_replacement (cl_mode (wk_client x)) r then Replacing (isl r) d else Top d" and claimed = False and recorded = True and sent = False and given_up = False])
      (use note_reply in \<open>auto simp: goto_def is_gone_def same\<close>)
  next
    case (replace i failed d k now c w r)
    show ?thesis by (rule move [OF replace(2), where new = "Top (replaced failed d r)" and claimed = False and recorded = False and sent = False and given_up = False])
      (use replace in \<open>auto simp: goto_def is_gone_def same\<close>)
  next
    case cancel
    then show ?thesis using inv same by (intro exI [of _ False]) (auto simp: workers_moved_def workers_at_def)
  qed
qed

section \<open>The run of a client\<close>

definition workers_run :: "'t transport_ops option \<Rightarrow> worker_params \<Rightarrow> gotime \<Rightarrow> 't worker_sys \<Rightarrow> 't worker_sys \<Rightarrow> bool" where
  "workers_run ops p clientDeadline = (worker_step ops p clientDeadline)\<^sup>*\<^sup>*"

text \<open>For a client alone, from the counters it started with.\<close>

definition workers_inv :: "worker_params \<Rightarrow> int64 \<Rightarrow> int64 \<Rightarrow> 't worker_sys \<Rightarrow> bool" where
  "workers_inv p total0 count0 x \<longleftrightarrow> (\<exists>k. workers_at p k x
     \<and> col_totalRequests (wk_metrics x) = w64 (total0 + k)
     \<and> wk_requestCount x = w64 (count0 + (k + count_threads is_replied (wk_pcs x))))"

lemma worker_step_inv:
  assumes step: "worker_step ops p dl x y" and inv: "workers_inv p total0 count0 x"
    and room: "0 < requestsPerClient p" "requestsPerClient p + wp_maxConcurrency p + 1 < 2 ^ 63" "0 \<le> wp_maxConcurrency p"
  shows "workers_inv p total0 count0 y"
proof -
  obtain k where k: "workers_at p k x" "col_totalRequests (wk_metrics x) = w64 (total0 + k)"
    "wk_requestCount x = w64 (count0 + (k + count_threads is_replied (wk_pcs x)))"
    using inv unfolding workers_inv_def by blast
  then obtain recorded sent where m: "workers_moved p k x y recorded sent"
    using worker_step_moved [OF step k(1) room] by auto
  have r: "k + of_bool recorded + count_threads is_replied (wk_pcs y) = k + count_threads is_replied (wk_pcs x) + of_bool sent"
    using m by (simp add: workers_moved_def)
  show ?thesis
    unfolding workers_inv_def
    using m k(2,3) r by (intro exI [of _ "k + of_bool recorded"]) (simp add: workers_moved_def add.assoc)
qed

lemma start_workers_at:
  assumes "wk_pcs x = (\<lambda>i. if int i < wp_maxConcurrency p then Some Starting else None)" and "requestCounter x = 0"
    and "0 < requestsPerClient p"
  shows "workers_at p 0 x" and "\<not> P Starting \<Longrightarrow> count_threads P (wk_pcs x) = 0"
proof -
  have n: "count_threads P (wk_pcs x) = 0" if "\<not> P Starting" for P
    using assms(1) that by (intro count_threads_none) (auto split: if_splits)
  have "dom (wk_pcs x) = {i. int i < wp_maxConcurrency p}" using assms(1) by (auto simp: dom_def)
  then show "workers_at p 0 x" using assms(2,3) unfolding workers_at_def by (simp add: n is_gone_def exI [of _ 0])
  show "\<not> P Starting \<Longrightarrow> count_threads P (wk_pcs x) = 0" by (rule n)
qed

lemma start_workers_inv:
  assumes "start_workers p c w m sent cancelled = Inr x" and "w64 sent = sent"
    and "w64 (col_totalRequests m) = col_totalRequests m" and "0 < requestsPerClient p"
  shows "workers_inv p (col_totalRequests m) sent x"
proof -
  have x: "wk_pcs x = (\<lambda>i. if int i < wp_maxConcurrency p then Some Starting else None)" "requestCounter x = 0"
    "wk_metrics x = m" "wk_requestCount x = sent"
    using assms(1) by (auto simp: start_workers_def split: sum.splits)
  show ?thesis
    unfolding workers_inv_def using start_workers_at [OF x(1,2) assms(4)] x(3,4) assms(2,3)
    by (intro exI [of _ 0]) simp
qed

lemma workers_run_inv:
  assumes "workers_run ops p dl x y" and "workers_inv p total0 count0 x" and "0 < requestsPerClient p"
    and "requestsPerClient p + wp_maxConcurrency p + 1 < 2 ^ 63" and "0 \<le> wp_maxConcurrency p"
  shows "workers_inv p total0 count0 y"
  using assms(1) unfolding workers_run_def
  by (induction rule: rtranclp_induct) (use assms worker_step_inv in blast)+

lemma all_gone:
  assumes "\<forall>i. int i < n \<longrightarrow> m i = Some Gone" and "dom m = {i. int i < n}" and "0 < n"
  shows "0 < count_threads is_gone m" and "\<not> P Gone \<Longrightarrow> count_threads P m = 0"
proof -
  have m: "m i = Some pc \<longleftrightarrow> int i < n \<and> pc = Gone" for i pc
    using assms(1,2) by (cases "int i < n") (auto simp: dom_def)
  have "threads is_gone m = {i. int i < n}" by (auto simp: threads_def m is_gone_def)
  then show "0 < count_threads is_gone m" using assms(3) by (simp add: count_threads_def card_workers)
  have "threads P m = {}" if "\<not> P Gone" using that by (auto simp: threads_def m)
  then show "\<not> P Gone \<Longrightarrow> count_threads P m = 0" by (simp add: count_threads_def)
qed

lemma workers_all_gone:
  assumes "workers_at p k x" and "0 < wp_maxConcurrency p"
    and "\<forall>i. int i < wp_maxConcurrency p \<longrightarrow> wk_pcs x i = Some Gone"
  shows "count_threads is_replied (wk_pcs x) = 0" and "\<not> wk_cancelled x \<Longrightarrow> k = requestsPerClient p"
proof -
  have d: "dom (wk_pcs x) = {i. int i < wp_maxConcurrency p}" using assms(1) by (simp add: workers_at_def)
  note g = all_gone [OF assms(3) d assms(2)]
  show "count_threads is_replied (wk_pcs x) = 0" by (rule g(2)) simp
  show "\<not> wk_cancelled x \<Longrightarrow> k = requestsPerClient p"
    using assms(1) g(1) g(2) [of in_flight] by (auto simp: workers_at_def)
qed

lemma workers_at_le: "workers_at p k x \<Longrightarrow> 0 \<le> k \<and> k \<le> requestsPerClient p"
  unfolding workers_at_def using count_threads_nonneg [of in_flight "wk_pcs x"] by (elim conjE exE) linarith

text \<open>A worker that is to send one request, up to its end.\<close>

lemma one_request:
  assumes x: "wk_pcs x i = Some Starting" "\<not> wk_cancelled x" "requestCounter x = 0" "wk_limiter x = None"
    and p: "requestsPerClient p = 1" and mode: "cl_mode (wk_client x) \<noteq> ConnectionModeDedicated"
    and send: "Client_Send ops (wk_client x) (wk_world x) clk None True
      (new_request p (cl_id (wk_client x)) (w64 (wk_requestCount x + 1)) now) = Some (c, w, r)"
    and mode': "cl_mode c \<noteq> ConnectionModeDedicated"
  shows "\<exists>y. (worker_step ops p dl)\<^sup>*\<^sup>* x y \<and> wk_pcs y = (wk_pcs x)(i \<mapsto> Gone) \<and> \<not> wk_cancelled y"
proof -
  let ?step = "worker_step ops p dl"
  have w1: "w64 1 = 1" "w64 2 = 2" by (simp_all add: w64_id in64_def)
  have c: "claim p dl zero_time 0 = (1, True)" "claim p dl zero_time 1 = (2, False)"
    by (simp_all add: claim_def useTimeBased_def p w1)
  define x1 where "x1 = goto i (Top None) x"
  define x2 where "x2 = goto i (Claimed None) (x1\<lparr>requestCounter := 1\<rparr>)"
  define x3 where "x3 = goto i (Throttled None) x2"
  define x4 where "x4 = goto i (Sending None) (x3\<lparr>wk_limiter := None\<rparr>)"
  define x5 where "x5 = goto i (Replied None 0 r) (x4\<lparr>wk_requestCount := w64 (wk_requestCount x + 1), wk_client := c, wk_world := w\<rparr>)"
  define x6 where "x6 = goto i (Top None) (x5\<lparr>wk_metrics := record_reply (wk_metrics x5) zero_time (cl_id (wk_client x5)) 0 r\<rparr>)"
  define x7 where "x7 = leave ops i None (x6\<lparr>requestCounter := 2\<rparr>)"
  note xs = x1_def x2_def x3_def x4_def x5_def x6_def x7_def goto_def leave_def
  have 1: "?step x x1" unfolding x1_def using x mode by (intro worker_step.begin_shared) auto
  have 2: "?step x1 x2" unfolding x2_def by (rule worker_step.go_on [where now = zero_time]) (simp_all add: x1_def goto_def x c)
  have 3: "?step x2 x3" unfolding x3_def by (rule worker_step.proceed) (simp_all add: x2_def x1_def goto_def x)
  have 4: "?step x3 x4" unfolding x4_def
    by (rule worker_step.token [where now = zero_time]) (simp_all add: x3_def x2_def x1_def goto_def x try_token_def)
  have 5: "?step x4 x5" unfolding x5_def
    by (rule worker_step.send [where acquired = True and now = now and clk = clk])
      (simp_all add: x4_def x3_def x2_def x1_def goto_def x send)
  have 6: "?step x5 x6" unfolding x6_def
    using worker_step.note_reply [of x5 i None 0 r, OF _ refl, of ops p dl zero_time] mode'
    by (simp add: x5_def goto_def needs_replacement_def)
  have 7: "?step x6 x7" unfolding x7_def
    by (rule worker_step.finish [where now = zero_time]) (simp_all add: xs x c)
  have "?step\<^sup>*\<^sup>* x x7" using 1 2 3 4 5 6 7 by (meson rtranclp.rtrancl_into_rtrancl rtranclp.rtrancl_refl)
  then show ?thesis using x(2) by (intro exI [of _ x7]) (simp add: xs)
qed

text \<open>One worker, one request.\<close>

definition demo_params :: worker_params where
  "demo_params = \<lparr>requestsPerClient = 1, testTimeSeconds = 0, targetRate = 0, wp_maxConcurrency = 1, wp_headers = Map.empty\<rparr>"

definition demo_collector :: collector where
  "demo_collector = NewCollector (now_at 0 0) (now_at 0 0) 1"

lemma demo_start: "\<exists>x. start_workers demo_params demo_client demo_world demo_collector 0 False = Inr x
    \<and> wk_pcs x 0 = Some Starting \<and> \<not> wk_cancelled x \<and> requestCounter x = 0 \<and> wk_limiter x = None
    \<and> wk_client x = demo_client \<and> wk_world x = demo_world"
  by (simp add: start_workers_def client_limiter_def demo_params_def)

lemma demo_send: "\<exists>c w r. Client_Send demo_ops demo_client demo_world
    \<lparr>sd_start = now_at 0 0, sd_connect = now_at 1 1, sd_done = now_at 5 5, sd_choice = 0\<rparr> None True
    (new_request demo_params (cl_id demo_client) 1 (now_at 0 0)) = Some (c, w, r)
    \<and> cl_mode c = ConnectionModeReuse"
  by (simp add: demo_client_defs Let_def)

lemma demo_workers:
  assumes "start_workers demo_params demo_client demo_world demo_collector 0 False = Inr x"
  shows "\<exists>y. workers_run demo_ops demo_params zero_time x y \<and> wk_pcs y 0 = Some Gone \<and> \<not> wk_cancelled y"
proof -
  have x: "wk_pcs x 0 = Some Starting" "\<not> wk_cancelled x" "requestCounter x = 0" "wk_limiter x = None"
    "wk_client x = demo_client" "wk_world x = demo_world" "wk_requestCount x = 0"
    using assms by (auto simp: start_workers_def client_limiter_def demo_params_def)
  have p: "requestsPerClient demo_params = 1" by (simp add: demo_params_def)
  have mode: "cl_mode (wk_client x) \<noteq> ConnectionModeDedicated" by (simp add: x demo_client_def NewClient_def Let_def)
  have "w64 1 = 1" by (simp add: w64_id in64_def)
  then obtain c w r where "Client_Send demo_ops (wk_client x) (wk_world x)
      \<lparr>sd_start = now_at 0 0, sd_connect = now_at 1 1, sd_done = now_at 5 5, sd_choice = 0\<rparr> None True
      (new_request demo_params (cl_id (wk_client x)) (w64 (wk_requestCount x + 1)) (now_at 0 0)) = Some (c, w, r)"
    "cl_mode c \<noteq> ConnectionModeDedicated"
    using demo_send by (auto simp: x)
  from one_request [OF x(1-4) p mode this] show ?thesis unfolding workers_run_def by fastforce
qed

text \<open>
  C35. The workers of a client share the work exactly. With \<^verbatim>\<open>requests_per_client\<close> \<open>N > 0\<close>,
  however many workers there are, however their actions interleave and whatever the servers
  answer, the collector has at any time been told of at most \<open>N\<close> requests; and when all
  workers are gone and the run was not cancelled, of exactly \<open>N\<close>, and exactly \<open>N\<close> request
  numbers of the simulator have been used.
\<close>

theorem workers_send_exactly:
  assumes "start_workers p c w m sent False = Inr x" and "workers_run ops p dl x y"
    and "0 < requestsPerClient p" and "requestsPerClient p + wp_maxConcurrency p + 1 < 2 ^ 63" and "0 < wp_maxConcurrency p"
    and "w64 sent = sent" and "w64 (col_totalRequests m) = col_totalRequests m"
  shows "(\<exists>k. 0 \<le> k \<and> k \<le> requestsPerClient p \<and> col_totalRequests (wk_metrics y) = w64 (col_totalRequests m + k))
    \<and> ((\<forall>i. int i < wp_maxConcurrency p \<longrightarrow> wk_pcs y i = Some Gone) \<and> \<not> wk_cancelled y \<longrightarrow>
         col_totalRequests (wk_metrics y) = w64 (col_totalRequests m + requestsPerClient p)
         \<and> wk_requestCount y = w64 (sent + requestsPerClient p))"
proof -
  have inv: "workers_inv p (col_totalRequests m) sent y"
    using workers_run_inv [OF assms(2) start_workers_inv [OF assms(1,6,7,3)] assms(3,4)] assms(5) by simp
  then obtain k where k: "workers_at p k y" "col_totalRequests (wk_metrics y) = w64 (col_totalRequests m + k)"
    "wk_requestCount y = w64 (sent + (k + count_threads is_replied (wk_pcs y)))"
    unfolding workers_inv_def by blast
  show ?thesis
    using workers_at_le [OF k(1)] workers_all_gone [OF k(1) assms(5)] k(2,3) by auto
qed

theorem workers_send_exactly_witness:
  "\<exists>x y. start_workers demo_params demo_client demo_world demo_collector 0 False = Inr x
    \<and> workers_run demo_ops demo_params zero_time x y
    \<and> col_totalRequests (wk_metrics y) = 1 \<and> wk_requestCount y = 1"
proof -
  obtain x where x: "start_workers demo_params demo_client demo_world demo_collector 0 False = Inr x"
    using demo_start by blast
  obtain y where y: "workers_run demo_ops demo_params zero_time x y" "wk_pcs y 0 = Some Gone" "\<not> wk_cancelled y"
    using demo_workers [OF x] by blast
  have m: "col_totalRequests demo_collector = 0" by (simp add: demo_collector_def NewCollector_def Let_def)
  have w: "w64 1 = 1" "w64 0 = 0" by (simp_all add: w64_id in64_def)
  show ?thesis
    using workers_send_exactly [OF x y(1)] x y by (auto simp: demo_params_def m w)
qed

section \<open>Request identifiers\<close>

text \<open>The client and the number, read back from an identifier: around its last dash.\<close>

definition request_number :: "string \<Rightarrow> nat" where
  "request_number s = read_nat (rev (takeWhile (\<lambda>c. c \<noteq> CHR ''-'') (rev s)))"

definition request_client :: "string \<Rightarrow> string" where
  "request_client s = drop (length ''req-'') (rev (tl (dropWhile (\<lambda>c. c \<noteq> CHR ''-'') (rev s))))"

lemma last_dash:
  assumes "\<forall>c\<in>set t. c \<noteq> d"
  shows "takeWhile (\<lambda>c. c \<noteq> d) (rev (s @ d # t)) = rev t" "dropWhile (\<lambda>c. c \<noteq> d) (rev (s @ d # t)) = d # rev s"
  using assms by (simp_all add: takeWhile_tail dropWhile_append3 takeWhile_append2 dropWhile_append2)

text \<open>
  C40. Request identifiers can be read back. From \<^verbatim>\<open>req-<client>-<n>\<close> both the client, even when
  its name has dashes, and the number can be recovered; as the workers draw the numbers from one
  counter, no two requests of a simulation share an identifier.
\<close>

theorem request_id_roundtrip:
  assumes "0 \<le> n" and "0 \<le> n'"
  shows "int (request_number (req_ID (new_request p clientID n now))) = n
    \<and> request_client (req_ID (new_request p clientID n now)) = clientID
    \<and> (req_ID (new_request p clientID n now) = req_ID (new_request p' clientID' n' now') \<longleftrightarrow> clientID = clientID' \<and> n = n')"
proof -
  have d: "\<forall>c\<in>set (show_nat k). c \<noteq> CHR ''-''" for k using show_nat_digits by blast
  have r: "int (request_number (req_ID (new_request q i m t))) = m \<and> request_client (req_ID (new_request q i m t)) = i"
    if "0 \<le> m" for q i m t
  proof -
    have e: "req_ID (new_request q i m t) = (''req-'' @ i) @ CHR ''-'' # show_nat (nat m)"
      using that by (simp add: new_request_def show_int_def)
    show ?thesis
      unfolding request_number_def request_client_def e last_dash [OF d] using that by simp
  qed
  let ?s = "req_ID (new_request p clientID n now)" and ?t = "req_ID (new_request p' clientID' n' now')"
  note r1 = r [OF assms(1), of p clientID now] and r2 = r [OF assms(2), of p' clientID' now']
  have "clientID = clientID' \<and> n = n'" if "?s = ?t" using r1 r2 unfolding that by simp
  moreover have "?s = ?t" if "clientID = clientID' \<and> n = n'" using that by (simp add: new_request_def)
  ultimately show ?thesis using r1 by blast
qed

theorem request_id_roundtrip_witness:
  "request_client (req_ID (new_request demo_params ''client-3'' 17 (now_at 0 0))) = ''client-3''
    \<and> int (request_number (req_ID (new_request demo_params ''client-3'' 17 (now_at 0 0)))) = 17"
  using request_id_roundtrip [of 17 17 demo_params "''client-3''" "now_at 0 0"] by simp

end
