(* ===== verification/Transports.thy ===== *)
theory Transports
  imports Client
begin

text \<open>
  What a client can do to the state of its transport. The client reaches the transport only
  through the two methods of the interface: what closing keeps is kept by everything but the
  sending itself (\<open>transport_close\<close>); what both methods keep, every operation of the connections,
  the pool and the client keeps (\<open>transport_invariant\<close>); and what every answer advances by one
  step, every call of \<^verbatim>\<open>Client.Send\<close> advances exactly when it returns a response
  (\<open>transport_measure\<close>).
\<close>

locale transport_close =
  fixes ops :: "'t transport_ops"
    and P :: "'t \<Rightarrow> bool"
  assumes close: "P t \<Longrightarrow> P (tp_CloseConnection ops t serverID connID)"
begin

lemma connection_close: "Connection_Close (Some ops) t c = (t', c') \<Longrightarrow> P t \<Longrightarrow> P t'"
  by (auto simp: Connection_Close_def close split: if_splits)

lemma pool_put: "Pool_Put (Some ops) p t h a = (p', t', h') \<Longrightarrow> P t \<Longrightarrow> P t'"
  by (auto simp: Pool_Put_def dest: connection_close split: if_splits prod.splits)

lemma close_all: "Pool.close_all (Some ops) t h as = (t', h') \<Longrightarrow> P t \<Longrightarrow> P t'"
proof (induction as arbitrary: t h)
  case (Cons a as)
  obtain t1 c1 where c: "Connection_Close (Some ops) t (h ! a) = (t1, c1)" by fastforce
  with Cons show ?case by (auto dest: connection_close)
qed simp

lemma pool_close: "Pool_Close (Some ops) p t h = (p', t', h') \<Longrightarrow> P t \<Longrightarrow> P t'"
  by (auto simp: Pool_Close_def dest: close_all split: prod.splits)

lemma closed: "P (wd_tp w) \<Longrightarrow> P (wd_tp (close_connection (Some ops) w a))"
  by (auto simp: close_connection_def dest: connection_close split: prod.splits)

lemma put: "put_connection (Some ops) c w a = (c', w') \<Longrightarrow> P (wd_tp w) \<Longrightarrow> P (wd_tp w')"
  by (auto simp: put_connection_def dest: pool_put split: prod.splits)

lemma opened: "open_connection c w k now = (c', w', r) \<Longrightarrow> P (wd_tp w) \<Longrightarrow> P (wd_tp w')"
  by (auto simp: open_connection_def split: prod.splits sum.splits)

lemma opened_or_failed:
  "fail_with (open_connection c w k now) = (c', w', r) \<Longrightarrow> P (wd_tp w) \<Longrightarrow> P (wd_tp w')"
  by (auto simp: fail_with_def dest: opened split: prod.splits sum.splits)

lemma dedicated: "acquire_dedicated (Some ops) c w k now d = (c', w', r) \<Longrightarrow> P (wd_tp w) \<Longrightarrow> P (wd_tp w')"
  by (auto simp: acquire_dedicated_def CreateDedicatedConnection_def dest: opened_or_failed closed
      split: option.splits if_splits)

lemma pooled: "acquire_pooled c w k now = Some (c', w', r) \<Longrightarrow> P (wd_tp w) \<Longrightarrow> P (wd_tp w')"
  by (auto simp: acquire_pooled_def split: option.splits prod.splits sum.splits)

lemma acquired: "acquire (Some ops) c w k now d = Some (c', w', r) \<Longrightarrow> P (wd_tp w) \<Longrightarrow> P (wd_tp w')"
  by (auto simp: acquire_def dest: dedicated pooled opened_or_failed split: if_splits)

lemma released: "release (Some ops) mode u c w a resp = (c', w', resp') \<Longrightarrow> P (wd_tp w) \<Longrightarrow> P (wd_tp w')"
  by (auto simp: release_def closed dest: put split: if_splits prod.splits)

lemma release_fails: "release_failed (Some ops) u c w a = (c', w') \<Longrightarrow> P (wd_tp w) \<Longrightarrow> P (wd_tp w')"
  by (auto simp: release_failed_def closed dest: put split: if_splits)

lemma client_close: "Client_Close (Some ops) c w = (c', w') \<Longrightarrow> P (wd_tp w) \<Longrightarrow> P (wd_tp w')"
  by (auto simp: Client_Close_def dest: pool_close split: prod.splits)

end

locale transport_invariant = transport_close +
  assumes send: "P t \<Longrightarrow> P (fst (tp_Send ops t serverID connID req))"
begin

lemma connection_send: "Connection_Send (Some ops) t c req = (t', c', r) \<Longrightarrow> P t \<Longrightarrow> P t'"
  using send [of t "conn_serverID c" "conn_id c" req]
  by (auto simp: Connection_Send_def IncrementRequests_def Let_def split: if_splits prod.splits sum.splits)

lemma client_send:
  assumes "Client_Send (Some ops) c w clk d acq req = Some (c', w', r)" and "P (wd_tp w)"
  shows "P (wd_tp w')"
  using assms
  by (auto simp: Client_Send_def Let_def dest!: acquired connection_send released release_fails
      split: if_splits option.splits prod.splits sum.splits)

end

text \<open>
  A measure that every answer advances, by whether it is a rejection, and that errors and closing
  leave alone.
\<close>

locale transport_measure =
  fixes ops :: "'t transport_ops"
    and f :: "'t \<Rightarrow> 'v"
    and advance :: "bool \<Rightarrow> 'v \<Rightarrow> 'v"
  assumes answered: "tp_Send ops t serverID connID req = (t', Inr resp) \<Longrightarrow> f t' = advance (RateLimited resp) (f t)"
    and refused: "tp_Send ops t serverID connID req = (t', Inl err) \<Longrightarrow> f t' = f t"
    and closing: "f (tp_CloseConnection ops t serverID connID) = f t"
begin

sublocale rest: transport_close ops "\<lambda>t. f t = v" for v
  by unfold_locales (simp add: closing)

lemma connection_send:
  "Connection_Send (Some ops) t c req = (t', c', r) \<Longrightarrow>
    f t' = (case r of Inr resp \<Rightarrow> advance (RateLimited resp) (f t) | Inl _ \<Rightarrow> f t)"
  by (auto simp: Connection_Send_def IncrementRequests_def Let_def answered refused
      split: if_splits prod.splits sum.splits)

lemma client_send:
  assumes "Client_Send (Some ops) c w clk d acq req = Some (c', w', r)"
  shows "f (wd_tp w') = (case r of Inr resp \<Rightarrow> advance (RateLimited resp) (f (wd_tp w)) | Inl _ \<Rightarrow> f (wd_tp w))"
proof (cases "cl_closed c \<or> cl_sem c \<noteq> None \<and> \<not> acq")
  case True
  then show ?thesis using assms by (cases "cl_closed c") (auto simp: Client_Send_def)
next
  case False
  obtain c1 w1 r1 where a: "acquire (Some ops) (bump CTotal c) w (sd_choice clk) (sd_connect clk) d = Some (c1, w1, r1)"
    using assms False by (auto simp: Client_Send_def Let_def split: option.splits)
  note same = rest.acquired [OF a refl]
  show ?thesis
  proof (cases r1)
    case (Inl err)
    then have "w' = w1" "r = Inl err" using assms False a by (auto simp: Client_Send_def Let_def)
    then show ?thesis using same by simp
  next
    case (Inr x)
    let ?req = "req\<lparr>req_Headers := cl_headers (bump CTotal c) ++ req_Headers req, req_ClientID := cl_id (bump CTotal c)\<rparr>"
    obtain tp conn rs where s: "Connection_Send (Some ops) (wd_tp w1) (wd_conns w1 ! x) ?req = (tp, conn, rs)"
      by (metis prod_cases3)
    note sent = connection_send [OF s]
    let ?w = "w1\<lparr>wd_tp := tp, wd_conns := (wd_conns w1)[x := conn]\<rparr>"
    let ?c = "bump (CLatency (time_sub (sd_done clk) (sd_start clk))) c1"
    have e: "f (wd_tp ?w) = (case rs of Inr resp \<Rightarrow> advance (RateLimited resp) (f (wd_tp w)) | Inl _ \<Rightarrow> f (wd_tp w))"
      using sent same by (auto split: sum.splits)
    show ?thesis
    proof (cases rs)
      case (Inl err)
      obtain c2 where "release_failed (Some ops) (use_pool (bump CTotal c)) (bump CFailed ?c) ?w x = (c2, w')" "r = Inl err"
        using assms False a Inr s Inl by (auto simp: Client_Send_def Let_def split: prod.splits)
      then show ?thesis using rest.release_fails [OF _ refl] e Inl by simp
    next
      case (Inr resp)
      obtain c2 c3 resp' where rel: "release (Some ops) (cl_mode (bump CTotal c)) (use_pool (bump CTotal c)) c2 ?w x resp = (c3, w', resp')"
        and r: "r = Inr (resp'\<lparr>ProcessingTime := time_sub (sd_done clk) (sd_start clk)\<rparr>)"
        using assms False a \<open>r1 = Inr x\<close> s Inr by (auto simp: Client_Send_def Let_def split: prod.splits)
      have "RateLimited resp' = RateLimited resp" using release_limited [OF rel] .
      moreover have "f (wd_tp w') = f (wd_tp ?w)" using rest.released [OF rel refl] .
      ultimately show ?thesis using e r Inr by simp
    qed
  qed
qed

end

end
