(* ===== verification/Recorders.thy ===== *)
theory Recorders
  imports Metrics
begin

text \<open>
  The recorders of \<^verbatim>\<open>metrics.go\<close> side by side. \<^verbatim>\<open>RecordRequest\<close> and \<^verbatim>\<open>RecordFailedRequest\<close>
  take no lock around their atomic additions, so that a recorder can lose its bucket to a
  rotation between any two of them; \<open>rec_step\<close> interleaves them one atomic action at a time. The
  other recorders touch other counters and are steps of their own.

  Shown: whatever the interleaving and whatever the clock reads, when the recorders have
  returned the collector is as consistent as after one recorder at a time, no request is lost,
  and no request is in the bucket of a second before its own.
\<close>

section \<open>Places and steps\<close>

text \<open>
  A recorder's arguments are the client, the latency and whether the request was limited; once
  it has read the clock and has a bucket, the second and the address are part of its place.
\<close>

type_synonym rec_args = "string \<times> duration \<times> bool"

datatype rec_pc =
    Begun rec_args
  | Tallied rec_args
  | Loaded int64 nat rec_args
  | Rotated int64 rec_args
  | Holding int64 nat rec_args
  | Totalled int64 nat rec_args
  | Classified int64 nat rec_args
  | Marked int64 nat rec_args
  | Stored int64 nat rec_args
  | FailBegun
  | FailTallied
  | FailDone

record rec_sys =
  col :: collector
  recs :: "nat \<rightharpoonup> rec_pc"

definition count_total :: "collector \<Rightarrow> collector" where
  "count_total c = c\<lparr>col_totalRequests := w64 (col_totalRequests c + 1)\<rparr>"

definition count_failed :: "collector \<Rightarrow> collector" where
  "count_failed c = c\<lparr>col_failedRequests := w64 (col_failedRequests c + 1)\<rparr>"

definition count_class :: "bool \<Rightarrow> collector \<Rightarrow> collector" where
  "count_class rl c =
     (if rl then c\<lparr>col_rateLimitedRequests := w64 (col_rateLimitedRequests c + 1)\<rparr>
      else c\<lparr>col_successfulRequests := w64 (col_successfulRequests c + 1)\<rparr>)"

definition bucket_total :: "bucket \<Rightarrow> bucket" where
  "bucket_total b = b\<lparr>bk_Total := w64 (bk_Total b + 1)\<rparr>"

definition bucket_mark :: "bool \<Rightarrow> bucket \<Rightarrow> bucket" where
  "bucket_mark rl b =
     (if rl then b\<lparr>bk_Rejected := w64 (bk_Rejected b + 1)\<rparr> else b\<lparr>bk_Success := w64 (bk_Success b + 1)\<rparr>)"

definition bucket_store :: "bool \<Rightarrow> nat \<Rightarrow> duration \<Rightarrow> bucket \<Rightarrow> bucket" where
  "bucket_store rl i l b =
     (if rl then b\<lparr>bk_RejectedLatencies := add_latency i l (bk_RejectedLatencies b)\<rparr>
      else b\<lparr>bk_SuccessLatencies := add_latency i l (bk_SuccessLatencies b)\<rparr>)"

fun other_record :: "metric_op \<Rightarrow> bool" where
  "other_record (MCheck _ _ _) = True"
| "other_record (MFetch _ _ _) = True"
| "other_record (MWait _ _) = True"
| "other_record (MConnection _ _ _) = True"
| "other_record _ = False"

definition move_to :: "nat \<Rightarrow> rec_pc \<Rightarrow> collector \<Rightarrow> rec_sys \<Rightarrow> rec_sys" where
  "move_to t p c x = \<lparr>col = c, recs = (recs x)(t \<mapsto> p)\<rparr>"

inductive rec_step :: "rec_sys \<Rightarrow> rec_sys \<Rightarrow> bool" where
  call: "recs x t = None \<Longrightarrow> rec_step x (move_to t (Begun args) (col x) x)"
| tally: "recs x t = Some (Begun args) \<Longrightarrow> rec_step x (move_to t (Tallied args) (count_total (col x)) x)"
| load: "recs x t = Some (Tallied args) \<Longrightarrow>
    rec_step x (move_to t (Loaded now (currentBucket (col x)) args) (col x) x)"
| keep: "recs x t = Some (Loaded now a args) \<Longrightarrow> now \<le> bk_Timestamp (buckets (col x) ! a) \<Longrightarrow>
    rec_step x (move_to t (Holding now a args) (col x) x)"
| rotate: "recs x t = Some (Loaded now a args) \<Longrightarrow> bk_Timestamp (buckets (col x) ! a) < now \<Longrightarrow>
    rec_step x (move_to t (Rotated now args) (rotateBucket (col x) now) x)"
| reload: "recs x t = Some (Rotated now args) \<Longrightarrow>
    rec_step x (move_to t (Holding now (currentBucket (col x)) args) (col x) x)"
| total: "recs x t = Some (Holding now a args) \<Longrightarrow>
    rec_step x (move_to t (Totalled now a args) (update_bucket a bucket_total (col x)) x)"
| classify: "recs x t = Some (Totalled now a (i, l, rl)) \<Longrightarrow>
    rec_step x (move_to t (Classified now a (i, l, rl)) (count_class rl (col x)) x)"
| mark: "recs x t = Some (Classified now a (i, l, rl)) \<Longrightarrow>
    rec_step x (move_to t (Marked now a (i, l, rl)) (update_bucket a (bucket_mark rl) (col x)) x)"
| store: "recs x t = Some (Marked now a (i, l, rl)) \<Longrightarrow>
    rec_step x (move_to t (Stored now a (i, l, rl)) (update_bucket a (bucket_store rl (client_shard (col x) i) l) (col x)) x)"
| fail_call: "recs x t = None \<Longrightarrow> rec_step x (move_to t FailBegun (col x) x)"
| fail_tally: "recs x t = Some FailBegun \<Longrightarrow> rec_step x (move_to t FailTallied (count_total (col x)) x)"
| fail_count: "recs x t = Some FailTallied \<Longrightarrow> rec_step x (move_to t FailDone (count_failed (col x)) x)"
| other: "other_record op \<Longrightarrow> rec_step x (x\<lparr>col := metric_apply op (col x)\<rparr>)"

section \<open>Every counter counts places\<close>

text \<open>
  The counters of the collector and, by address, of the buckets, with the places of the
  recorders each has counted. A bucket that does not exist counts as empty.
\<close>

datatype meter =
    MTotal | MSuccess | MLimited | MFail
  | BTotal nat | BSuccess nat | BRejected nat | BSuccessLatencies nat | BRejectedLatencies nat

definition in_bucket :: "(bucket \<Rightarrow> int) \<Rightarrow> collector \<Rightarrow> nat \<Rightarrow> int" where
  "in_bucket f c a = (if a < length (buckets c) then f (buckets c ! a) else 0)"

fun reading :: "meter \<Rightarrow> collector \<Rightarrow> int64" where
  "reading MTotal c = col_totalRequests c"
| "reading MSuccess c = col_successfulRequests c"
| "reading MLimited c = col_rateLimitedRequests c"
| "reading MFail c = col_failedRequests c"
| "reading (BTotal a) c = in_bucket bk_Total c a"
| "reading (BSuccess a) c = in_bucket bk_Success c a"
| "reading (BRejected a) c = in_bucket bk_Rejected c a"
| "reading (BSuccessLatencies a) c = in_bucket (\<lambda>b. w64 (int (length (concat (bk_SuccessLatencies b))))) c a"
| "reading (BRejectedLatencies a) c = in_bucket (\<lambda>b. w64 (int (length (concat (bk_RejectedLatencies b))))) c a"

text \<open>How far a recorder is, with its bucket and whether its request was limited.\<close>

fun progress :: "rec_pc \<Rightarrow> nat \<times> nat \<times> bool" where
  "progress (Begun (i, l, rl)) = (0, 0, rl)"
| "progress (Tallied (i, l, rl)) = (1, 0, rl)"
| "progress (Loaded now a (i, l, rl)) = (1, a, rl)"
| "progress (Rotated now (i, l, rl)) = (1, 0, rl)"
| "progress (Holding now a (i, l, rl)) = (1, a, rl)"
| "progress (Totalled now a (i, l, rl)) = (2, a, rl)"
| "progress (Classified now a (i, l, rl)) = (3, a, rl)"
| "progress (Marked now a (i, l, rl)) = (4, a, rl)"
| "progress (Stored now a (i, l, rl)) = (5, a, rl)"
| "progress FailBegun = (0, 0, False)"
| "progress FailTallied = (1, 0, False)"
| "progress FailDone = (1, 0, False)"

fun counted_by :: "meter \<Rightarrow> rec_pc \<Rightarrow> bool" where
  "counted_by MTotal p = (1 \<le> fst (progress p))"
| "counted_by MSuccess p = (case progress p of (k, a, rl) \<Rightarrow> 3 \<le> k \<and> \<not> rl)"
| "counted_by MLimited p = (case progress p of (k, a, rl) \<Rightarrow> 3 \<le> k \<and> rl)"
| "counted_by MFail p = (p = FailDone)"
| "counted_by (BTotal b) p = (case progress p of (k, a, rl) \<Rightarrow> 2 \<le> k \<and> a = b)"
| "counted_by (BSuccess b) p = (case progress p of (k, a, rl) \<Rightarrow> 4 \<le> k \<and> a = b \<and> \<not> rl)"
| "counted_by (BRejected b) p = (case progress p of (k, a, rl) \<Rightarrow> 4 \<le> k \<and> a = b \<and> rl)"
| "counted_by (BSuccessLatencies b) p = (case progress p of (k, a, rl) \<Rightarrow> 5 \<le> k \<and> a = b \<and> \<not> rl)"
| "counted_by (BRejectedLatencies b) p = (case progress p of (k, a, rl) \<Rightarrow> 5 \<le> k \<and> a = b \<and> rl)"

text \<open>A recorder that has its bucket has one of its second or of a later one.\<close>

fun placed :: "collector \<Rightarrow> rec_pc \<Rightarrow> bool" where
  "placed c (Loaded now a _) = (a < length (buckets c))"
| "placed c (Rotated now _) = (now \<le> bk_Timestamp (current c))"
| "placed c (Holding now a _) = (a < length (buckets c) \<and> now \<le> bk_Timestamp (buckets c ! a))"
| "placed c (Totalled now a _) = (a < length (buckets c) \<and> now \<le> bk_Timestamp (buckets c ! a))"
| "placed c (Classified now a _) = (a < length (buckets c) \<and> now \<le> bk_Timestamp (buckets c ! a))"
| "placed c (Marked now a _) = (a < length (buckets c) \<and> now \<le> bk_Timestamp (buckets c ! a))"
| "placed c (Stored now a _) = (a < length (buckets c) \<and> now \<le> bk_Timestamp (buckets c ! a))"
| "placed c _ = True"

text \<open>The shape of the collector that all steps keep.\<close>

definition shaped :: "collector \<Rightarrow> bool" where
  "shaped c \<longleftrightarrow> 0 < col_numShards c \<and> col_numShards c < 2 ^ 63 \<and> currentBucket c < length (buckets c)
     \<and> (\<forall>b\<in>set (buckets c). length (bk_SuccessLatencies b) = nat (col_numShards c)
          \<and> length (bk_RejectedLatencies b) = nat (col_numShards c))"

definition rec_inv :: "rec_sys \<Rightarrow> bool" where
  "rec_inv x \<longleftrightarrow> finite (dom (recs x)) \<and> shaped (col x)
     \<and> (\<forall>t p. recs x t = Some p \<longrightarrow> placed (col x) p)
     \<and> (\<forall>m. reading m (col x) = w64 (count_threads (counted_by m) (recs x)))"

text \<open>How the collector may change under a recorder's feet.\<close>

definition grows :: "collector \<Rightarrow> collector \<Rightarrow> bool" where
  "grows c c' \<longleftrightarrow> shaped c' \<and> length (buckets c) \<le> length (buckets c')
     \<and> (\<forall>a<length (buckets c). bk_Timestamp (buckets c' ! a) = bk_Timestamp (buckets c ! a))
     \<and> bk_Timestamp (current c) \<le> bk_Timestamp (current c')"

lemma placed_grows: "placed c p \<Longrightarrow> grows c c' \<Longrightarrow> placed c' p"
  by (cases p) (auto simp: grows_def)

lemma rec_inv_move:
  assumes inv: "rec_inv x" and g: "grows (col x) c" and p: "placed c p"
    and r: "\<And>m. reading m c = w64 (reading m (col x) + of_bool (counted_by m p)
      - of_bool (case recs x t of Some q \<Rightarrow> counted_by m q | None \<Rightarrow> False))"
  shows "rec_inv (move_to t p c x)"
proof -
  have d: "finite (dom (recs x))" "\<And>u q. recs x u = Some q \<Longrightarrow> placed (col x) q"
    "\<And>m. reading m (col x) = w64 (count_threads (counted_by m) (recs x))"
    using inv by (auto simp: rec_inv_def)
  have "reading m c = w64 (count_threads (counted_by m) ((recs x)(t \<mapsto> p)))" for m
    unfolding r d(3) count_threads_upd [OF d(1)] by (metis (no_types, lifting) add_diff_eq w64_add_left)
  then show ?thesis
    using d(1,2) g p placed_grows [OF _ g] by (auto simp: rec_inv_def move_to_def grows_def)
qed

section \<open>Each action keeps the invariant\<close>

definition keeps_shape :: "(bucket \<Rightarrow> bucket) \<Rightarrow> bool" where
  "keeps_shape f \<longleftrightarrow> (\<forall>b. bk_Timestamp (f b) = bk_Timestamp b
     \<and> length (bk_SuccessLatencies (f b)) = length (bk_SuccessLatencies b)
     \<and> length (bk_RejectedLatencies (f b)) = length (bk_RejectedLatencies b))"

lemma grows_frame:
  assumes "shaped c" and "buckets c' = buckets c" and "currentBucket c' = currentBucket c" and "col_numShards c' = col_numShards c"
  shows "grows c c'"
  using assms by (simp add: grows_def shaped_def)

lemma grows_update:
  assumes c: "shaped c" and f: "keeps_shape f"
  shows "grows c (update_bucket a f c)"
proof (cases "a < length (buckets c)")
  case True
  have "\<forall>b\<in>set ((buckets c)[a := f (buckets c ! a)]). length (bk_SuccessLatencies b) = nat (col_numShards c)
      \<and> length (bk_RejectedLatencies b) = nat (col_numShards c)"
    using c f True set_update_subset_insert [of "buckets c" a "f (buckets c ! a)"]
    by (auto simp: shaped_def keeps_shape_def)
  then show ?thesis using c f True by (auto simp: grows_def shaped_def update_bucket_def keeps_shape_def nth_list_update)
next
  case False
  then show ?thesis using c by (intro grows_frame) (simp_all add: update_bucket_def list_update_beyond)
qed

lemma in_bucket_update [simp]:
  "in_bucket f (update_bucket a g c) b = (if b = a \<and> a < length (buckets c) then f (g (buckets c ! a)) else in_bucket f c b)"
  by (auto simp: in_bucket_def update_bucket_def nth_list_update)

lemma in_bucket_at [simp]: "a < length (buckets c) \<Longrightarrow> in_bucket f c a = f (buckets c ! a)"
  by (simp add: in_bucket_def)

lemma grows_rotate:
  assumes "shaped c"
  shows "grows c (rotateBucket c now)" and "now \<le> bk_Timestamp (current (rotateBucket c now))"
  using assms by (auto simp: grows_def shaped_def rotateBucket_def Let_def nth_append newBucket_def)

lemma reading_rotate [simp]: "reading m (rotateBucket c now) = reading m c"
proof -
  have "length (concat (replicate k [])) = 0" for k by (induction k) simp_all
  then show ?thesis
    by (cases m) (auto simp: rotateBucket_def Let_def in_bucket_def nth_append newBucket_def less_Suc_eq w64_id in64_def)
qed

lemma shapes [simp]: "keeps_shape bucket_total" "keeps_shape (bucket_mark rl)" "keeps_shape (bucket_store rl i l)"
  by (auto simp: keeps_shape_def bucket_total_def bucket_mark_def bucket_store_def)

text \<open>The recorders of other things change none of these counters.\<close>

lemma other_update:
  assumes "other_record op" and "shaped c"
  shows "grows c (metric_apply op c) \<and> (\<forall>m. reading m (metric_apply op c) = reading m c)"
proof (cases "op_second op")
  case (Some s)
  let ?c = "count_before op c"
  define c' where "c' = fst (bucket_for ?c s)"
  have f: "bucket_for ?c s = (c', currentBucket c')"
    using bucket_for_current [of ?c s] by (simp add: c'_def prod_eq_iff)
  have e: "metric_apply op c = update_bucket (currentBucket c') (op_update op c') c'"
    using Some assms(1) f
    by (cases op) (auto simp: Collector_RecordRateLimitCheck_def Collector_RecordRemoteTokenFetch_def
        Collector_RecordTokenFetchWait_def Let_def time_shard_def)
  have "shaped ?c" using assms(2) by (cases op) (auto simp: shaped_def)
  have r: "reading m ?c = reading m c" for m using assms(1) by (cases op; cases m) (auto simp: in_bucket_def)
  have c': "c' = ?c \<or> c' = rotateBucket ?c s" by (simp add: c'_def bucket_for_def Let_def)
  have g: "grows ?c c'" using c' grows_rotate(1) [OF \<open>shaped ?c\<close>] grows_frame [OF \<open>shaped ?c\<close>, of ?c] by auto
  have k: "keeps_shape (op_update op c')" using assms(1) Some by (cases op) (auto simp: keeps_shape_def)
  have "grows c' (metric_apply op c)" unfolding e using g by (intro grows_update k) (simp add: grows_def)
  moreover have "grows c ?c" using assms(2) by (intro grows_frame) (cases op; simp)+
  ultimately have "grows c (metric_apply op c)" using g by (auto simp: grows_def)
  moreover have "reading m (metric_apply op c) = reading m c" for m
  proof -
    have "reading m (update_bucket (currentBucket c') (op_update op c') c') = reading m c'"
    proof -
      have "col_totalRequests (update_bucket a h c') = col_totalRequests c'" "col_successfulRequests (update_bucket a h c') = col_successfulRequests c'"
        "col_rateLimitedRequests (update_bucket a h c') = col_rateLimitedRequests c'"
        "col_failedRequests (update_bucket a h c') = col_failedRequests c'" for a h
        by (simp_all add: update_bucket_def)
      then show ?thesis using assms(1) Some by (cases op; cases m) auto
    qed
    then show ?thesis unfolding e using c' r by auto
  qed
  ultimately show ?thesis by blast
next
  case None
  then have "op_second op = None" "other_record op" using assms by auto
  then show ?thesis using assms(2) by (cases op; auto intro!: grows_frame simp: RecordConnection_def; rename_tac m; case_tac m; simp add: in_bucket_def)
qed

lemma update_counters [simp]:
  "col_totalRequests (update_bucket a f c) = col_totalRequests c"
  "col_successfulRequests (update_bucket a f c) = col_successfulRequests c"
  "col_rateLimitedRequests (update_bucket a f c) = col_rateLimitedRequests c"
  "col_failedRequests (update_bucket a f c) = col_failedRequests c"
  by (simp_all add: update_bucket_def)

text \<open>What the actions of a recorder do to each counter.\<close>

lemma reading_tally: "reading m (count_total c) = (if m = MTotal then w64 (reading m c + 1) else reading m c)"
  by (cases m) (simp_all add: count_total_def in_bucket_def)

lemma reading_failed: "reading m (count_failed c) = (if m = MFail then w64 (reading m c + 1) else reading m c)"
  by (cases m) (simp_all add: count_failed_def in_bucket_def)

lemma reading_class:
  "reading m (count_class rl c) = (if m = (if rl then MLimited else MSuccess) then w64 (reading m c + 1) else reading m c)"
  by (cases m) (auto simp: count_class_def in_bucket_def)

lemma reading_bucket_total:
  "a < length (buckets c) \<Longrightarrow> reading m (update_bucket a bucket_total c)
    = (if m = BTotal a then w64 (reading m c + 1) else reading m c)"
  by (cases m) (auto simp: bucket_total_def)

lemma reading_mark:
  "a < length (buckets c) \<Longrightarrow> reading m (update_bucket a (bucket_mark rl) c)
    = (if m = (if rl then BRejected a else BSuccess a) then w64 (reading m c + 1) else reading m c)"
  by (cases m) (auto simp: bucket_mark_def)

lemma reading_store:
  assumes "a < length (buckets c)" and "shaped c" and "i < nat (col_numShards c)"
  shows "reading m (update_bucket a (bucket_store rl i l) c)
    = (if m = (if rl then BRejectedLatencies a else BSuccessLatencies a) then w64 (reading m c + 1) else reading m c)"
proof -
  have "buckets c ! a \<in> set (buckets c)" using assms(1) by simp
  then have "i < length (bk_SuccessLatencies (buckets c ! a))" "i < length (bk_RejectedLatencies (buckets c ! a))"
    using assms(2,3) by (auto simp: shaped_def)
  then show ?thesis using assms(1) by (cases m) (auto simp: bucket_store_def length_concat_update add.commute)
qed

lemma rec_step_inv:
  assumes "rec_step x y" and inv: "rec_inv x"
  shows "rec_inv y"
proof -
  have sh: "shaped (col x)" and pl: "\<And>t p. recs x t = Some p \<Longrightarrow> placed (col x) p"
    and w: "\<And>m. w64 (reading m (col x)) = reading m (col x)"
    using inv by (auto simp: rec_inv_def)
  have refl: "grows (col x) (col x)" using grows_frame [OF sh, of "col x"] by simp
  have frame: "grows (col x) (count_total (col x))" "grows (col x) (count_failed (col x))" "grows (col x) (count_class rl (col x))" for rl
    using sh by (auto intro!: grows_frame simp: count_total_def count_failed_def count_class_def)
  have shard: "client_shard (col x) i < nat (col_numShards (col x))" for i
    using sh client_shard_less [of "col x" i] by (simp add: shaped_def)
  have after: "placed c p" if "recs x t = Some q" "grows (col x) c" "placed (col x) q \<Longrightarrow> placed (col x) p" for t q c p
    using pl [OF that(1)] that(2,3) placed_grows by blast
  note move = rec_inv_move [OF inv]
  show ?thesis
    using assms(1)
  proof (cases rule: rec_step.cases)
    case (call t args)
    show ?thesis unfolding call(1)
      by (rule move [OF refl]) (simp, cases args, rename_tac m a b c, case_tac m, auto simp: call w simp del: reading.simps)
  next
    case (tally t args)
    show ?thesis unfolding tally(1)
      by (rule move [OF frame(1)]) (simp, cases args, rename_tac m a b c, case_tac m, auto simp: tally w reading_tally simp del: reading.simps)
  next
    case (load t args now)
    show ?thesis unfolding load(1)
      by (rule move [OF refl]) (use sh in \<open>simp add: shaped_def\<close>, cases args, rename_tac m a b c, case_tac m, auto simp: load w simp del: reading.simps)
  next
    case (keep t now a args)
    show ?thesis unfolding keep(1)
      by (rule move [OF refl]) (use pl [OF keep(2)] keep(3) in simp, cases args, rename_tac m a b c, case_tac m, auto simp: keep w simp del: reading.simps)
  next
    case (rotate t now a args)
    show ?thesis unfolding rotate(1)
      by (rule move [OF grows_rotate(1) [OF sh]]) (simp add: grows_rotate(2) [OF sh], cases args, rename_tac m a b c, case_tac m, auto simp: rotate w simp del: reading.simps)
  next
    case (reload t now args)
    show ?thesis unfolding reload(1)
      by (rule move [OF refl]) (use pl [OF reload(2)] sh in \<open>simp add: shaped_def\<close>, cases args, rename_tac m a b c, case_tac m, auto simp: reload w simp del: reading.simps)
  next
    case (total t now a args)
    have a: "a < length (buckets (col x))" using pl [OF total(2)] by simp
    have g: "grows (col x) (update_bucket a bucket_total (col x))" using sh by (intro grows_update) simp_all
    show ?thesis unfolding total(1)
      by (rule move [OF g after [OF total(2) g]])
        (simp, cases args, rename_tac m b c d, case_tac m, auto simp: total w reading_bucket_total [OF a] simp del: reading.simps)
  next
    case (classify t now a i l rl)
    show ?thesis unfolding classify(1)
      by (rule move [OF frame(3) after [OF classify(2) frame(3)]])
        (simp, rename_tac m, case_tac m, auto simp: classify w reading_class simp del: reading.simps)
  next
    case (mark t now a i l rl)
    have a: "a < length (buckets (col x))" using pl [OF mark(2)] by simp
    have g: "grows (col x) (update_bucket a (bucket_mark rl) (col x))" using sh by (intro grows_update) simp_all
    show ?thesis unfolding mark(1)
      by (rule move [OF g after [OF mark(2) g]])
        (simp, rename_tac m, case_tac m, auto simp: mark w reading_mark [OF a] simp del: reading.simps)
  next
    case (store t now a i l rl)
    have a: "a < length (buckets (col x))" using pl [OF store(2)] by simp
    have g: "grows (col x) (update_bucket a (bucket_store rl (client_shard (col x) i) l) (col x))"
      using sh by (intro grows_update) simp_all
    show ?thesis unfolding store(1)
      by (rule move [OF g after [OF store(2) g]])
        (simp, rename_tac m, case_tac m, auto simp: store w reading_store [OF a sh shard] simp del: reading.simps)
  next
    case (fail_call t)
    show ?thesis unfolding fail_call(1)
      by (rule move [OF refl]) (simp, rename_tac m, case_tac m, auto simp: fail_call w simp del: reading.simps)
  next
    case (fail_tally t)
    show ?thesis unfolding fail_tally(1)
      by (rule move [OF frame(1)]) (simp, rename_tac m, case_tac m, auto simp: fail_tally w reading_tally simp del: reading.simps)
  next
    case (fail_count t)
    show ?thesis unfolding fail_count(1)
      by (rule move [OF frame(2)]) (simp, rename_tac m, case_tac m, auto simp: fail_count w reading_failed simp del: reading.simps)
  next
    case (other op)
    note o = other_update [OF other(2) sh]
    show ?thesis unfolding other(1) using inv o placed_grows [OF _ conjunct1 [OF o]]
      by (auto simp: rec_inv_def grows_def)
  qed
qed

section \<open>When the recorders have returned\<close>

definition rec_run :: "rec_sys \<Rightarrow> rec_sys \<Rightarrow> bool" where
  "rec_run = rec_step\<^sup>*\<^sup>*"

definition rec_init :: "collector \<Rightarrow> rec_sys" where
  "rec_init c = \<lparr>col = c, recs = Map.empty\<rparr>"

lemma rec_init_inv:
  assumes "n < 2 ^ 63"
  shows "rec_inv (rec_init (NewCollector startTime now n))"
proof -
  have e: "length (concat (replicate k [])) = 0" for k by (induction k) simp_all
  have "reading m (NewCollector startTime now n) = 0" for m
    by (cases m) (auto simp: NewCollector_def Let_def in_bucket_def newBucket_def e w64_id in64_def)
  moreover have "w64 0 = 0" by (simp add: w64_id in64_def)
  moreover have "shaped (NewCollector startTime now n)"
    using assms by (simp add: NewCollector_def shaped_def Let_def newBucket_def)
  ultimately show ?thesis by (simp add: rec_inv_def rec_init_def)
qed

lemma rec_run_inv: "rec_run x y \<Longrightarrow> rec_inv x \<Longrightarrow> rec_inv y"
  unfolding rec_run_def by (induction rule: rtranclp_induct) (auto dest: rec_step_inv)

fun finished :: "rec_pc \<Rightarrow> bool" where
  "finished (Stored _ _ _) = True"
| "finished FailDone = True"
| "finished _ = False"

lemma count_threads_cong: "(\<And>t p. m t = Some p \<Longrightarrow> P p = Q p) \<Longrightarrow> count_threads P m = count_threads Q m"
  by (auto simp: count_threads_def threads_def intro!: arg_cong [of _ _ card])

text \<open>The running of one recorder alone is one of the interleavings.\<close>

lemma record_request_refines:
  assumes sh: "shaped c" and t: "r t = None"
  shows "\<exists>a. rec_run \<lparr>col = c, recs = r\<rparr>
    (move_to t (Stored (time_unix now) a (clientID, l, rl)) (RecordRequest c now clientID serverID l rl) \<lparr>col = c, recs = r\<rparr>)"
proof -
  let ?x = "\<lparr>col = c, recs = r\<rparr>" and ?args = "(clientID, l, rl)" and ?s = "time_unix now"
  let ?c1 = "count_total c" and ?a = "currentBucket (fst (bucket_for (count_total c) (time_unix now)))"
  let ?c2 = "fst (bucket_for (count_total c) ?s)"
  let ?c5 = "count_class rl (update_bucket ?a bucket_total ?c2)"
  let ?c7 = "update_bucket ?a (bucket_store rl (client_shard c clientID) l) (update_bucket ?a (bucket_mark rl) ?c5)"
  have to: "rec_step\<^sup>*\<^sup>* x (move_to t p d ?x) \<Longrightarrow> rec_step (move_to t p d ?x) (move_to t q e (move_to t p d ?x)) \<Longrightarrow>
      rec_step\<^sup>*\<^sup>* x (move_to t q e ?x)" for x p d q e
    by (simp add: move_to_def rtranclp.rtrancl_into_rtrancl)
  have cur: "currentBucket ?c1 = currentBucket c" "buckets ?c1 = buckets c" by (simp_all add: count_total_def)
  have s1: "rec_step\<^sup>*\<^sup>* ?x (move_to t (Begun ?args) c ?x)"
    using rec_step.call [of ?x t ?args] t by (simp add: r_into_rtranclp)
  have s2: "rec_step\<^sup>*\<^sup>* ?x (move_to t (Tallied ?args) ?c1 ?x)"
    using to [OF s1] rec_step.tally [of "move_to t (Begun ?args) c ?x" t ?args] by (simp add: move_to_def)
  have s3: "rec_step\<^sup>*\<^sup>* ?x (move_to t (Loaded ?s (currentBucket c) ?args) ?c1 ?x)"
    using to [OF s2] rec_step.load [of "move_to t (Tallied ?args) ?c1 ?x" t ?args ?s] by (simp add: move_to_def cur)
  have s4: "rec_step\<^sup>*\<^sup>* ?x (move_to t (Holding ?s ?a ?args) ?c2 ?x)"
  proof (cases "bk_Timestamp (current c) < ?s")
    case True
    have f: "?c2 = rotateBucket ?c1 ?s" using True by (simp add: bucket_for_def cur Let_def)
    have "rec_step\<^sup>*\<^sup>* ?x (move_to t (Rotated ?s ?args) (rotateBucket ?c1 ?s) ?x)"
      using to [OF s3] rec_step.rotate [of "move_to t (Loaded ?s (currentBucket c) ?args) ?c1 ?x" t ?s "currentBucket c" ?args] True
      by (simp add: move_to_def cur)
    from to [OF this] show ?thesis
      using rec_step.reload [of "move_to t (Rotated ?s ?args) (rotateBucket ?c1 ?s) ?x" t ?s ?args]
      by (simp add: move_to_def f)
  next
    case False
    then have f: "?c2 = ?c1" by (simp add: bucket_for_def cur Let_def)
    show ?thesis
      using to [OF s3] rec_step.keep [of "move_to t (Loaded ?s (currentBucket c) ?args) ?c1 ?x" t ?s "currentBucket c" ?args] False
      by (simp add: move_to_def f cur)
  qed
  have s5: "rec_step\<^sup>*\<^sup>* ?x (move_to t (Totalled ?s ?a ?args) (update_bucket ?a bucket_total ?c2) ?x)"
    using to [OF s4] rec_step.total [of "move_to t (Holding ?s ?a ?args) ?c2 ?x" t ?s ?a ?args] by (simp add: move_to_def)
  have s6: "rec_step\<^sup>*\<^sup>* ?x (move_to t (Classified ?s ?a ?args) ?c5 ?x)"
    using to [OF s5] rec_step.classify [of "move_to t (Totalled ?s ?a ?args) (update_bucket ?a bucket_total ?c2) ?x" t ?s ?a clientID l rl]
    by (simp add: move_to_def)
  have s7: "rec_step\<^sup>*\<^sup>* ?x (move_to t (Marked ?s ?a ?args) (update_bucket ?a (bucket_mark rl) ?c5) ?x)"
    using to [OF s6] rec_step.mark [of "move_to t (Classified ?s ?a ?args) ?c5 ?x" t ?s ?a clientID l rl]
    by (simp add: move_to_def)
  have n: "col_numShards (update_bucket ?a (bucket_mark rl) ?c5) = col_numShards c"
    by (simp add: count_class_def bucket_for_def rotateBucket_def count_total_def Let_def)
  have i: "client_shard (update_bucket ?a (bucket_mark rl) ?c5) clientID = client_shard c clientID"
    unfolding client_shard_def n ..
  have s8: "rec_step\<^sup>*\<^sup>* ?x (move_to t (Stored ?s ?a ?args) ?c7 ?x)"
    using to [OF s7] rec_step.store [of "move_to t (Marked ?s ?a ?args) (update_bucket ?a (bucket_mark rl) ?c5) ?x" t ?s ?a clientID l rl]
    by (simp add: move_to_def i)
  have sh1: "shaped ?c1" using sh by (simp add: shaped_def count_total_def)
  have "shaped ?c2" using grows_rotate(1) [OF sh1, of ?s] sh1 by (auto simp: bucket_for_def Let_def grows_def)
  then have a: "?a < length (buckets ?c2)" by (simp add: shaped_def)
  have "RecordRequest c now clientID serverID l rl = ?c7"
    using a n unfolding RecordRequest_def Let_def count_total_def [symmetric]
    by (auto simp: case_prod_beta bucket_for_current update_bucket_def count_class_def bucket_total_def bucket_mark_def
        bucket_store_def client_shard_def)
  then show ?thesis using s8 unfolding rec_run_def by auto
qed

text \<open>When all recorders have returned, each is counted by every meter of its outcome.\<close>

lemma finished_counts:
  assumes fin: "finite (dom m)" and all: "\<forall>t p. m t = Some p \<longrightarrow> finished p"
  shows "count_threads (counted_by MTotal) m = int (card (dom m))"
    and "count_threads (counted_by MTotal) m = count_threads (counted_by MSuccess) m
      + count_threads (counted_by MLimited) m + count_threads (counted_by MFail) m"
    and "count_threads (counted_by (BTotal a)) m
      = count_threads (counted_by (BSuccess a)) m + count_threads (counted_by (BRejected a)) m"
    and "count_threads (counted_by (BSuccess a)) m = count_threads (counted_by (BSuccessLatencies a)) m"
    and "count_threads (counted_by (BRejected a)) m = count_threads (counted_by (BRejectedLatencies a)) m"
proof -
  have done_at: "\<exists>s a i l rl. p = Stored s a (i, l, rl) \<or> p = FailDone" if "m t = Some p" for t p
  proof -
    have "finished p" using all that by blast
    then show ?thesis by (cases p) (simp_all add: split_paired_all)
  qed
  have two: "count_threads R m = count_threads P m + count_threads Q m"
    if "\<And>t p. m t = Some p \<Longrightarrow> R p = (P p \<or> Q p)" "\<And>p. \<not> (P p \<and> Q p)" for P Q R
    using count_threads_cong [of m R "\<lambda>p. P p \<or> Q p"] count_threads_disj [OF fin, of P Q] that by auto
  have "threads (counted_by MTotal) m = dom m"
    using done_at by (fastforce simp: threads_def dom_def)
  then show "count_threads (counted_by MTotal) m = int (card (dom m))" by (simp add: count_threads_def)
  have "count_threads (counted_by MTotal) m
      = count_threads (\<lambda>p. counted_by MSuccess p \<or> counted_by MLimited p) m + count_threads (counted_by MFail) m"
    by (rule two) (auto dest!: done_at)
  moreover have "count_threads (\<lambda>p. counted_by MSuccess p \<or> counted_by MLimited p) m
      = count_threads (counted_by MSuccess) m + count_threads (counted_by MLimited) m"
    by (rule two) auto
  ultimately show "count_threads (counted_by MTotal) m = count_threads (counted_by MSuccess) m
      + count_threads (counted_by MLimited) m + count_threads (counted_by MFail) m" by simp
  show "count_threads (counted_by (BTotal a)) m
      = count_threads (counted_by (BSuccess a)) m + count_threads (counted_by (BRejected a)) m"
    by (rule two) (auto dest!: done_at)
  show "count_threads (counted_by (BSuccess a)) m = count_threads (counted_by (BSuccessLatencies a)) m"
    "count_threads (counted_by (BRejected a)) m = count_threads (counted_by (BRejectedLatencies a)) m"
    by (rule count_threads_cong; auto dest!: done_at)+
qed

text \<open>
  C31. Concurrent recorders lose nothing. From a new collector, in every interleaving of the
  atomic actions of recorders, with any clock readings and any rotations between them, once all
  recorders have returned: the total is the number of recorders and the sum of the three
  outcomes; in every bucket the total is successes plus rejections and each is the number of its
  latencies; and each request is in an existing bucket of its second or a later one.
\<close>

theorem recorders_quiescent:
  assumes "n < 2 ^ 63" and "rec_run (rec_init (NewCollector startTime now n)) y"
    and "\<forall>t p. recs y t = Some p \<longrightarrow> finished p"
  shows "col_totalRequests (col y) = w64 (int (card (dom (recs y))))
    \<and> col_totalRequests (col y) = w64 (col_successfulRequests (col y) + col_rateLimitedRequests (col y) + col_failedRequests (col y))
    \<and> (\<forall>b\<in>set (buckets (col y)). bk_Total b = w64 (bk_Success b + bk_Rejected b)
        \<and> bk_Success b = w64 (int (length (concat (bk_SuccessLatencies b))))
        \<and> bk_Rejected b = w64 (int (length (concat (bk_RejectedLatencies b)))))
    \<and> (\<forall>t s a args. recs y t = Some (Stored s a args) \<longrightarrow>
        a < length (buckets (col y)) \<and> s \<le> bk_Timestamp (buckets (col y) ! a))"
proof -
  have inv: "rec_inv y" using rec_run_inv [OF assms(2) rec_init_inv [OF assms(1)]] .
  have r: "reading m (col y) = w64 (count_threads (counted_by m) (recs y))" for m
    using inv by (simp add: rec_inv_def)
  have fin: "finite (dom (recs y))" using inv by (simp add: rec_inv_def)
  note bucket = finished_counts(3-5) [OF fin assms(3)]
  have "bk_Total b = w64 (bk_Success b + bk_Rejected b)
      \<and> bk_Success b = w64 (int (length (concat (bk_SuccessLatencies b))))
      \<and> bk_Rejected b = w64 (int (length (concat (bk_RejectedLatencies b))))" if "b \<in> set (buckets (col y))" for b
  proof -
    obtain a where a: "a < length (buckets (col y))" "b = buckets (col y) ! a" using \<open>b \<in> _\<close> by (metis in_set_conv_nth)
    show ?thesis
      using r [of "BTotal a"] r [of "BSuccess a"] r [of "BRejected a"] r [of "BSuccessLatencies a"] r [of "BRejectedLatencies a"]
        a bucket [of a] by simp
  qed
  moreover have "a < length (buckets (col y)) \<and> s \<le> bk_Timestamp (buckets (col y) ! a)"
    if "recs y t = Some (Stored s a args)" for t s a args
    using inv that by (fastforce simp: rec_inv_def)
  moreover have "col_totalRequests (col y) = w64 (int (card (dom (recs y))))"
    using r [of MTotal] finished_counts(1) [OF fin assms(3)] by simp
  moreover have "col_totalRequests (col y)
      = w64 (col_successfulRequests (col y) + col_rateLimitedRequests (col y) + col_failedRequests (col y))"
    using r [of MTotal] r [of MSuccess] r [of MLimited] r [of MFail] 
    unfolding reading.simps finished_counts(2) [OF fin assms(3)]
    by (simp only: w64_add_left w64_add_right w64_add_mid w64_add_deep add.assoc)
  ultimately show ?thesis by blast
qed

text \<open>One recorder, at work while the second changes.\<close>

theorem recorders_quiescent_witness:
  "\<exists>y. rec_run (rec_init (NewCollector (now_at 0 0) (now_at 0 0) 4)) y
    \<and> recs y 0 \<noteq> None \<and> col_totalRequests (col y) = 1
    \<and> col_totalRequests (col y) = w64 (col_successfulRequests (col y) + col_rateLimitedRequests (col y) + col_failedRequests (col y))"
proof -
  let ?c = "NewCollector (now_at 0 0) (now_at 0 0) 4"
  have "shaped ?c" using rec_init_inv [of 4] by (simp add: rec_inv_def rec_init_def)
  then obtain a where run: "rec_run (rec_init ?c)
      (move_to 0 (Stored (time_unix (now_at second 5)) a (''client-0'', 7, False))
        (RecordRequest ?c (now_at second 5) ''client-0'' [] 7 False) (rec_init ?c))"
    using record_request_refines [of ?c Map.empty 0] unfolding rec_init_def by blast
  define y where "y = move_to 0 (Stored (time_unix (now_at second 5)) a (''client-0'', 7, False))
      (RecordRequest ?c (now_at second 5) ''client-0'' [] 7 False) (rec_init ?c)"
  have recs: "recs y = [0 \<mapsto> Stored (time_unix (now_at second 5)) a (''client-0'', 7, False)]"
    by (simp add: y_def move_to_def rec_init_def)
  have run: "rec_run (rec_init ?c) y" using run by (simp add: y_def)
  have done_at: "\<forall>t p. recs y t = Some p \<longrightarrow> finished p" by (simp add: recs)
  have q: "col_totalRequests (col y) = w64 (int (card (dom (recs y))))
      \<and> col_totalRequests (col y)
        = w64 (col_successfulRequests (col y) + col_rateLimitedRequests (col y) + col_failedRequests (col y))"
    using recorders_quiescent [OF _ run] done_at by simp
  have "w64 1 = 1" by (simp add: w64_id in64_def)
  then have "col_totalRequests (col y) = 1" using q by (simp add: recs)
  then show ?thesis using q run by (intro exI [of _ y]) (simp add: recs)
qed

end
