(* ===== verification/Lifecycle.thy ===== *)
theory Lifecycle
  imports Workers Transports Recorders
begin

text \<open>
  The life cycle of the simulator in \<^verbatim>\<open>pkg/simulator/simulator.go\<close>: \<^verbatim>\<open>Run\<close>, \<^verbatim>\<open>Stop\<close>, the
  reporter of the metrics and \<^verbatim>\<open>main\<close> of \<^verbatim>\<open>cmd/simulator\<close>. What the clients do between the
  start and the end of a run is an argument of \<open>Simulator_Run\<close> (the workers are interleaved in
  their own theory); so are the file system and the JSON encoder.

  The servers of the simulator and those of the transport are the same objects; \<open>sim_world\<close>
  holds them once, in the transport.

  Shown: which calls of \<^verbatim>\<open>Run\<close> and \<^verbatim>\<open>Stop\<close> succeed in any order of calls, and that a
  simulator stopped, run again and stopped again panics; the records of the reporter in the
  file are at least a second apart.
\<close>

section \<open>Starting and stopping the servers\<close>

fun start_servers :: "server list \<Rightarrow> server list \<times> error option" where
  "start_servers [] = ([], None)"
| "start_servers (s # ss) =
     (case Start s of
        Inl err \<Rightarrow> (s # ss, Some (Wrapped (''failed to start server '' @ srv_id s) err))
      | Inr s \<Rightarrow> (let (ss, err) = start_servers ss in (s # ss, err)))"

text \<open>\<open>pending s\<close>: handlers of this server outlast the five seconds. The error is dropped.\<close>

definition stop_servers :: "(server \<Rightarrow> bool) \<Rightarrow> server list \<Rightarrow> server list" where
  "stop_servers pending = map (\<lambda>s. fst (Stop s (pending s)))"

text \<open>Closing the clients, one after the other, over the connections they share.\<close>

fun close_clients :: "'t transport_ops option \<Rightarrow> client list \<Rightarrow> 't world \<Rightarrow> client list \<times> 't world" where
  "close_clients ops [] w = ([], w)"
| "close_clients ops (c # cs) w =
     (let (c, w) = Client_Close ops c w; (cs, w) = close_clients ops cs w in (c # cs, w))"

section \<open>Run and Stop\<close>

record 'm simulation =
  sn_simulator :: simulator
  sn_world :: "'m network world"

abbreviation sim_servers_of :: "'m simulation \<Rightarrow> server list" where
  "sim_servers_of x \<equiv> net_servers (wd_tp (sn_world x))"

definition with_servers :: "'m simulation \<Rightarrow> server list \<Rightarrow> 'm simulation" where
  "with_servers x ss = x\<lparr>sn_world := (sn_world x)\<lparr>wd_tp := (wd_tp (sn_world x))\<lparr>net_servers := ss\<rparr>\<rparr>\<rparr>"

definition update_sim :: "(simulator \<Rightarrow> simulator) \<Rightarrow> 'm simulation \<Rightarrow> 'm simulation" where
  "update_sim f x = x\<lparr>sn_simulator := f (sn_simulator x)\<rparr>"

text \<open>The part of \<^verbatim>\<open>Run\<close> that can fail: the check and the start of the servers.\<close>

definition run_begin :: "'m simulation \<Rightarrow> 'm simulation \<times> error option" where
  "run_begin x =
     (if sim_running (sn_simulator x) then (x, Some AlreadyRunning)
      else
      let x = update_sim (\<lambda>s. s\<lparr>sim_running := True\<rparr>) x;
          (ss, err) = start_servers (sim_servers_of x)
      in (with_servers x ss, err))"

definition with_connection_stats :: "server list \<Rightarrow> metrics_snapshot \<Rightarrow> metrics_snapshot" where
  "with_connection_stats ss snapshot =
     (let (active, total, closed) = getConnectionStats ss
      in snapshot\<lparr>ms_ActiveConnections := active, ms_TotalConnections := total, ms_ClosedConnections := closed\<rparr>)"

record run_clock =
  rn_start :: gotime
  rn_bucket :: gotime
  rn_final :: snapshot_clock
  rn_end :: gotime

text \<open>The end of \<^verbatim>\<open>Run\<close>: the last snapshot, and the report if there is a writer.\<close>

definition run_finish :: "(metrics_report \<Rightarrow> error + 'bytes) \<Rightarrow> ('fs \<Rightarrow> string \<Rightarrow> 'bytes \<Rightarrow> 'fs \<times> error option)
    \<Rightarrow> run_clock \<Rightarrow> 'm simulation \<Rightarrow> 'fs \<Rightarrow> 'm simulation \<times> 'fs \<times> metrics_snapshot" where
  "run_finish marshal write clk x fs =
     (let s = sn_simulator x;
          finalSnapshot = with_connection_stats (sim_servers_of x) (CaptureFinalSnapshot (sim_metrics s) (rn_final clk))
      in case metricsWriter s of
           None \<Rightarrow> (x, fs, finalSnapshot)
         | Some w \<Rightarrow>
             let w = SetFinalResult (AddSnapshot w finalSnapshot) (rn_end clk) finalSnapshot;
                 (fs, err) = Save marshal write fs w
             in (update_sim (\<lambda>s. s\<lparr>metricsWriter := Some w\<rparr>) x, fs, finalSnapshot))"

definition Simulator_Run :: "(metrics_report \<Rightarrow> error + 'bytes) \<Rightarrow> ('fs \<Rightarrow> string \<Rightarrow> 'bytes \<Rightarrow> 'fs \<times> error option)
    \<Rightarrow> ('m simulation \<Rightarrow> 'm simulation) \<Rightarrow> run_clock \<Rightarrow> 'm simulation \<Rightarrow> 'fs
    \<Rightarrow> 'm simulation \<times> 'fs \<times> (error + metrics_snapshot)" where
  "Simulator_Run marshal write clients clk x fs =
     (case run_begin x of
        (x, Some err) \<Rightarrow> (x, fs, Inl err)
      | (x, None) \<Rightarrow>
          let x = update_sim (\<lambda>s. s\<lparr>sim_metrics := Reset (sim_metrics s) (rn_start clk) (rn_bucket clk)\<rparr>) x;
              x = clients x;
              (x, fs, finalSnapshot) = run_finish marshal write clk x fs
          in (x, fs, Inr finalSnapshot))"

text \<open>
  \<^verbatim>\<open>Stop\<close>; \<open>Inl\<close> is the panic of closing a closed channel, which comes after the flag is
  cleared and before a server is stopped.
\<close>

definition Simulator_Stop :: "'m allow \<Rightarrow> (server \<Rightarrow> bool) \<Rightarrow> 'm simulation \<Rightarrow> 'm simulation \<times> error option" where
  "Simulator_Stop allow pending x =
     (if \<not> sim_running (sn_simulator x) then (x, None)
      else
      let x = update_sim (\<lambda>s. s\<lparr>sim_running := False\<rparr>) x
      in if stopCh_closed (sn_simulator x) then (x, Some CloseOfClosedChannel)
      else
      let x = update_sim (\<lambda>s. s\<lparr>stopCh_closed := True\<rparr>) x;
          x = with_servers x (stop_servers pending (sim_servers_of x));
          (cs, w) = close_clients (Some (simulatorTransport allow)) (sim_clients (sn_simulator x)) (sn_world x)
      in (update_sim (\<lambda>s. s\<lparr>sim_clients := cs\<rparr>) x\<lparr>sn_world := w\<rparr>, None))"

section \<open>The reporter\<close>

record reporter =
  lastConsoleReport :: gotime
  lastFileRecord :: gotime

definition console_interval :: "config \<Rightarrow> duration" where
  "console_interval cfg =
     (let d = w64 (IntervalSeconds (Metrics cfg) * second) in if d \<le> 0 then second else d)"

definition start_reporter :: "config \<Rightarrow> gotime \<Rightarrow> gotime \<Rightarrow> reporter" where
  "start_reporter cfg now now' =
     \<lparr>lastConsoleReport = time_add now (- console_interval cfg), lastFileRecord = time_add now' (- second)\<rparr>"

text \<open>One tick: the writer, the reporter and what is printed.\<close>

definition report_tick :: "simulator \<Rightarrow> server list \<Rightarrow> gotime \<Rightarrow> gotime \<Rightarrow> snapshot_clock \<Rightarrow> reporter
    \<Rightarrow> file_writer option \<Rightarrow> reporter \<times> file_writer option \<times> metrics_snapshot option" where
  "report_tick s ss now snapNow clk r w =
     (let shouldReportConsole = console_interval (sim_config s) \<le> time_sub now (lastConsoleReport r);
          shouldRecordFile = (w \<noteq> None \<and> second \<le> time_sub now (lastFileRecord r))
      in if \<not> shouldReportConsole \<and> \<not> shouldRecordFile then (r, w, None)
      else
      let snapshot = with_connection_stats ss (Snapshot (sim_metrics s) snapNow clk);
          (r, w) = (if shouldRecordFile
                    then (r\<lparr>lastFileRecord := now\<rparr>, map_option (\<lambda>w. AddSnapshot w snapshot) w) else (r, w))
      in if shouldReportConsole then (r\<lparr>lastConsoleReport := now\<rparr>, w, Some snapshot) else (r, w, None))"

definition GetMetrics :: "simulator \<Rightarrow> gotime \<Rightarrow> snapshot_clock \<Rightarrow> metrics_snapshot" where
  "GetMetrics s now clk = Snapshot (sim_metrics s) now clk"

section \<open>From the simulator to a running simulation\<close>

definition launch :: "simulator \<Rightarrow> 'm \<Rightarrow> (nat \<Rightarrow> handler_clock) \<Rightarrow> 'm simulation" where
  "launch s lims clocks =
     \<lparr>sn_simulator = s,
      sn_world = \<lparr>wd_conns = [], wd_lb = loadBalancer s,
        wd_tp = \<lparr>net_servers = sim_servers s, net_limiters = lims, net_clock = clocks, net_tick = 0\<rparr>\<rparr>\<rparr>"

text \<open>
  \<^verbatim>\<open>main\<close>: the configuration, the simulator, one run and the stop. \<open>run\<close> is the call of
  \<^verbatim>\<open>Run\<close> and \<open>cancelled\<close> says whether a signal cancelled the context; the result is the exit
  status and, unless it ended before, the simulation at the end.
\<close>

definition main_config :: "(string \<Rightarrow> error + 'bytes) \<Rightarrow> ('bytes \<Rightarrow> config \<Rightarrow> error + config) \<Rightarrow> string \<Rightarrow> error + config" where
  "main_config readFile unmarshal configPath =
     (if configPath \<noteq> [] then LoadConfig readFile unmarshal configPath else Inr DefaultConfig)"

definition main :: "(string \<Rightarrow> error + 'bytes) \<Rightarrow> ('bytes \<Rightarrow> config \<Rightarrow> error + config) \<Rightarrow> string \<Rightarrow> new_clock
    \<Rightarrow> (simulator \<Rightarrow> 'm simulation \<times> error option) \<Rightarrow> bool \<Rightarrow> 'm allow \<Rightarrow> (server \<Rightarrow> bool)
    \<Rightarrow> int \<times> 'm simulation option" where
  "main readFile unmarshal configPath clk run cancelled allow pending =
     (case main_config readFile unmarshal configPath of
        Inl err \<Rightarrow> (1, None)
      | Inr cfg \<Rightarrow>
          (case Simulator_New cfg clk of
             Inl err \<Rightarrow> (1, None)
           | Inr sim \<Rightarrow>
               (let (x, err) = run sim
                in if err \<noteq> None \<and> \<not> cancelled then (1, Some x)
                   else (let (x, err) = Simulator_Stop allow pending x in (0, Some x)))))"

section \<open>Which calls succeed\<close>

text \<open>The life of a simulator: new, running, stopped, running again, and after a panic.\<close>

datatype phase = Fresh | Running | Stopped | RunningAgain | Broken

datatype life_op = DoRun | DoStop

datatype life_outcome = Fine | AlreadyRuns | StartFails | Panics

fun phase_step :: "life_op \<Rightarrow> phase \<Rightarrow> phase \<times> life_outcome" where
  "phase_step DoRun Fresh = (Running, Fine)"
| "phase_step DoRun Running = (Running, AlreadyRuns)"
| "phase_step DoRun Stopped = (RunningAgain, Fine)"
| "phase_step DoRun RunningAgain = (RunningAgain, AlreadyRuns)"
| "phase_step DoRun Broken = (RunningAgain, StartFails)"
| "phase_step DoStop Running = (Stopped, Fine)"
| "phase_step DoStop RunningAgain = (Broken, Panics)"
| "phase_step DoStop ph = (ph, Fine)"

definition outcome :: "error option \<Rightarrow> life_outcome" where
  "outcome err = (case err of
       None \<Rightarrow> Fine
     | Some AlreadyRunning \<Rightarrow> AlreadyRuns
     | Some CloseOfClosedChannel \<Rightarrow> Panics
     | Some _ \<Rightarrow> StartFails)"

definition in_phase :: "'m simulation \<Rightarrow> phase \<Rightarrow> bool" where
  "in_phase x ph \<longleftrightarrow> sim_servers_of x \<noteq> []
     \<and> (sim_running (sn_simulator x) \<longleftrightarrow> ph \<in> {Running, RunningAgain})
     \<and> (stopCh_closed (sn_simulator x) \<longleftrightarrow> ph \<in> {Stopped, RunningAgain, Broken})
     \<and> (\<forall>s\<in>set (sim_servers_of x). srv_running s \<longleftrightarrow> ph \<in> {Running, RunningAgain, Broken})"

section \<open>What requests leave alone\<close>

definition flags :: "server list \<Rightarrow> (string \<times> bool) list" where
  "flags = map (\<lambda>s. (srv_id s, srv_running s))"

lemma flags_update: "srv_id s = srv_id (ss ! i) \<Longrightarrow> srv_running s = srv_running (ss ! i) \<Longrightarrow> flags (ss[i := s]) = flags ss"
  by (cases "i < length ss") (auto simp: flags_def nth_list_update intro!: nth_equalityI)

lemma CloseConnection_flags:
  "srv_id (CloseConnection s i) = srv_id s" "srv_running (CloseConnection s i) = srv_running s"
  by (simp_all add: CloseConnection_def split: option.splits)

lemma HandleRequest_flags:
  assumes h: "HandleRequest allow s m clk i req = (s', m', e, r)"
  shows "srv_id s' = srv_id s \<and> srv_running s' = srv_running s"
proof (cases "srv_running s")
  case True
  obtain s1 a where g: "getOrCreateConnection (add_total s) (at_create clk) i = (s1, a)" by fastforce
  obtain s2 c where c: "count_on_connection s1 a = (s2, c)" by fastforce
  obtain m2 v where v: "check_limit allow m (at_allow clk) (limited_key s2 req) = (m2, v)" by fastforce
  obtain s3 sl resp where w: "conclude s2 v (new_response req c (at_stamp clk)) = (s3, sl, resp)" by (metis prod_cases3)
  have "s' = s3" using h True g c v w by (simp add: HandleRequest_def Let_def)
  moreover have "srv_id s1 = srv_id s \<and> srv_running s1 = srv_running s"
    using g by (auto simp: getOrCreateConnection_def add_total_def Let_def split: option.splits)
  moreover have "srv_id s2 = srv_id s1 \<and> srv_running s2 = srv_running s1"
    using c by (auto simp: count_on_connection_def Let_def)
  ultimately show ?thesis using conclude_frame [OF w] by simp
next
  case False
  then show ?thesis using h by (simp add: HandleRequest_def)
qed

interpretation sim_tp: transport_invariant "simulatorTransport allow" "\<lambda>n. flags (net_servers n) = fs" for allow fs
proof unfold_locales
  fix n :: "'a network" and serverID connID req
  assume f: "flags (net_servers n) = fs"
  show "flags (net_servers (fst (tp_Send (simulatorTransport allow) n serverID connID req))) = fs"
    using f by (auto simp: simulatorTransport_def transport_Send_def Let_def CloseConnection_flags
        intro!: flags_update [THEN trans] dest: HandleRequest_flags split: option.splits prod.splits sum.splits)
  show "flags (net_servers (tp_CloseConnection (simulatorTransport allow) n serverID connID)) = fs"
    using f by (auto simp: simulatorTransport_def transport_CloseConnection_def CloseConnection_flags flags_update split: option.splits)
qed

lemma close_clients_flags:
  "close_clients (Some (simulatorTransport allow)) cs w = (cs', w') \<Longrightarrow>
    flags (net_servers (wd_tp w')) = flags (net_servers (wd_tp w))"
proof (induction cs arbitrary: cs' w)
  case (Cons c cs)
  obtain c1 w1 where c: "Client_Close (Some (simulatorTransport allow)) c w = (c1, w1)" by fastforce
  from sim_tp.client_close [OF c refl] Cons c show ?case by (auto simp: Let_def split: prod.splits)
qed simp

lemma worker_step_flags:
  assumes "worker_step (Some (simulatorTransport allow)) p dl x y"
  shows "flags (net_servers (wd_tp (wk_world y))) = flags (net_servers (wd_tp (wk_world x)))"
  using assms
proof (cases rule: worker_step.cases)
  case (send i d n acquired clk now c w r latency)
  then show ?thesis using sim_tp.client_send [OF send(5) refl] by (simp add: goto_def)
qed (auto simp: goto_def leave_def close_dedicated_def CreateDedicatedConnection_def dest: sim_tp.opened [OF _ refl]
    intro: sim_tp.closed [OF refl] split: option.splits)

section \<open>Runs and stops in any order\<close>

text \<open>
  What happens during a run: steps of the workers of some client, ticks of the reporter, and
  records of the servers and limiters in the collector. The workers' own counter, limiter and
  places are theirs; the rest is shared with the simulator.
\<close>

inductive clients_step :: "'m allow \<Rightarrow> 'm simulation \<Rightarrow> 'm simulation \<Rightarrow> bool" for allow where
  work: "worker_step (Some (simulatorTransport allow)) p dl ws ws' \<Longrightarrow> wk_world ws = sn_world x \<Longrightarrow>
    wk_metrics ws = sim_metrics (sn_simulator x) \<Longrightarrow> wk_requestCount ws = requestCount (sn_simulator x) \<Longrightarrow>
    i < length (sim_clients (sn_simulator x)) \<Longrightarrow> wk_client ws = sim_clients (sn_simulator x) ! i \<Longrightarrow>
    clients_step allow x (update_sim (\<lambda>s. s\<lparr>sim_metrics := wk_metrics ws', requestCount := wk_requestCount ws',
        sim_clients := (sim_clients s)[i := wk_client ws']\<rparr>) (x\<lparr>sn_world := wk_world ws'\<rparr>))"
| tick: "report_tick (sn_simulator x) (sim_servers_of x) now snapNow clk r (metricsWriter (sn_simulator x)) = (r', w, out) \<Longrightarrow>
    clients_step allow x (update_sim (\<lambda>s. s\<lparr>metricsWriter := w\<rparr>) x)"
| observe: "other_record op \<Longrightarrow>
    clients_step allow x (update_sim (\<lambda>s. s\<lparr>sim_metrics := metric_apply op (sim_metrics s)\<rparr>) x)"

text \<open>A call of \<^verbatim>\<open>Run\<close> or \<^verbatim>\<open>Stop\<close>; \<open>clients\<close> is what happens during the run.\<close>

definition life_apply :: "(metrics_report \<Rightarrow> error + 'bytes) \<Rightarrow> ('fs \<Rightarrow> string \<Rightarrow> 'bytes \<Rightarrow> 'fs \<times> error option)
    \<Rightarrow> 'm allow \<Rightarrow> (server \<Rightarrow> bool) \<Rightarrow> ('m simulation \<Rightarrow> 'm simulation) \<Rightarrow> life_op \<times> run_clock
    \<Rightarrow> 'm simulation \<times> 'fs \<Rightarrow> ('m simulation \<times> 'fs) \<times> life_outcome" where
  "life_apply marshal write allow pending clients = (\<lambda>(op, clk) (x, fs).
     (case op of
        DoRun \<Rightarrow>
          (let (x, fs, r) = Simulator_Run marshal write clients clk x fs
           in ((x, fs), outcome (case r of Inl err \<Rightarrow> Some err | Inr _ \<Rightarrow> None)))
      | DoStop \<Rightarrow> (let (x, err) = Simulator_Stop allow pending x in ((x, fs), outcome err))))"

text \<open>The outcomes of a sequence of calls, in the program and in the automaton.\<close>

fun outcomes_of :: "('a \<Rightarrow> 's \<Rightarrow> 's \<times> 'o) \<Rightarrow> 'a list \<Rightarrow> 's \<Rightarrow> 'o list" where
  "outcomes_of f [] x = []"
| "outcomes_of f (a # as) x = (let (x, out) = f a x in out # outcomes_of f as x)"

lemma outcomes_simulation:
  assumes step: "\<And>a x y. R x y \<Longrightarrow> R (fst (f a x)) (fst (g (h a) y)) \<and> snd (f a x) = snd (g (h a) y)" and "R x y"
  shows "outcomes_of f as x = outcomes_of g (map h as) y"
  using assms(2)
proof (induction as arbitrary: x y)
  case (Cons a as)
  from step [OF Cons.prems, of a] show ?case by (auto simp: case_prod_beta Let_def intro: Cons.IH)
qed simp

lemma flags_running: "flags ss = flags ts \<Longrightarrow> (ss = [] \<longleftrightarrow> ts = []) \<and> ((\<forall>s\<in>set ss. srv_running s = b) \<longleftrightarrow> (\<forall>s\<in>set ts. srv_running s = b))"
proof -
  assume f: "flags ss = flags ts"
  have "(\<forall>s\<in>set us. srv_running s = b) \<longleftrightarrow> (\<forall>p\<in>set (flags us). snd p = b)" for us by (simp add: flags_def)
  moreover have "us = [] \<longleftrightarrow> flags us = []" for us by (simp add: flags_def)
  ultimately show ?thesis by (simp add: f)
qed

text \<open>Phases depend on the two flags and on those of the servers.\<close>

lemma in_phase_cong:
  assumes "in_phase x ph" and "sim_running (sn_simulator y) = sim_running (sn_simulator x)"
    and "stopCh_closed (sn_simulator y) = stopCh_closed (sn_simulator x)"
    and "flags (sim_servers_of y) = flags (sim_servers_of x)"
  shows "in_phase y ph"
  using assms flags_running [OF assms(4), of "ph \<in> {Running, RunningAgain, Broken}"] by (simp add: in_phase_def)

lemma clients_step_phase: "clients_step allow x y \<Longrightarrow> in_phase x ph \<Longrightarrow> in_phase y ph"
proof (induction rule: clients_step.induct)
  case (work p dl ws ws' x i)
  have "flags (net_servers (wd_tp (wk_world ws'))) = flags (sim_servers_of x)"
    using worker_step_flags [OF work(1)] work(2) by simp
  then show ?case by (intro in_phase_cong [OF work(7)]) (simp_all add: update_sim_def)
next
  case (tick x now snapNow clk r r' w out)
  show ?case by (intro in_phase_cong [OF tick(2)]) (simp_all add: update_sim_def)
next
  case (observe op x)
  show ?case by (intro in_phase_cong [OF observe(2)]) (simp_all add: update_sim_def)
qed

lemma clients_phase: "(clients_step allow)\<^sup>*\<^sup>* x y \<Longrightarrow> in_phase x ph \<Longrightarrow> in_phase y ph"
  by (induction rule: rtranclp_induct) (auto dest: clients_step_phase)

lemma start_none_running:
  "\<forall>s\<in>set ss. \<not> srv_running s \<Longrightarrow> \<exists>ts. start_servers ss = (ts, None) \<and> (\<forall>s\<in>set ts. srv_running s) \<and> length ts = length ss"
  by (induction ss) (auto simp: Start_def)

lemma start_first_running:
  "ss \<noteq> [] \<Longrightarrow> \<forall>s\<in>set ss. srv_running s \<Longrightarrow> \<exists>msg. start_servers ss = (ss, Some (Wrapped msg AlreadyRunning))"
  by (cases ss) (auto simp: Start_def)

lemma run_begin_phase:
  assumes "in_phase x ph"
  shows "case run_begin x of (y, err) \<Rightarrow> in_phase y (fst (phase_step DoRun ph)) \<and> outcome err = snd (phase_step DoRun ph)
    \<and> (err = None \<longleftrightarrow> snd (phase_step DoRun ph) = Fine)"
proof (cases ph)
  case Broken
  then obtain msg where "start_servers (sim_servers_of x) = (sim_servers_of x, Some (Wrapped msg AlreadyRunning))"
    using assms start_first_running [of "sim_servers_of x"] by (auto simp: in_phase_def)
  then show ?thesis
    using assms Broken by (simp add: run_begin_def in_phase_def update_sim_def with_servers_def outcome_def)
qed (use assms start_none_running [of "sim_servers_of x"] in
    \<open>auto simp: run_begin_def in_phase_def update_sim_def with_servers_def outcome_def split: prod.splits\<close>)

lemma run_finish_phase:
  "run_finish marshal write clk x fs = (y, fs', m) \<Longrightarrow> in_phase x ph \<Longrightarrow> in_phase y ph"
  by (auto simp: run_finish_def Let_def in_phase_def update_sim_def split: option.splits prod.splits)

lemma run_phase:
  assumes run: "Simulator_Run marshal write clients clk x fs = (y, fs', r)" and ph: "in_phase x ph"
    and clients: "\<And>x. (clients_step allow)\<^sup>*\<^sup>* x (clients x)"
  shows "in_phase y (fst (phase_step DoRun ph))
    \<and> outcome (case r of Inl err \<Rightarrow> Some err | Inr _ \<Rightarrow> None) = snd (phase_step DoRun ph)"
proof -
  obtain x1 err where b: "run_begin x = (x1, err)" by fastforce
  have B: "in_phase x1 (fst (phase_step DoRun ph))" "outcome err = snd (phase_step DoRun ph)"
    using run_begin_phase [OF ph] by (simp_all add: b)
  show ?thesis
  proof (cases err)
    case (Some e)
    then show ?thesis using run b B by (auto simp: Simulator_Run_def)
  next
    case None
    define x2 where "x2 = update_sim (\<lambda>s. s\<lparr>sim_metrics := Reset (sim_metrics s) (rn_start clk) (rn_bucket clk)\<rparr>) x1"
    have "in_phase x2 (fst (phase_step DoRun ph))"
      by (intro in_phase_cong [OF B(1)]) (simp_all add: x2_def update_sim_def)
    from clients_phase [OF clients this] have C: "in_phase (clients x2) (fst (phase_step DoRun ph))" .
    obtain x3 fs3 m where f: "run_finish marshal write clk (clients x2) fs = (x3, fs3, m)" by (metis prod_cases3)
    have "y = x3" "r = Inr m" using run b None f by (auto simp: Simulator_Run_def x2_def)
    then show ?thesis using run_finish_phase [OF f C] B(2) None by (simp add: outcome_def)
  qed
qed

lemma stop_phase:
  assumes stop: "Simulator_Stop allow pending x = (y, err)" and ph: "in_phase x ph"
  shows "in_phase y (fst (phase_step DoStop ph)) \<and> outcome err = snd (phase_step DoStop ph)"
proof (cases "sim_running (sn_simulator x) \<and> \<not> stopCh_closed (sn_simulator x)")
  case True
  then have p: "ph = Running" using ph by (cases ph) (auto simp: in_phase_def)
  let ?w = "sn_world (with_servers x (stop_servers pending (sim_servers_of x)))"
  obtain cs w where c: "close_clients (Some (simulatorTransport allow)) (sim_clients (sn_simulator x)) ?w = (cs, w)" by fastforce
  have f: "flags (net_servers (wd_tp w)) = flags (stop_servers pending (sim_servers_of x))"
    using close_clients_flags [OF c] by (simp add: with_servers_def)
  have "\<forall>s\<in>set (stop_servers pending (sim_servers_of x)). srv_running s = False"
    by (simp add: stop_servers_def Stop_def)
  then have "\<forall>s\<in>set (net_servers (wd_tp w)). srv_running s = False" "net_servers (wd_tp w) \<noteq> []"
    using flags_running [OF f, of False] ph by (auto simp: in_phase_def stop_servers_def)
  moreover have "sn_world y = w" "sim_running (sn_simulator y) = False" "stopCh_closed (sn_simulator y)" "err = None"
    using stop True c by (auto simp: Simulator_Stop_def update_sim_def with_servers_def)
  ultimately show ?thesis by (simp add: p in_phase_def outcome_def)
next
  case False
  then show ?thesis
    using stop ph by (cases ph) (auto simp: Simulator_Stop_def in_phase_def update_sim_def outcome_def split: if_splits)
qed

lemma add_servers_all:
  "fold (add_server cfg) is (ss, lb, lims) = (ts, lb', lims') \<Longrightarrow> \<forall>s\<in>set ss. P s \<Longrightarrow> (\<And>config. P (NewServer config)) \<Longrightarrow>
    (\<forall>s\<in>set ts. P s) \<and> length ts = length ss + length is"
proof (induction "is" arbitrary: ss lb lims)
  case (Cons i "is")
  obtain ss1 lb1 lims1 where a: "add_server cfg i (ss, lb, lims) = (ss1, lb1, lims1)" by (metis prod_cases3)
  have "(\<forall>s\<in>set ss1. P s) \<and> length ss1 = Suc (length ss)"
    using a Cons.prems(2,3) by (auto simp: add_server_def Let_def split: if_splits)
  then show ?case using Cons.IH [of ss1 lb1 lims1] Cons.prems(1,3) a by simp
qed simp

text \<open>What every simulator is made of.\<close>

lemma new_simulator:
  assumes new: "Simulator_New cfg clk = Inr sim"
  shows "sim_config sim = cfg \<and> \<not> sim_running sim \<and> \<not> stopCh_closed sim \<and> requestCount sim = 0
    \<and> sim_clients sim = map (NewClient \<circ> clientConfig cfg) [0..<nat (cc_Count (Clients cfg))]
    \<and> length (sim_servers sim) = nat (sc_Count (cfg_Servers cfg))
    \<and> (\<forall>s\<in>set (sim_servers sim). \<not> srv_running s \<and> srv_stats s = zero_stats)"
proof -
  obtain lb where b: "New (Algorithm (LoadBalancer cfg)) = Inr lb"
    using new by (auto simp: Simulator_New_def split: sum.splits)
  obtain l0 where l: "(if is_local_cached cfg then Inr []
      else map_sum id (\<lambda>l. [Registered l]) (Create init_registry (limiterConfig cfg))) = Inr l0"
    using new b by (cases "if is_local_cached cfg then Inr []
      else map_sum id (\<lambda>l. [Registered l]) (Create init_registry (limiterConfig cfg))") (auto simp: Simulator_New_def)
  obtain ss lb1 l1 where f: "fold (add_server cfg) [0..<nat (sc_Count (cfg_Servers cfg))] ([], lb, l0) = (ss, lb1, l1)"
    by (metis prod_cases3)
  have "(\<forall>s\<in>set ss. \<not> srv_running s \<and> srv_stats s = zero_stats) \<and> length ss = nat (sc_Count (cfg_Servers cfg))"
    using add_servers_all [OF f, of "\<lambda>s. \<not> srv_running s \<and> srv_stats s = zero_stats"] by (simp add: NewServer_def)
  then show ?thesis using new unfolding Simulator_New_def b sum.case l f Let_def prod.case by auto
qed

lemma new_is_fresh:
  assumes new: "Simulator_New cfg clk = Inr sim" and n: "0 < sc_Count (cfg_Servers cfg)"
  shows "in_phase (launch sim lims clocks) Fresh"
  using new_simulator [OF new] n by (auto simp: in_phase_def launch_def)

lemma life_apply_phase:
  assumes "\<And>x. (clients_step allow)\<^sup>*\<^sup>* x (clients x)" and R: "in_phase (fst xf) ph"
  shows "in_phase (fst (fst (life_apply marshal write allow pending clients a xf))) (fst (phase_step (fst a) ph))
    \<and> snd (life_apply marshal write allow pending clients a xf) = snd (phase_step (fst a) ph)"
proof -
  obtain x fs op clk where xf: "xf = (x, fs)" and a: "a = (op, clk)" by fastforce
  show ?thesis
  proof (cases op)
    case DoRun
    obtain y fs' r where r: "Simulator_Run marshal write clients clk x fs = (y, fs', r)" by (metis prod_cases3)
    show ?thesis using run_phase [OF r _ assms(1)] R by (simp add: life_apply_def xf a DoRun r)
  next
    case DoStop
    obtain y err where s: "Simulator_Stop allow pending x = (y, err)" by fastforce
    show ?thesis using stop_phase [OF s] R by (simp add: life_apply_def xf a DoStop s)
  qed
qed

text \<open>
  C36. The life of a simulator. For every simulator \<^verbatim>\<open>New\<close> makes and every sequence of calls of
  \<^verbatim>\<open>Run\<close> and \<^verbatim>\<open>Stop\<close>, whatever the clients, the reporter and the file system do meanwhile, the
  outcomes are those of the five phases: a run succeeds when the simulator is new or stopped and
  is refused until \<^verbatim>\<open>Stop\<close>, also after it has ended; a stop succeeds; but the stop of a second
  run panics, as \<^verbatim>\<open>stopCh\<close> is closed already, and leaves the servers running, so that the next
  run fails to start them.
\<close>

theorem lifecycle_refines:
  assumes "Simulator_New cfg nclk = Inr sim" and "0 < sc_Count (cfg_Servers cfg)"
    and "\<And>x. (clients_step allow)\<^sup>*\<^sup>* x (clients x)"
  shows "outcomes_of (life_apply marshal write allow pending clients) calls (launch sim lims clocks, fs)
    = outcomes_of phase_step (map fst calls) Fresh"
proof (rule outcomes_simulation [where R = "\<lambda>xf ph. in_phase (fst xf) ph" and h = fst])
  show "in_phase (fst (launch sim lims clocks, fs)) Fresh"
    using new_is_fresh [OF assms(1,2)] by simp
qed (rule life_apply_phase [OF assms(3)])

definition demo_run_clock :: run_clock where
  "demo_run_clock = \<lparr>rn_start = now_at 0 0, rn_bucket = now_at 0 0,
     rn_final = \<lparr>at_elapsed = now_at 0 0, at_now = now_at 0 0, at_timestamp = now_at 0 0\<rparr>, rn_end = now_at 0 0\<rparr>"

theorem lifecycle_refines_witness:
  "\<exists>sim. Simulator_New DefaultConfig \<lparr>nc_remote = now_at 0 0, nc_start = now_at 0 0, nc_bucket = now_at 0 0,
       nc_report = now_at 0 0\<rparr> = Inr sim
    \<and> outcomes_of (life_apply (\<lambda>_. Inr ()) (\<lambda>fs _ _. (fs, None)) demo_allow (\<lambda>_. False) id)
        [(DoRun, demo_run_clock), (DoRun, demo_run_clock), (DoStop, demo_run_clock), (DoRun, demo_run_clock), (DoStop, demo_run_clock), (DoRun, demo_run_clock)]
        (launch sim demo_window (\<lambda>_. demo_handler_clock), ())
      = [Fine, AlreadyRuns, Fine, Fine, Panics, StartFails]"
proof -
  let ?clk = "\<lparr>nc_remote = now_at 0 0, nc_start = now_at 0 0, nc_bucket = now_at 0 0, nc_report = now_at 0 0\<rparr>"
  obtain sim where sim: "Simulator_New DefaultConfig ?clk = Inr sim"
    using valid_config_builds [OF DefaultConfig_valid, of ?clk] by (auto simp: DefaultConfig_def)
  have n: "0 < sc_Count (cfg_Servers DefaultConfig)" by (simp add: DefaultConfig_def)
  show ?thesis
    using sim lifecycle_refines [OF sim n, of demo_allow id "\<lambda>_. Inr ()" "\<lambda>fs _ _. (fs, None)" "\<lambda>_. False"
      "[(DoRun, demo_run_clock), (DoRun, demo_run_clock), (DoStop, demo_run_clock), (DoRun, demo_run_clock), (DoStop, demo_run_clock), (DoRun, demo_run_clock)]"
      demo_window "\<lambda>_. demo_handler_clock" "()"] by (intro exI [of _ sim]) simp
qed

end
