(* ===== verification/Ledger.thy ===== *)
theory Ledger
  imports Lifecycle
begin

text \<open>
  The answers of the servers and what becomes of them: a server counts the requests it handled
  and those it rejected, the client counts what \<^verbatim>\<open>Send\<close> returned, and a worker tells the
  collector. \<open>books\<close> says that the three agree up to the answers that a worker holds and has not
  reported yet; every action of a worker keeps it.
\<close>

section \<open>What the servers have answered\<close>

definition sum_stat :: "(server_stats \<Rightarrow> int64) \<Rightarrow> server list \<Rightarrow> int" where
  "sum_stat f ss = (\<Sum>s\<leftarrow>ss. f (Stats s))"

text \<open>The requests handled and the requests rejected by all servers of the network.\<close>

definition answers :: "'m network \<Rightarrow> int64 \<times> int64" where
  "answers n = (w64 (sum_stat srv_totalRequests (net_servers n)), w64 (sum_stat srv_rateLimitedRequests (net_servers n)))"

definition answer_more :: "bool \<Rightarrow> int64 \<times> int64 \<Rightarrow> int64 \<times> int64" where
  "answer_more limited = (\<lambda>(a, b). (w64 (a + 1), w64 (b + of_bool limited)))"

lemma sum_stat_update:
  "i < length ss \<Longrightarrow> sum_stat f (ss[i := s]) = sum_stat f ss - f (Stats (ss ! i)) + f (Stats s)"
proof (induction ss arbitrary: i)
  case (Cons t ss)
  then show ?case by (cases i) (simp_all add: sum_stat_def)
qed simp

lemma find_server_bound: "find_server serverID ss = Some i \<Longrightarrow> i < length ss"
  by (induction ss arbitrary: i) (auto split: if_splits)

lemma CloseConnection_counts [simp]:
  "srv_totalRequests (Stats (CloseConnection s i)) = srv_totalRequests (Stats s)"
  "srv_rateLimitedRequests (Stats (CloseConnection s i)) = srv_rateLimitedRequests (Stats s)"
  by (simp_all add: CloseConnection_def Stats_def split: option.splits)

lemma HandleRequest_counts:
  assumes h: "HandleRequest allow s m clk i req = (s', m', e, r)"
  shows "(srv_totalRequests (Stats s'), srv_rateLimitedRequests (Stats s')) =
    (case r of
       Inl _ \<Rightarrow> (srv_totalRequests (Stats s), srv_rateLimitedRequests (Stats s))
     | Inr resp \<Rightarrow> (w64 (srv_totalRequests (Stats s) + 1),
         if RateLimited resp then w64 (srv_rateLimitedRequests (Stats s) + 1) else srv_rateLimitedRequests (Stats s)))"
proof (cases "srv_running s")
  case True
  obtain s1 a where g: "getOrCreateConnection (add_total s) (at_create clk) i = (s1, a)" by fastforce
  obtain s2 c where c: "count_on_connection s1 a = (s2, c)" by fastforce
  obtain m2 v where v: "check_limit allow m (at_allow clk) (limited_key s2 req) = (m2, v)" by fastforce
  obtain s3 sl resp where w: "conclude s2 v (new_response req c (at_stamp clk)) = (s3, sl, resp)" by (metis prod_cases3)
  have r: "s' = s3" "r = Inr resp" using h True g c v w by (simp_all add: HandleRequest_def Let_def)
  have "srv_totalRequests (srv_stats s1) = w64 (srv_totalRequests (srv_stats s) + 1)
      \<and> srv_rateLimitedRequests (srv_stats s1) = srv_rateLimitedRequests (srv_stats s)"
    using g by (auto simp: getOrCreateConnection_def add_total_def Let_def split: option.splits)
  moreover have "srv_stats s2 = srv_stats s1"
    using c by (auto simp: count_on_connection_def Let_def)
  moreover have "srv_totalRequests (srv_stats s3) = srv_totalRequests (srv_stats s2)
      \<and> srv_rateLimitedRequests (srv_stats s3) =
        (if RateLimited resp then w64 (srv_rateLimitedRequests (srv_stats s2) + 1) else srv_rateLimitedRequests (srv_stats s2))"
    using w by (auto simp: conclude_def add_limited_def add_success_def remaining_header_def new_response_def Let_def
        split: verdict.splits if_splits)
  ultimately show ?thesis by (simp add: Stats_def r)
next
  case False
  then show ?thesis using h by (auto simp: HandleRequest_def)
qed

interpretation ledger_tp: transport_measure "simulatorTransport allow" answers answer_more for allow
proof unfold_locales
  fix n n' :: "'a network" and serverID connID req resp
  assume "tp_Send (simulatorTransport allow) n serverID connID req = (n', Inr resp)"
  then obtain i s m e where f: "find_server serverID (net_servers n) = Some i"
    and h: "HandleRequest allow (net_servers n ! i) (net_limiters n) (net_clock n (net_tick n)) connID req = (s, m, e, Inr resp)"
    and n': "net_servers n' = (net_servers n)[i := if ShouldClose resp then CloseConnection s connID else s]"
    by (auto simp: simulatorTransport_def transport_Send_def Let_def split: option.splits prod.splits)
  show "answers n' = answer_more (RateLimited resp) (answers n)"
    using HandleRequest_counts [OF h] sum_stat_update [OF find_server_bound [OF f]]
    by (simp add: answers_def answer_more_def n')
next
  fix n n' :: "'a network" and serverID connID req err
  assume "tp_Send (simulatorTransport allow) n serverID connID req = (n', Inl err)"
  then consider "n' = n" | i s m e where "find_server serverID (net_servers n) = Some i"
    "HandleRequest allow (net_servers n ! i) (net_limiters n) (net_clock n (net_tick n)) connID req = (s, m, e, Inl err)"
    "net_servers n' = (net_servers n)[i := s]"
    by (auto simp: simulatorTransport_def transport_Send_def Let_def split: option.splits prod.splits)
  then show "answers n' = answers n"
  proof cases
    case 2
    then show ?thesis
      using HandleRequest_counts [OF 2(2)] sum_stat_update [OF find_server_bound [OF 2(1)]] by (simp add: answers_def)
  qed simp
next
  fix n :: "'a network" and serverID connID
  show "answers (tp_CloseConnection (simulatorTransport allow) n serverID connID) = answers n"
    by (auto simp: simulatorTransport_def transport_CloseConnection_def answers_def sum_stat_update find_server_bound
        split: option.splits)
qed

section \<open>The answers a worker holds\<close>

fun holds_success :: "worker_pc \<Rightarrow> bool" where
  "holds_success (Replied d l (Inr resp)) = (\<not> RateLimited resp)"
| "holds_success _ = False"

fun holds_limited :: "worker_pc \<Rightarrow> bool" where
  "holds_limited (Replied d l (Inr resp)) = RateLimited resp"
| "holds_limited _ = False"

definition answer_is :: "bool \<Rightarrow> error + response \<Rightarrow> bool" where
  "answer_is limited r \<longleftrightarrow> (case r of Inl _ \<Rightarrow> False | Inr resp \<Rightarrow> RateLimited resp = limited)"

lemma holds_replied [simp]:
  "holds_success (Replied d l r) = answer_is False r" "holds_limited (Replied d l r) = answer_is True r"
  by (cases r; simp add: answer_is_def)+

text \<open>
  The books of one client: \<open>s\<close> successes and \<open>l\<close> rejections are reported or held; \<open>a\<close>, \<open>b\<close>, \<open>c\<close> and
  \<open>d\<close> stand for the other clients and the past.
\<close>

definition books :: "int \<Rightarrow> int \<Rightarrow> int \<Rightarrow> int \<Rightarrow> 'm network worker_sys \<Rightarrow> bool" where
  "books a b c d x \<longleftrightarrow>
     (let s = col_successfulRequests (wk_metrics x) + count_threads holds_success (wk_pcs x);
          l = col_rateLimitedRequests (wk_metrics x) + count_threads holds_limited (wk_pcs x)
      in answers (wd_tp (wk_world x)) = (w64 (a + (s + l)), w64 (b + l))
         \<and> cs_successfulRequests (cl_stats (wk_client x)) = w64 (c + s)
         \<and> cs_rateLimitedRequests (cl_stats (wk_client x)) = w64 (d + l))"

text \<open>The collector's own sum.\<close>

definition tallied :: "collector \<Rightarrow> bool" where
  "tallied m \<longleftrightarrow> w64 (col_successfulRequests m) = col_successfulRequests m
     \<and> w64 (col_rateLimitedRequests m) = col_rateLimitedRequests m
     \<and> col_totalRequests m = w64 (col_successfulRequests m + col_rateLimitedRequests m + col_failedRequests m)"

text \<open>
  One action moves one worker; it earns the client an answer, or reports one it holds, or neither.
\<close>

lemma w64_swap:
  assumes "x = w64 (a + u)" and "y = w64 (x + e)" and "v = u + e"
  shows "y = w64 (a + v)"
  using assms by (simp add: add.assoc)

lemma w64_two: "w64 (a + ((w64 x + y) + (w64 u + v))) = w64 (a + ((x + y) + (u + v)))"
proof -
  have "a + ((w64 x + y) + (w64 u + v)) = w64 x + (w64 u + (a + (y + v)))" by simp
  moreover have "a + ((x + y) + (u + v)) = x + (u + (a + (y + v)))" by simp
  ultimately show ?thesis by (simp only: w64_add_left w64_add_mid)
qed

lemma books_move:
  assumes b: "books a b c d x" and fin: "finite (dom (wk_pcs x))" and i: "wk_pcs x i = Some old"
    and y: "wk_pcs y = (wk_pcs x)(i \<mapsto> new)" and t: "tallied (wk_metrics x)"
    and ans: "answers (wd_tp (wk_world y)) = (w64 (fst (answers (wd_tp (wk_world x))) + (of_bool S + of_bool L)),
        w64 (snd (answers (wd_tp (wk_world x))) + of_bool L))"
    and cl: "cs_successfulRequests (cl_stats (wk_client y)) = w64 (cs_successfulRequests (cl_stats (wk_client x)) + of_bool S)"
      "cs_rateLimitedRequests (cl_stats (wk_client y)) = w64 (cs_rateLimitedRequests (cl_stats (wk_client x)) + of_bool L)"
    and col: "col_successfulRequests (wk_metrics y) = w64 (col_successfulRequests (wk_metrics x) + of_bool S')"
      "col_rateLimitedRequests (wk_metrics y) = w64 (col_rateLimitedRequests (wk_metrics x) + of_bool L')"
    and bal: "of_bool (holds_success new) + of_bool S' = (of_bool (holds_success old) + of_bool S :: int)"
      "of_bool (holds_limited new) + of_bool L' = (of_bool (holds_limited old) + of_bool L :: int)"
  shows "books a b c d y"
proof -
  define s where "s = col_successfulRequests (wk_metrics x) + count_threads holds_success (wk_pcs x)"
  define l where "l = col_rateLimitedRequests (wk_metrics x) + count_threads holds_limited (wk_pcs x)"
  have u: "count_threads P (wk_pcs y) = count_threads P (wk_pcs x) + of_bool (P new) - of_bool (P old)" for P
    unfolding y count_threads_upd [OF fin] by (simp add: i)
  define s' where "s' = col_successfulRequests (wk_metrics x) + of_bool S' + count_threads holds_success (wk_pcs y)"
  define l' where "l' = col_rateLimitedRequests (wk_metrics x) + of_bool L' + count_threads holds_limited (wk_pcs y)"
  have S: "s' = s + of_bool S" and L: "l' = l + of_bool L" using bal unfolding s_def l_def s'_def l'_def u by simp_all
  have x: "fst (answers (wd_tp (wk_world x))) = w64 (a + (s + l))" "snd (answers (wd_tp (wk_world x))) = w64 (b + l)"
    "cs_successfulRequests (cl_stats (wk_client x)) = w64 (c + s)"
    "cs_rateLimitedRequests (cl_stats (wk_client x)) = w64 (d + l)"
    using b by (simp_all add: books_def Let_def s_def l_def)
  have "fst (answers (wd_tp (wk_world y))) = w64 (a + (s' + l'))"
    by (rule w64_swap [OF x(1)]) (simp_all add: ans S L)
  moreover have "snd (answers (wd_tp (wk_world y))) = w64 (b + l')"
    by (rule w64_swap [OF x(2)]) (simp_all add: ans L)
  moreover have "cs_successfulRequests (cl_stats (wk_client y)) = w64 (c + s')"
    by (rule w64_swap [OF x(3) cl(1) S])
  moreover have "cs_rateLimitedRequests (cl_stats (wk_client y)) = w64 (d + l')"
    by (rule w64_swap [OF x(4) cl(2) L])
  moreover have n: "w64 (e + s') = w64 (e + (col_successfulRequests (wk_metrics y) + count_threads holds_success (wk_pcs y)))"
    "w64 (e + l') = w64 (e + (col_rateLimitedRequests (wk_metrics y) + count_threads holds_limited (wk_pcs y)))" for e
    unfolding col s'_def l'_def by (simp_all add: add.assoc)
  moreover have "w64 (a + (s' + l')) = w64 (a + ((col_successfulRequests (wk_metrics y) + count_threads holds_success (wk_pcs y))
      + (col_rateLimitedRequests (wk_metrics y) + count_threads holds_limited (wk_pcs y))))"
    unfolding col s'_def l'_def w64_two by simp
  ultimately show ?thesis by (simp add: books_def Let_def prod_eq_iff)
qed

lemma record_reply_counts:
  "col_successfulRequests (record_reply m now clientID latency r)
     = (if answer_is False r then w64 (col_successfulRequests m + 1) else col_successfulRequests m)"
  "col_rateLimitedRequests (record_reply m now clientID latency r)
     = (if answer_is True r then w64 (col_rateLimitedRequests m + 1) else col_rateLimitedRequests m)"
  "col_failedRequests (record_reply m now clientID latency r)
     = (if isl r then w64 (col_failedRequests m + 1) else col_failedRequests m)"
  by (auto simp: record_reply_def answer_is_def RecordFailedRequest_def RecordRequest_def bucket_for_def rotateBucket_def
      update_bucket_def Let_def split: sum.splits)

lemma record_reply_tallied: "tallied m \<Longrightarrow> tallied (record_reply m now clientID latency r)"
  by (cases r) (auto simp: tallied_def record_reply_counts answer_is_def ac_simps)

lemma worker_step_tallied: "worker_step ops p dl x y \<Longrightarrow> tallied (wk_metrics x) \<Longrightarrow> tallied (wk_metrics y)"
  by (cases rule: worker_step.cases) (auto simp: goto_def leave_def record_reply_tallied)

lemma answers_normal [simp]: "w64 (fst (answers n)) = fst (answers n)" "w64 (snd (answers n)) = snd (answers n)"
  by (simp_all add: answers_def)

lemma books_normal:
  assumes "books a b c d x"
  shows "w64 (cs_successfulRequests (cl_stats (wk_client x))) = cs_successfulRequests (cl_stats (wk_client x))"
    and "w64 (cs_rateLimitedRequests (cl_stats (wk_client x))) = cs_rateLimitedRequests (cl_stats (wk_client x))"
  using assms by (simp_all add: books_def Let_def)

text \<open>An action that neither earns nor reports an answer.\<close>

lemma books_same:
  assumes b: "books a b c d x" and fin: "finite (dom (wk_pcs x))" and i: "wk_pcs x i = Some old"
    and y: "wk_pcs y = (wk_pcs x)(i \<mapsto> new)" and t: "tallied (wk_metrics x)"
    and ans: "answers (wd_tp (wk_world y)) = answers (wd_tp (wk_world x))"
    and cl: "outcomes (wk_client y) = outcomes (wk_client x)" and col: "wk_metrics y = wk_metrics x"
    and none: "\<not> holds_success old" "\<not> holds_limited old" "\<not> holds_success new" "\<not> holds_limited new"
  shows "books a b c d y"
  by (rule books_move [OF b fin i y t, where S = False and L = False and S' = False and L' = False])
    (use ans cl col none t books_normal [OF b] in \<open>simp_all add: outcomes_def tallied_def\<close>)

lemma worker_step_books:
  assumes step: "worker_step (Some (simulatorTransport allow)) p dl x y" and b: "books a b c d x"
    and fin: "finite (dom (wk_pcs x))" and t: "tallied (wk_metrics x)"
  shows "books a b c d y"
proof -
  note same = books_same [OF b fin _ _ t] and n = books_normal [OF b]
  have left: "answers (wd_tp (close_dedicated (Some (simulatorTransport allow)) w d)) = answers (wd_tp w)" for w d
    by (auto simp: close_dedicated_def ledger_tp.rest.closed split: option.splits)
  have opened: "answers (wd_tp w') = answers (wd_tp w) \<and> outcomes c' = outcomes c"
    if "CreateDedicatedConnection c w k now = (c', w', r)" for c w k now c' w' r
    using ledger_tp.rest.opened [OF that [unfolded CreateDedicatedConnection_def] refl]
      open_outcomes [OF that [unfolded CreateDedicatedConnection_def]] by simp
  show ?thesis
    using step
  proof (cases rule: worker_step.cases)
    case (send i da n acquired clk now c1 w r latency)
    note o = send_outcomes [OF send(5)] and f = ledger_tp.client_send [OF send(5)]
    have k: "cs_successfulRequests (cl_stats c1) = w64 (cs_successfulRequests (cl_stats (wk_client x)) + of_bool (answer_is False r))"
      "cs_rateLimitedRequests (cl_stats c1) = w64 (cs_rateLimitedRequests (cl_stats (wk_client x)) + of_bool (answer_is True r))"
      using o n by (cases r; auto simp: outcomes_def answer_is_def split: if_splits)+
    have g: "answers (wd_tp w) = (w64 (fst (answers (wd_tp (wk_world x))) + (of_bool (answer_is False r) + of_bool (answer_is True r))),
        w64 (snd (answers (wd_tp (wk_world x))) + of_bool (answer_is True r)))"
      using f by (cases r) (auto simp: answer_is_def answer_more_def case_prod_beta prod_eq_iff)
    show ?thesis
      by (rule books_move [OF b fin send(2) _ t, where S = "answer_is False r" and L = "answer_is True r" and S' = False and L' = False])
        (use send g k t in \<open>auto simp: goto_def tallied_def\<close>)
  next
    case (note_reply i da latency r m now)
    show ?thesis
      by (rule books_move [OF b fin note_reply(2) _ t, where S = False and L = False and S' = "answer_is False r" and L' = "answer_is True r"])
        (use note_reply n t in \<open>auto simp: goto_def record_reply_counts tallied_def split: if_splits\<close>)
  next
    case (go_on i da now n)
    show ?thesis by (rule same [OF go_on(2), where new = "Claimed da"])
      (use go_on in \<open>auto simp: goto_def leave_def left\<close>)
  next
    case (finish i da now n)
    show ?thesis by (rule same [OF finish(2), where new = "Gone"])
      (use finish in \<open>auto simp: goto_def leave_def left\<close>)
  next
    case (proceed i da)
    show ?thesis by (rule same [OF proceed(2), where new = "Throttled da"])
      (use proceed in \<open>auto simp: goto_def leave_def left\<close>)
  next
    case (give_up i da)
    show ?thesis by (rule same [OF give_up(2), where new = "Gone"])
      (use give_up in \<open>auto simp: goto_def leave_def left\<close>)
  next
    case (token i da now rl)
    show ?thesis by (rule same [OF token(2), where new = "Sending da"])
      (use token in \<open>auto simp: goto_def leave_def left\<close>)
  next
    case (no_token i da now rl)
    show ?thesis by (rule same [OF no_token(2), where new = "Throttled da"])
      (use no_token in \<open>auto simp: goto_def leave_def left\<close>)
  next
    case (stop_waiting i da now rl)
    show ?thesis by (rule same [OF stop_waiting(2), where new = "Gone"])
      (use stop_waiting in \<open>auto simp: goto_def leave_def left\<close>)
  next
    case (begin_shared i)
    show ?thesis by (rule same [OF begin_shared(2), where new = "Top None"])
      (use begin_shared in \<open>auto simp: goto_def leave_def left\<close>)
  next
    case (begin_dedicated i k now c w r)
    show ?thesis by (rule same [OF begin_dedicated(2), where new = "Top (case r of Inr a \<Rightarrow> Some a | Inl _ \<Rightarrow> None)"])
      (use begin_dedicated opened [OF begin_dedicated(4)] in \<open>auto simp: goto_def leave_def left\<close>)
  next
    case (replace i failed da k now c w r)
    show ?thesis by (rule same [OF replace(2), where new = "Top (replaced failed da r)"])
      (use replace opened [OF replace(3)] in \<open>auto simp: goto_def leave_def left\<close>)
  next
    case cancel
    then show ?thesis using b by (simp add: books_def)
  qed
qed

end
