(* ===== verification/Fleet.thy ===== *)
theory Fleet
  imports Ledger
begin

text \<open>
  All clients of a run at once: \<^verbatim>\<open>Run\<close> starts \<^verbatim>\<open>runClient\<close> for every client, each with its own
  workers, request counter and limiter; they share the servers, the connections, the collector
  and the simulator's request number. A step is an action of one worker of one client, or a
  record in the collector by a server or a limiter.

  Shown: the run of the fleet is one of the behaviours the life cycle allows between the start
  and the end of \<^verbatim>\<open>Run\<close>; every step keeps the books between the collector, the clients and the
  servers and the count of the work, which are closed when all workers are gone; and how the final
  result of \<^verbatim>\<open>Run\<close> is read off them (used in \<open>Crews\<close>, where the calls are opened up).
\<close>

section \<open>State and steps\<close>

record group =
  gr_client :: client
  gr_limiter :: "token_bucket option"
  gr_counter :: int64
  gr_deadline :: gotime
  gr_pcs :: "nat \<rightharpoonup> worker_pc"

record 'm fleet =
  fl_world :: "'m network world"
  fl_metrics :: collector
  fl_sent :: int64
  fl_cancelled :: bool
  fl_groups :: "group list"

text \<open>\<^verbatim>\<open>runClient\<close>; it returns without a worker when the limiter cannot be created.\<close>

definition runClient :: "worker_params \<Rightarrow> gotime \<Rightarrow> client \<Rightarrow> group" where
  "runClient p now c =
     (let g = \<lparr>gr_client = c, gr_limiter = None, gr_counter = 0, gr_deadline = client_deadline p now, gr_pcs = Map.empty\<rparr>
      in case client_limiter p of
           Inl err \<Rightarrow> g
         | Inr rl \<Rightarrow> g\<lparr>gr_limiter := rl,
             gr_pcs := (\<lambda>i. if int i < wp_maxConcurrency p then Some Starting else None)\<rparr>)"

text \<open>The loop of \<^verbatim>\<open>Run\<close> that starts the clients; \<open>nows i\<close> is the clock in the \<open>i\<close>-th.\<close>

definition startClients :: "(nat \<Rightarrow> gotime) \<Rightarrow> 'm simulation \<Rightarrow> 'm fleet" where
  "startClients nows x =
     (let s = sn_simulator x
      in \<lparr>fl_world = sn_world x, fl_metrics = sim_metrics s, fl_sent = requestCount s, fl_cancelled = False,
          fl_groups = map (\<lambda>i. runClient (worker_params (sim_config s)) (nows i) (sim_clients s ! i)) [0..<length (sim_clients s)]\<rparr>)"

text \<open>After \<^verbatim>\<open>wg.Wait\<close>: the simulation as the clients have left it.\<close>

definition joinClients :: "'m fleet \<Rightarrow> 'm simulation \<Rightarrow> 'm simulation" where
  "joinClients f x =
     update_sim (\<lambda>s. s\<lparr>sim_metrics := fl_metrics f, requestCount := fl_sent f, sim_clients := map gr_client (fl_groups f)\<rparr>)
       (x\<lparr>sn_world := fl_world f\<rparr>)"

text \<open>The fleet as the workers of one client see it, and what they leave.\<close>

definition view_client :: "'m fleet \<Rightarrow> nat \<Rightarrow> 'm network worker_sys" where
  "view_client f i =
     (let g = fl_groups f ! i
      in \<lparr>wk_client = gr_client g, wk_world = fl_world f, wk_metrics = fl_metrics f, wk_limiter = gr_limiter g,
          requestCounter = gr_counter g, wk_requestCount = fl_sent f, wk_cancelled = fl_cancelled f, wk_pcs = gr_pcs g\<rparr>)"

definition update_client :: "nat \<Rightarrow> 'm network worker_sys \<Rightarrow> 'm fleet \<Rightarrow> 'm fleet" where
  "update_client i ws f =
     \<lparr>fl_world = wk_world ws, fl_metrics = wk_metrics ws, fl_sent = wk_requestCount ws, fl_cancelled = wk_cancelled ws,
      fl_groups = (fl_groups f)[i := (fl_groups f ! i)\<lparr>gr_client := wk_client ws, gr_limiter := wk_limiter ws,
        gr_counter := requestCounter ws, gr_pcs := wk_pcs ws\<rparr>]\<rparr>"

inductive fleet_step :: "'m allow \<Rightarrow> worker_params \<Rightarrow> 'm fleet \<Rightarrow> 'm fleet \<Rightarrow> bool" for allow p where
  work: "i < length (fl_groups f) \<Longrightarrow>
    worker_step (Some (simulatorTransport allow)) p (gr_deadline (fl_groups f ! i)) (view_client f i) ws \<Longrightarrow>
    fleet_step allow p f (update_client i ws f)"
| observe: "other_record op \<Longrightarrow> fleet_step allow p f (f\<lparr>fl_metrics := metric_apply op (fl_metrics f)\<rparr>)"

definition fleet_run :: "'m allow \<Rightarrow> worker_params \<Rightarrow> 'm fleet \<Rightarrow> 'm fleet \<Rightarrow> bool" where
  "fleet_run allow p = (fleet_step allow p)\<^sup>*\<^sup>*"

definition all_left :: "'m fleet \<Rightarrow> bool" where
  "all_left f \<longleftrightarrow> (\<forall>g\<in>set (fl_groups f). \<forall>pc\<in>ran (gr_pcs g). pc = Gone)"

lemma view_sel [simp]:
  "wk_client (view_client f i) = gr_client (fl_groups f ! i)" "wk_world (view_client f i) = fl_world f"
  "wk_metrics (view_client f i) = fl_metrics f" "wk_requestCount (view_client f i) = fl_sent f"
  "wk_cancelled (view_client f i) = fl_cancelled f" "wk_pcs (view_client f i) = gr_pcs (fl_groups f ! i)"
  "requestCounter (view_client f i) = gr_counter (fl_groups f ! i)"
  by (simp_all add: view_client_def Let_def)

lemma update_sel [simp]:
  "fl_world (update_client i ws f) = wk_world ws" "fl_metrics (update_client i ws f) = wk_metrics ws"
  "fl_sent (update_client i ws f) = wk_requestCount ws" "fl_cancelled (update_client i ws f) = wk_cancelled ws"
  "length (fl_groups (update_client i ws f)) = length (fl_groups f)"
  by (simp_all add: update_client_def)

lemma view_update_same:
  "i < length (fl_groups f) \<Longrightarrow> view_client (update_client i ws f) i = ws"
  by (simp add: view_client_def update_client_def)

lemma groups_update:
  assumes "\<forall>g\<in>set (fl_groups f). Q g"
    and "Q ((fl_groups f ! i)\<lparr>gr_client := wk_client ws, gr_limiter := wk_limiter ws, gr_counter := requestCounter ws,
      gr_pcs := wk_pcs ws\<rparr>)"
  shows "\<forall>g\<in>set (fl_groups (update_client i ws f)). Q g"
  using assms set_update_subset_insert [of "fl_groups f" i] unfolding update_client_def by auto

section \<open>The fleet is a behaviour of the clients\<close>

lemma join_start: "joinClients (startClients nows x) x = x"
proof -
  have "gr_client (runClient p now c) = c" for p now c by (simp add: runClient_def Let_def split: sum.splits)
  then have "map gr_client (fl_groups (startClients nows x)) = sim_clients (sn_simulator x)"
    by (simp add: startClients_def Let_def comp_def map_nth)
  then show ?thesis by (simp add: joinClients_def update_sim_def) (simp add: startClients_def Let_def)
qed

lemma fleet_step_clients:
  assumes "fleet_step allow p f f'"
  shows "clients_step allow (joinClients f x) (joinClients f' x)"
  using assms
proof (cases rule: fleet_step.cases)
  case (work i ws)
  have "clients_step allow (joinClients f x)
      (update_sim (\<lambda>s. s\<lparr>sim_metrics := wk_metrics ws, requestCount := wk_requestCount ws,
        sim_clients := (sim_clients s)[i := wk_client ws]\<rparr>) (joinClients f x\<lparr>sn_world := wk_world ws\<rparr>))"
    by (rule clients_step.work [OF work(3)]) (use work(2) in \<open>simp_all add: joinClients_def update_sim_def\<close>)
  moreover have "update_sim (\<lambda>s. s\<lparr>sim_metrics := wk_metrics ws, requestCount := wk_requestCount ws,
        sim_clients := (sim_clients s)[i := wk_client ws]\<rparr>) (joinClients f x\<lparr>sn_world := wk_world ws\<rparr>)
      = joinClients f' x"
    using work(1) by (simp add: joinClients_def update_sim_def update_client_def map_update)
  ultimately show ?thesis by simp
next
  case (observe op)
  have "clients_step allow (joinClients f x)
      (update_sim (\<lambda>s. s\<lparr>sim_metrics := metric_apply op (sim_metrics s)\<rparr>) (joinClients f x))"
    using observe(2) by (rule clients_step.observe)
  moreover have "update_sim (\<lambda>s. s\<lparr>sim_metrics := metric_apply op (sim_metrics s)\<rparr>) (joinClients f x) = joinClients f' x"
    unfolding observe(1) joinClients_def update_sim_def by (intro simulation.equality simulator.equality) simp_all
  ultimately show ?thesis by simp
qed

lemma fleet_run_clients:
  assumes "fleet_run allow p (startClients nows x) f"
  shows "(clients_step allow)\<^sup>*\<^sup>* x (joinClients f x)"
  using assms unfolding fleet_run_def
proof (induction rule: rtranclp_induct)
  case base
  then show ?case by (simp add: join_start)
next
  case (step f g)
  then show ?case by (auto intro: rtranclp.rtrancl_into_rtrancl dest: fleet_step_clients)
qed

section \<open>The books of the fleet\<close>

definition held :: "(worker_pc \<Rightarrow> bool) \<Rightarrow> 'm fleet \<Rightarrow> int" where
  "held P f = (\<Sum>g\<leftarrow>fl_groups f. count_threads P (gr_pcs g))"

definition sum_clients :: "(client_stats \<Rightarrow> int64) \<Rightarrow> 'm fleet \<Rightarrow> int" where
  "sum_clients h f = (\<Sum>g\<leftarrow>fl_groups f. h (cl_stats (gr_client g)))"

lemma sum_update:
  "i < length xs \<Longrightarrow> (\<Sum>x\<leftarrow>xs[i := y]. h x) = (\<Sum>x\<leftarrow>xs. h x) - h (xs ! i) + (h y :: int)"
proof (induction xs arbitrary: i)
  case (Cons x xs)
  then show ?case by (cases i) simp_all
qed simp

lemma held_update:
  "i < length (fl_groups f) \<Longrightarrow> held P (update_client i ws f)
    = held P f - count_threads P (gr_pcs (fl_groups f ! i)) + count_threads P (wk_pcs ws)"
  by (simp add: held_def update_client_def sum_update)

lemma sum_clients_update:
  "i < length (fl_groups f) \<Longrightarrow> sum_clients h (update_client i ws f)
    = sum_clients h f - h (cl_stats (gr_client (fl_groups f ! i))) + h (cl_stats (wk_client ws))"
  by (simp add: sum_clients_def update_client_def sum_update)

text \<open>
  What the servers answered and the clients counted, all together, is what the collector was
  told and what the workers still hold.
\<close>

definition fleet_books :: "'m fleet \<Rightarrow> bool" where
  "fleet_books f \<longleftrightarrow> tallied (fl_metrics f) \<and> (\<forall>g\<in>set (fl_groups f). finite (dom (gr_pcs g)))
     \<and> (\<forall>g\<in>set (fl_groups f). w64 (cs_successfulRequests (cl_stats (gr_client g))) = cs_successfulRequests (cl_stats (gr_client g))
          \<and> w64 (cs_rateLimitedRequests (cl_stats (gr_client g))) = cs_rateLimitedRequests (cl_stats (gr_client g)))
     \<and> (let s = col_successfulRequests (fl_metrics f) + held holds_success f;
            l = col_rateLimitedRequests (fl_metrics f) + held holds_limited f
        in answers (wd_tp (fl_world f)) = (w64 (s + l), w64 l)
           \<and> w64 (sum_clients cs_successfulRequests f) = w64 s
           \<and> w64 (sum_clients cs_rateLimitedRequests f) = w64 l)"

text \<open>A change of the part that is \<open>x\<close> in the sum and \<open>u\<close> in the books.\<close>

lemma w64_part:
  assumes "w64 sm = w64 bk" and "y = w64 (x - u + v)"
  shows "w64 (sm - x + y) = w64 (bk - u + v)"
proof -
  have "w64 (sm - x + y) = w64 (sm - x + (x - u + v))" unfolding assms(2) by (rule w64_add_right)
  also have "\<dots> = w64 (w64 sm + (v - u))" by simp
  also have "\<dots> = w64 (bk + (v - u))" unfolding assms(1) by (rule w64_add_left)
  also have "\<dots> = w64 (bk - u + v)" by (simp add: algebra_simps)
  finally show ?thesis .
qed

lemma other_frame:
  "other_record op \<Longrightarrow> col_totalRequests (metric_apply op c) = col_totalRequests c
    \<and> col_successfulRequests (metric_apply op c) = col_successfulRequests c
    \<and> col_rateLimitedRequests (metric_apply op c) = col_rateLimitedRequests c
    \<and> col_failedRequests (metric_apply op c) = col_failedRequests c"
  by (cases op) (auto simp: Collector_RecordRateLimitCheck_def Collector_RecordRemoteTokenFetch_def
      Collector_RecordTokenFetchWait_def RecordConnection_def bucket_for_def rotateBucket_def Let_def)

lemma worker_step_finite: "worker_step ops p dl x y \<Longrightarrow> finite (dom (wk_pcs x)) \<Longrightarrow> finite (dom (wk_pcs y))"
  by (cases rule: worker_step.cases) (auto simp: goto_def leave_def)

text \<open>A change by the workers of one client that keeps that client's books keeps the fleet's.\<close>

lemma fleet_books_update:
  assumes inv: "fleet_books f" and i: "i < length (fl_groups f)"
    and keeps: "\<And>a b c d. books a b c d (view_client f i) \<Longrightarrow> tallied (fl_metrics f) \<Longrightarrow>
      finite (dom (gr_pcs (fl_groups f ! i))) \<Longrightarrow> books a b c d ws"
    and tallied: "tallied (fl_metrics f) \<Longrightarrow> tallied (wk_metrics ws)"
    and finite: "finite (dom (gr_pcs (fl_groups f ! i))) \<Longrightarrow> finite (dom (wk_pcs ws))"
  shows "fleet_books (update_client i ws f)"
proof -
  let ?g = "fl_groups f ! i" and ?v = "view_client f i"
  have g: "?g \<in> set (fl_groups f)" using i by simp
  define hs where "hs = count_threads holds_success (gr_pcs ?g)"
  define hl where "hl = count_threads holds_limited (gr_pcs ?g)"
  define S where "S = col_successfulRequests (fl_metrics f) + held holds_success f"
  define L where "L = col_rateLimitedRequests (fl_metrics f) + held holds_limited f"
  define s where "s = col_successfulRequests (fl_metrics f) + hs"
  define l where "l = col_rateLimitedRequests (fl_metrics f) + hl"
  define s' where "s' = col_successfulRequests (wk_metrics ws) + count_threads holds_success (wk_pcs ws)"
  define l' where "l' = col_rateLimitedRequests (wk_metrics ws) + count_threads holds_limited (wk_pcs ws)"
  have I: "tallied (fl_metrics f)" "answers (wd_tp (fl_world f)) = (w64 (S + L), w64 L)"
    "w64 (sum_clients cs_successfulRequests f) = w64 S" "w64 (sum_clients cs_rateLimitedRequests f) = w64 L"
    "w64 (cs_successfulRequests (cl_stats (gr_client ?g))) = cs_successfulRequests (cl_stats (gr_client ?g))"
    "w64 (cs_rateLimitedRequests (cl_stats (gr_client ?g))) = cs_rateLimitedRequests (cl_stats (gr_client ?g))"
    "finite (dom (gr_pcs ?g))"
    using inv g unfolding fleet_books_def Let_def S_def L_def by auto
  have "books (S + L - s - l) (L - l) (cs_successfulRequests (cl_stats (gr_client ?g)) - s)
      (cs_rateLimitedRequests (cl_stats (gr_client ?g)) - l) ?v"
    using I by (simp add: books_def Let_def s_def l_def hs_def hl_def)
  from keeps [OF this I(1,7)]
  have b: "books (S + L - s - l) (L - l) (cs_successfulRequests (cl_stats (gr_client ?g)) - s)
      (cs_rateLimitedRequests (cl_stats (gr_client ?g)) - l) ws" .
  then have B: "answers (wd_tp (wk_world ws)) = (w64 ((S - s + s') + (L - l + l')), w64 (L - l + l'))"
    "cs_successfulRequests (cl_stats (wk_client ws)) = w64 (cs_successfulRequests (cl_stats (gr_client ?g)) - s + s')"
    "cs_rateLimitedRequests (cl_stats (wk_client ws)) = w64 (cs_rateLimitedRequests (cl_stats (gr_client ?g)) - l + l')"
    by (simp_all add: books_def Let_def s'_def l'_def algebra_simps)
  have H: "col_successfulRequests (wk_metrics ws) + held holds_success (update_client i ws f) = S - s + s'"
    "col_rateLimitedRequests (wk_metrics ws) + held holds_limited (update_client i ws f) = L - l + l'"
    using i by (simp_all add: held_update S_def L_def s_def l_def s'_def l'_def hs_def hl_def)
  have C: "w64 (sum_clients cs_successfulRequests (update_client i ws f)) = w64 (S - s + s')"
    "w64 (sum_clients cs_rateLimitedRequests (update_client i ws f)) = w64 (L - l + l')"
    unfolding sum_clients_update [OF i] by (rule w64_part [OF I(3) B(2)], rule w64_part [OF I(4) B(3)])
  have T: "tallied (wk_metrics ws)" using tallied [OF I(1)] .
  have F: "finite (dom (wk_pcs ws))" using finite [OF I(7)] .
  show ?thesis
    unfolding fleet_books_def Let_def
    using T B(1) H C books_normal [OF b] F inv unfolding fleet_books_def
    by (intro conjI groups_update) auto
qed

lemma fleet_books_observe:
  assumes "fleet_books f" and "other_record op"
  shows "fleet_books (f\<lparr>fl_metrics := metric_apply op (fl_metrics f)\<rparr>)"
  using assms(1) other_frame [OF assms(2), of "fl_metrics f"]
  by (simp add: fleet_books_def tallied_def held_def sum_clients_def)

lemma fleet_step_books:
  assumes "fleet_step allow p f f'" and "fleet_books f"
  shows "fleet_books f'"
  using assms(1)
proof (cases rule: fleet_step.cases)
  case (work i ws)
  show ?thesis
    unfolding work(1)
    by (rule fleet_books_update [OF assms(2) work(2)])
      (use worker_step_books [OF work(3)] worker_step_tallied [OF work(3)] worker_step_finite [OF work(3)] in simp_all)
next
  case (observe op)
  then show ?thesis using fleet_books_observe [OF assms(2)] by simp
qed

section \<open>Every configured request is sent\<close>

text \<open>\<open>K i\<close> requests of client \<open>i\<close> are recorded; the collector has been told of all of them.\<close>

definition fleet_counts :: "worker_params \<Rightarrow> 'm fleet \<Rightarrow> bool" where
  "fleet_counts p f \<longleftrightarrow> (\<exists>K. (\<forall>i<length (fl_groups f). workers_at p (K i) (view_client f i))
     \<and> col_totalRequests (fl_metrics f) = w64 (\<Sum>i<length (fl_groups f). K i)
     \<and> fl_sent f = w64 ((\<Sum>i<length (fl_groups f). K i) + held is_replied f))"

lemma workers_at_cong:
  "workers_at p k x \<Longrightarrow> wk_pcs y = wk_pcs x \<Longrightarrow> requestCounter y = requestCounter x \<Longrightarrow>
    (wk_cancelled x \<longrightarrow> wk_cancelled y) \<Longrightarrow> workers_at p k y"
  by (auto simp: workers_at_def)

lemma worker_step_cancelled: "worker_step ops p dl x y \<Longrightarrow> wk_cancelled x \<Longrightarrow> wk_cancelled y"
  by (erule worker_step.cases) (auto simp: goto_def leave_def)

lemma view_update_other:
  "j \<noteq> i \<Longrightarrow> gr_pcs (fl_groups (update_client i ws f) ! j) = gr_pcs (fl_groups f ! j)
    \<and> gr_counter (fl_groups (update_client i ws f) ! j) = gr_counter (fl_groups f ! j)"
  by (simp add: update_client_def)

lemma sum_fun_upd:
  fixes n :: nat
  assumes "i < n"
  shows "(\<Sum>j<n. (K(i := v)) j) = (\<Sum>j<n. K j) - K i + (v :: int)"
proof -
  have i: "i \<in> {..<n}" using assms by simp
  have "(\<Sum>j\<in>{..<n} - {i}. (K(i := v)) j) = (\<Sum>j\<in>{..<n} - {i}. K j)" by (rule sum.cong) auto
  then show ?thesis
    using sum.remove [OF _ i, of K] sum.remove [OF _ i, of "K(i := v)"] by simp
qed

lemma fleet_counts_update:
  assumes inv: "fleet_counts p f" and i: "i < length (fl_groups f)"
    and moved: "\<And>k. workers_at p k (view_client f i) \<Longrightarrow> w64 (col_totalRequests (fl_metrics f)) = col_totalRequests (fl_metrics f) \<Longrightarrow>
      w64 (fl_sent f) = fl_sent f \<Longrightarrow> \<exists>recorded sent. workers_moved p k (view_client f i) ws recorded sent"
    and cancelled: "fl_cancelled f \<Longrightarrow> wk_cancelled ws"
  shows "fleet_counts p (update_client i ws f)"
proof -
  let ?n = "length (fl_groups f)" and ?f = "update_client i ws f"
  obtain K where K: "\<forall>i<?n. workers_at p (K i) (view_client f i)" "col_totalRequests (fl_metrics f) = w64 (\<Sum>i<?n. K i)"
    "fl_sent f = w64 ((\<Sum>i<?n. K i) + held is_replied f)"
    using inv unfolding fleet_counts_def by blast
  obtain recorded sent where m: "workers_moved p (K i) (view_client f i) ws recorded sent"
    using moved [OF K(1) [rule_format, OF i]] K(2,3) by auto
  let ?K = "K(i := K i + of_bool recorded)"
  have "workers_at p (?K j) (view_client ?f j)" if "j < ?n" for j
  proof (cases "j = i")
    case True
    then show ?thesis using m view_update_same [OF i, of ws] by (simp add: workers_moved_def)
  next
    case False
    then show ?thesis
      using K(1) that view_update_other [OF False, of ws f] cancelled
      by (auto intro: workers_at_cong [of p "K j" "view_client f j"])
  qed
  moreover have "col_totalRequests (fl_metrics ?f) = w64 (\<Sum>j<?n. ?K j)"
    unfolding sum_fun_upd [OF i] using m K(2) by (simp add: workers_moved_def)
  moreover have "fl_sent ?f = w64 ((\<Sum>j<?n. ?K j) + held is_replied ?f)"
  proof -
    have "(\<Sum>j<?n. ?K j) + held is_replied ?f = (\<Sum>j<?n. K j) + held is_replied f + of_bool sent"
      unfolding sum_fun_upd [OF i] held_update [OF i] using m by (simp add: workers_moved_def)
    then show ?thesis using m K(3) by (simp add: workers_moved_def)
  qed
  ultimately show ?thesis unfolding fleet_counts_def by (intro exI [of _ ?K]) simp
qed

lemma fleet_counts_observe:
  assumes "fleet_counts p f" and "other_record op"
  shows "fleet_counts p (f\<lparr>fl_metrics := metric_apply op (fl_metrics f)\<rparr>)"
  using assms(1) other_frame [OF assms(2), of "fl_metrics f"]
  unfolding fleet_counts_def by (auto simp: held_def view_client_def Let_def workers_at_def)

lemma fleet_step_counts:
  assumes step: "fleet_step allow p f f'" and inv: "fleet_counts p f"
    and room: "0 < requestsPerClient p" "requestsPerClient p + wp_maxConcurrency p + 1 < 2 ^ 63" "0 \<le> wp_maxConcurrency p"
  shows "fleet_counts p f'"
  using step
proof (cases rule: fleet_step.cases)
  case (work i ws)
  show ?thesis
    unfolding work(1)
    by (rule fleet_counts_update [OF inv work(2)])
      (use worker_step_moved [OF work(3) _ room] worker_step_cancelled [OF work(3)] in simp_all)
next
  case (observe op)
  then show ?thesis using fleet_counts_observe [OF inv] by simp
qed

lemma fleet_run_inv:
  assumes "fleet_run allow p f f'" and "fleet_books f"
  shows "fleet_books f'"
  using assms unfolding fleet_run_def by (induction rule: rtranclp_induct) (auto dest: fleet_step_books)

lemma fleet_run_counts:
  assumes "fleet_run allow p f f'" and "fleet_counts p f"
    and "0 < requestsPerClient p" "requestsPerClient p + wp_maxConcurrency p + 1 < 2 ^ 63" "0 \<le> wp_maxConcurrency p"
  shows "fleet_counts p f'"
  using assms(1) unfolding fleet_run_def
  by (induction rule: rtranclp_induct) (use assms fleet_step_counts in blast)+

lemma fleet_run_length: "fleet_run allow p f f' \<Longrightarrow> length (fl_groups f') = length (fl_groups f)"
  unfolding fleet_run_def by (induction rule: rtranclp_induct) (auto elim: fleet_step.cases)

section \<open>From the start of Run to its result\<close>

text \<open>The simulation when \<^verbatim>\<open>Run\<close> starts the clients: servers started, metrics reset.\<close>

definition run_start :: "run_clock \<Rightarrow> 'm simulation \<Rightarrow> 'm simulation" where
  "run_start clk x = update_sim (\<lambda>s. s\<lparr>sim_metrics := Reset (sim_metrics s) (rn_start clk) (rn_bucket clk)\<rparr>) (fst (run_begin x))"

lemma start_servers_stats:
  "start_servers ss = (ts, err) \<Longrightarrow> map srv_stats ts = map srv_stats ss"
  by (induction ss arbitrary: ts err) (auto simp: Start_def split: sum.splits if_splits prod.splits)

lemma client_limiter_ok: "\<exists>rl. client_limiter p = Inr rl"
  by (simp add: client_limiter_def NewTokenBucket_def Let_def)

lemma runClient_sel:
  "gr_client (runClient p now c) = c" "gr_counter (runClient p now c) = 0"
  "gr_pcs (runClient p now c) = (\<lambda>i. if int i < wp_maxConcurrency p then Some Starting else None)"
  using client_limiter_ok [of p] by (auto simp: runClient_def Let_def)

lemma runClient_none:
  assumes "\<not> P Starting"
  shows "count_threads P (gr_pcs (runClient p now c)) = 0"
  by (rule count_threads_none) (auto simp: runClient_sel assms split: if_splits)

text \<open>What a simulator that \<^verbatim>\<open>New\<close> has made brings to its first run.\<close>

lemma first_run:
  fixes lims :: 'm and clocks clk
  assumes new: "Simulator_New cfg nclk = Inr sim"
  defines "x \<equiv> run_start clk (launch sim lims clocks)"
  shows "snd (run_begin (launch sim lims clocks)) = None"
    and "sim_config (sn_simulator x) = cfg" and "requestCount (sn_simulator x) = 0"
    and "sim_clients (sn_simulator x) = map (NewClient \<circ> clientConfig cfg) [0..<nat (cc_Count (Clients cfg))]"
    and "sim_metrics (sn_simulator x) = Reset (sim_metrics sim) (rn_start clk) (rn_bucket clk)"
    and "answers (wd_tp (sn_world x)) = (0, 0)"
proof -
  note s = new_simulator [OF new]
  obtain ts where t: "start_servers (sim_servers sim) = (ts, None)" using start_none_running s by blast
  have "map srv_stats ts = map srv_stats (sim_servers sim)" by (rule start_servers_stats [OF t])
  then have "\<forall>u\<in>set ts. srv_stats u = zero_stats" using s by (metis (mono_tags, lifting) image_iff image_set)
  then have z: "sum_stat srv_totalRequests ts = 0 \<and> sum_stat srv_rateLimitedRequests ts = 0"
    by (induction ts) (auto simp: sum_stat_def Stats_def zero_stats_def)
  have b: "run_begin (launch sim lims clocks)
      = (with_servers (update_sim (\<lambda>s. s\<lparr>sim_running := True\<rparr>) (launch sim lims clocks)) ts, None)"
    using s t by (simp add: run_begin_def launch_def update_sim_def)
  show "snd (run_begin (launch sim lims clocks)) = None" by (simp add: b)
  show "sim_config (sn_simulator x) = cfg" "requestCount (sn_simulator x) = 0"
    "sim_clients (sn_simulator x) = map (NewClient \<circ> clientConfig cfg) [0..<nat (cc_Count (Clients cfg))]"
    "sim_metrics (sn_simulator x) = Reset (sim_metrics sim) (rn_start clk) (rn_bucket clk)"
    unfolding x_def run_start_def b using s by (simp_all add: with_servers_def update_sim_def launch_def)
  have "w64 0 = 0" by (simp add: w64_id in64_def)
  then show "answers (wd_tp (sn_world x)) = (0, 0)"
    unfolding x_def run_start_def b using z by (simp add: with_servers_def update_sim_def launch_def answers_def)
qed

lemma first_fleet:
  fixes lims :: 'm and clocks clk nows
  assumes new: "Simulator_New cfg nclk = Inr sim"
  defines "f \<equiv> startClients nows (run_start clk (launch sim lims clocks))"
  shows "fleet_books f"
    and "0 < requestsPerClient (worker_params cfg) \<Longrightarrow> fleet_counts (worker_params cfg) f"
    and "length (fl_groups f) = nat (cc_Count (Clients cfg))"
proof -
  let ?n = "nat (cc_Count (Clients cfg))" and ?p = "worker_params cfg"
  note first_run(2-6) [OF new, where lims = lims and clocks = clocks and clk = clk]
  then have f: "fl_world f = sn_world (run_start clk (launch sim lims clocks))"
    "fl_metrics f = Reset (sim_metrics sim) (rn_start clk) (rn_bucket clk)" "fl_sent f = 0"
    "fl_groups f = map (\<lambda>i. runClient ?p (nows i) (NewClient (clientConfig cfg i))) [0..<?n]"
    "answers (wd_tp (fl_world f)) = (0, 0)"
    by (simp_all add: f_def startClients_def Let_def)
  have w: "w64 0 = 0" by (simp add: w64_id in64_def)
  have g: "g \<in> set (fl_groups f) \<Longrightarrow> \<exists>now i. g = runClient ?p now (NewClient (clientConfig cfg i))" for g
    by (auto simp: f(4))
  have stats: "cs_successfulRequests (cl_stats (NewClient config)) = 0" "cs_rateLimitedRequests (cl_stats (NewClient config)) = 0" for config
    by (simp_all add: NewClient_def Let_def)
  have held: "held P f = 0" if "\<not> P Starting" for P
    by (simp add: held_def f(4) comp_def runClient_none [of P, OF that])
  have fin: "finite (dom (gr_pcs (runClient ?p now c)))" for now c
    by (rule finite_subset [of _ "{i. int i < wp_maxConcurrency ?p}"]) (auto simp: runClient_sel split: if_splits)
  have "sum_clients cs_successfulRequests f = 0" "sum_clients cs_rateLimitedRequests f = 0"
    by (simp_all add: sum_clients_def f(4) comp_def runClient_sel stats)
  then show "fleet_books f"
    using f(5) held [of holds_success] held [of holds_limited] g fin
    by (auto simp: fleet_books_def Let_def f(2) Reset_def tallied_def w runClient_sel stats dest!: g)
  show "fleet_counts ?p f" if "0 < requestsPerClient ?p"
  proof -
    have "workers_at ?p 0 (view_client f i)" if "i < length (fl_groups f)" for i
      using start_workers_at(1) [of "view_client f i" ?p] \<open>0 < requestsPerClient ?p\<close> that
      by (simp add: f(4) runClient_sel)
    then show ?thesis
      using held [of is_replied] by (auto simp: fleet_counts_def f(2,3) Reset_def w intro!: exI [of _ "\<lambda>_. 0"])
  qed
  show "length (fl_groups f) = ?n" by (simp add: f(4))
qed

lemma all_left_held: "all_left f \<Longrightarrow> \<not> P Gone \<Longrightarrow> held P f = 0"
proof -
  assume "all_left f" "\<not> P Gone"
  then have "count_threads P (gr_pcs g) = 0" if "g \<in> set (fl_groups f)" for g
    using that by (intro count_threads_none) (force simp: all_left_def ran_def)
  then have "map (\<lambda>g. count_threads P (gr_pcs g)) (fl_groups f) = map (\<lambda>_. 0) (fl_groups f)" by simp
  then show "held P f = 0" unfolding held_def by (simp only: sum_list_0)
qed

lemma final_snapshot [simp]:
  "ms_TotalRequests (CaptureFinalSnapshot c clk) = col_totalRequests c"
  "ms_SuccessfulRequests (CaptureFinalSnapshot c clk) = col_successfulRequests c"
  "ms_RateLimitedRequests (CaptureFinalSnapshot c clk) = col_rateLimitedRequests c"
  "ms_FailedRequests (CaptureFinalSnapshot c clk) = col_failedRequests c"
  by (simp_all add: CaptureFinalSnapshot_def createSnapshotFromBucket_def Let_def)

lemma run_finish_result:
  assumes "run_finish marshal write clk x fs = (y, fs', snap)"
  shows "sn_world y = sn_world x" and "sim_clients (sn_simulator y) = sim_clients (sn_simulator x)"
    and "requestCount (sn_simulator y) = requestCount (sn_simulator x)"
    and "snap = with_connection_stats (sim_servers_of x) (CaptureFinalSnapshot (sim_metrics (sn_simulator x)) (rn_final clk))"
  using assms by (auto simp: run_finish_def Let_def update_sim_def split: option.splits prod.splits)

text \<open>The result of \<^verbatim>\<open>Run\<close> is read off the simulation \<open>x\<close> that the clients leave.\<close>

lemma run_result:
  fixes fs :: 'fs
  assumes new: "Simulator_New cfg nclk = Inr sim"
    and x: "work (run_start clk (launch sim lims clocks)) = x" "sim_metrics (sn_simulator x) = m"
    and limited: "col_rateLimitedRequests m = w64 (sum_stat srv_rateLimitedRequests (sim_servers_of x))"
      "col_rateLimitedRequests m = w64 (\<Sum>c\<leftarrow>sim_clients (sn_simulator x). cv_RateLimitedRequests (Client_Stats c))"
    and handled: "w64 (col_successfulRequests m + col_rateLimitedRequests m) = w64 (sum_stat srv_totalRequests (sim_servers_of x))"
      "col_successfulRequests m = w64 (\<Sum>c\<leftarrow>sim_clients (sn_simulator x). cv_SuccessfulRequests (Client_Stats c))"
    and total: "col_totalRequests m = w64 (col_successfulRequests m + col_rateLimitedRequests m + col_failedRequests m)"
    and failed: "uncancelled \<longrightarrow> col_failedRequests m = w64 (\<Sum>c\<leftarrow>sim_clients (sn_simulator x). cv_FailedRequests (Client_Stats c))"
    and counted: "full \<longrightarrow> col_totalRequests m = n \<and> requestCount (sn_simulator x) = n"
  shows "\<exists>y fs' snap. Simulator_Run marshal write work clk (launch sim lims clocks) fs = (y, fs', Inr snap)
    \<and> ms_RateLimitedRequests snap = w64 (sum_stat srv_rateLimitedRequests (sim_servers_of y))
    \<and> w64 (ms_SuccessfulRequests snap + ms_RateLimitedRequests snap) = w64 (sum_stat srv_totalRequests (sim_servers_of y))
    \<and> ms_SuccessfulRequests snap = w64 (\<Sum>c\<leftarrow>sim_clients (sn_simulator y). cv_SuccessfulRequests (Client_Stats c))
    \<and> ms_RateLimitedRequests snap = w64 (\<Sum>c\<leftarrow>sim_clients (sn_simulator y). cv_RateLimitedRequests (Client_Stats c))
    \<and> ms_TotalRequests snap = w64 (ms_SuccessfulRequests snap + ms_RateLimitedRequests snap + ms_FailedRequests snap)
    \<and> (uncancelled \<longrightarrow>
         ms_FailedRequests snap = w64 (\<Sum>c\<leftarrow>sim_clients (sn_simulator y). cv_FailedRequests (Client_Stats c)))
    \<and> (full \<longrightarrow> ms_TotalRequests snap = n \<and> requestCount (sn_simulator y) = ms_TotalRequests snap)"
proof -
  obtain x1 where b: "run_begin (launch sim lims clocks) = (x1, None)"
    using first_run(1) [OF new] by (metis prod.collapse)
  obtain y fs' snap where e: "run_finish marshal write clk x fs = (y, fs', snap)" by (metis prod_cases3)
  note r = run_finish_result [OF e]
  have "Simulator_Run marshal write work clk (launch sim lims clocks) fs = (y, fs', Inr snap)"
    using b e x(1) by (simp add: Simulator_Run_def run_start_def Let_def)
  moreover have "ms_TotalRequests snap = col_totalRequests m" "ms_SuccessfulRequests snap = col_successfulRequests m"
    "ms_RateLimitedRequests snap = col_rateLimitedRequests m" "ms_FailedRequests snap = col_failedRequests m"
    unfolding r(4) by (simp_all add: with_connection_stats_def x(2) split: prod.splits)
  ultimately show ?thesis
    using r(1-3) limited handled total failed counted by (intro exI [of _ y] exI [of _ fs'] exI [of _ snap]) simp
qed

text \<open>At the end nothing is held, so that the books are closed.\<close>

lemma books_closed:
  assumes b: "fleet_books f" and "all_left f"
  shows "col_rateLimitedRequests (fl_metrics f) = w64 (sum_stat srv_rateLimitedRequests (net_servers (wd_tp (fl_world f))))"
    and "w64 (col_successfulRequests (fl_metrics f) + col_rateLimitedRequests (fl_metrics f))
      = w64 (sum_stat srv_totalRequests (net_servers (wd_tp (fl_world f))))"
    and "col_successfulRequests (fl_metrics f) = w64 (sum_clients cs_successfulRequests f)"
    and "col_rateLimitedRequests (fl_metrics f) = w64 (sum_clients cs_rateLimitedRequests f)"
    and "col_totalRequests (fl_metrics f) = w64 (col_successfulRequests (fl_metrics f)
      + col_rateLimitedRequests (fl_metrics f) + col_failedRequests (fl_metrics f))"
  using b all_left_held [OF assms(2), of holds_success] all_left_held [OF assms(2), of holds_limited]
  by (auto simp: fleet_books_def Let_def tallied_def answers_def)

lemma counts_closed:
  assumes c: "fleet_counts p f" and left: "all_left f" and n: "\<not> fl_cancelled f" and p: "0 < wp_maxConcurrency p"
  shows "col_totalRequests (fl_metrics f) = w64 (int (length (fl_groups f)) * requestsPerClient p)"
    and "fl_sent f = w64 (int (length (fl_groups f)) * requestsPerClient p)"
proof -
  let ?n = "length (fl_groups f)"
  obtain K where K: "\<forall>i<?n. workers_at p (K i) (view_client f i)" "col_totalRequests (fl_metrics f) = w64 (\<Sum>i<?n. K i)"
    "fl_sent f = w64 ((\<Sum>i<?n. K i) + held is_replied f)"
    using c unfolding fleet_counts_def by blast
  have "K i = requestsPerClient p" if i: "i < ?n" for i
  proof (rule workers_all_gone(2) [OF K(1) [rule_format, OF i] p])
    have d: "dom (gr_pcs (fl_groups f ! i)) = {j. int j < wp_maxConcurrency p}"
      using K(1) i by (simp add: workers_at_def)
    show "\<forall>j. int j < wp_maxConcurrency p \<longrightarrow> wk_pcs (view_client f i) j = Some Gone"
    proof (intro allI impI)
      fix j assume "int j < wp_maxConcurrency p"
      then obtain pc where pc: "gr_pcs (fl_groups f ! i) j = Some pc" using d by blast
      then have "pc = Gone" using left i unfolding all_left_def by (meson nth_mem ranI)
      then show "wk_pcs (view_client f i) j = Some Gone" using pc by simp
    qed
  qed (simp add: n)
  then have "(\<Sum>i<?n. K i) = int ?n * requestsPerClient p" by simp
  then show "col_totalRequests (fl_metrics f) = w64 (int ?n * requestsPerClient p)"
    "fl_sent f = w64 (int ?n * requestsPerClient p)"
    using K(2,3) all_left_held [OF left, of is_replied] by simp_all
qed

section \<open>A run of one client\<close>

lemma update_view: "i < length (fl_groups f) \<Longrightarrow> update_client i (view_client f i) f = f"
  by (simp add: update_client_def view_client_def Let_def)

lemma update_update: "i < length (fl_groups f) \<Longrightarrow> update_client i ws' (update_client i ws f) = update_client i ws' f"
  by (simp add: update_client_def)

text \<open>The workers of one client at work are a run of the fleet.\<close>

lemma fleet_run_workers:
  assumes "(worker_step (Some (simulatorTransport allow)) p (gr_deadline (fl_groups f ! i)))\<^sup>*\<^sup>* (view_client f i) ws"
    and i: "i < length (fl_groups f)"
  shows "fleet_run allow p f (update_client i ws f)"
  using assms(1)
proof (induction rule: rtranclp_induct)
  case base
  then show ?case by (simp add: update_view [OF i] fleet_run_def)
next
  case (step ws ws')
  have "gr_deadline (fl_groups (update_client i ws f) ! i) = gr_deadline (fl_groups f ! i)"
    using i by (simp add: update_client_def)
  then have "fleet_step allow p (update_client i ws f) (update_client i ws' (update_client i ws f))"
    using step(2) i by (intro fleet_step.work) (simp_all add: view_update_same)
  then show ?case
    using step(3) unfolding fleet_run_def update_update [OF i] by (rule rtranclp.rtrancl_into_rtrancl [rotated])
qed

lemma per_request_returns:
  assumes "cl_mode c = ConnectionModePerRequest"
  shows "\<exists>c' w' r. Client_Send ops c w clk d True req = Some (c', w', r) \<and> cl_mode c' \<noteq> ConnectionModeDedicated"
proof -
  obtain c1 w1 r1 where o: "open_connection (bump CTotal c) w (sd_choice clk) (sd_connect clk) = (c1, w1, r1)" by (metis prod_cases3)
  have m1: "cl_mode c1 = ConnectionModePerRequest"
    using o assms by (auto simp: open_connection_def split: prod.splits sum.splits)
  have u: "use_pool (bump CTotal c) = False" using assms by (simp add: use_pool_def)
  show ?thesis
  proof (cases r1)
    case (Inl err)
    then show ?thesis using o assms m1 u by (simp add: Client_Send_def Let_def acquire_def fail_with_def)
  next
    case (Inr a)
    let ?req = "req\<lparr>req_Headers := cl_headers (bump CTotal c) ++ req_Headers req, req_ClientID := cl_id (bump CTotal c)\<rparr>"
    obtain tp conn rs where s: "Connection_Send ops (wd_tp w1) (wd_conns w1 ! a) ?req = (tp, conn, rs)" by (metis prod_cases3)
    then show ?thesis
      using o assms m1 u Inr
      by (cases rs) (auto simp: Client_Send_def Let_def acquire_def fail_with_def release_failed_def release_def split: prod.splits)
  qed
qed

text \<open>One client, one worker, one request.\<close>

definition demo_run_config :: config where
  "demo_run_config = DefaultConfig\<lparr>Clients := (Clients DefaultConfig)\<lparr>cc_Count := 1, cc_MaxConcurrency := 1,
     RequestsPerClient := 1, RequestRate := 0, cc_ConnectionMode := ''per_request''\<rparr>\<rparr>"

definition demo_new_clock :: new_clock where
  "demo_new_clock = \<lparr>nc_remote = now_at 0 0, nc_start = now_at 0 0, nc_bucket = now_at 0 0, nc_report = now_at 0 0\<rparr>"

lemma demo_run_sim: "\<exists>sim. Simulator_New demo_run_config demo_new_clock = Inr sim"
proof -
  have "config_valid demo_run_config" "sc_Count (cfg_Servers demo_run_config) < 2 ^ 63"
    by (simp_all add: config_valid_def demo_run_config_def DefaultConfig_def validModes_def validStrategies_def
        validAlgorithms_def validLimiters_def)
  then show ?thesis using valid_config_builds by blast
qed

abbreviation demo_fleet :: "simulator \<Rightarrow> fixed_window fleet" where
  "demo_fleet sim \<equiv> startClients (\<lambda>_. now_at 0 0) (run_start demo_run_clock (launch sim demo_window (\<lambda>_. demo_handler_clock)))"

lemma demo_fleet_run:
  assumes sim: "Simulator_New demo_run_config demo_new_clock = Inr sim"
  shows "\<exists>f. fleet_run demo_allow (worker_params demo_run_config) (demo_fleet sim) f \<and> all_left f \<and> \<not> fl_cancelled f"
proof -
  let ?p = "worker_params demo_run_config" and ?f = "demo_fleet sim"
  have p: "requestsPerClient ?p = 1" "wp_maxConcurrency ?p = 1" "targetRate ?p = 0"
    by (simp_all add: worker_params_def demo_run_config_def)
  have rl: "gr_limiter (runClient ?p now c) = None" for now c
    by (simp add: runClient_def client_limiter_def p Let_def)
  have g: "fl_groups ?f = [runClient ?p (now_at 0 0) (NewClient (clientConfig demo_run_config 0))]"
    using first_run(2,4) [OF sim, where lims = demo_window and clocks = "\<lambda>_. demo_handler_clock" and clk = demo_run_clock]
    by (simp add: startClients_def Let_def) (simp add: demo_run_config_def)
  have cancelled: "\<not> fl_cancelled ?f" by (simp add: startClients_def Let_def)
  have mode0: "cl_mode (NewClient (clientConfig demo_run_config 0)) = ConnectionModePerRequest"
    by (simp add: NewClient_def clientConfig_def demo_run_config_def connMode_def Let_def)
  let ?x = "view_client ?f 0"
  have x: "wk_pcs ?x = (\<lambda>i. if int i < 1 then Some Starting else None)" "\<not> wk_cancelled ?x" "requestCounter ?x = 0"
    "wk_limiter ?x = None" "cl_mode (wk_client ?x) = ConnectionModePerRequest"
    using g mode0 cancelled by (simp_all add: runClient_sel p view_client_def Let_def rl)
  obtain c w r where send: "Client_Send (Some (simulatorTransport demo_allow)) (wk_client ?x) (wk_world ?x)
      \<lparr>sd_start = now_at 0 0, sd_connect = now_at 1 1, sd_done = now_at 5 5, sd_choice = 0\<rparr> None True
      (new_request ?p (cl_id (wk_client ?x)) (w64 (wk_requestCount ?x + 1)) (now_at 0 0)) = Some (c, w, r)"
    "cl_mode c \<noteq> ConnectionModeDedicated"
    using per_request_returns [OF x(5)] by blast
  have start: "wk_pcs ?x 0 = Some Starting" and mode: "cl_mode (wk_client ?x) \<noteq> ConnectionModeDedicated"
    using x(1,5) by simp_all
  obtain y where y: "(worker_step (Some (simulatorTransport demo_allow)) ?p (gr_deadline (fl_groups ?f ! 0)))\<^sup>*\<^sup>* ?x y"
    "wk_pcs y = (wk_pcs ?x)(0 \<mapsto> Gone)" "\<not> wk_cancelled y"
    using one_request [OF start x(2-4) p(1) mode send] by blast
  have "fleet_run demo_allow ?p ?f (update_client 0 y ?f)" using fleet_run_workers [OF y(1)] by (simp add: g)
  moreover have "all_left (update_client 0 y ?f)"
    unfolding all_left_def using y(2) x(1) by (auto simp: update_client_def g ran_def split: if_splits)
  ultimately show ?thesis using y(3) by (intro exI [of _ "update_client 0 y ?f"]) simp
qed

end
