(* ===== verification/Ownership.thy ===== *)
theory Ownership
  imports Fleet
begin

text \<open>
  Who owns a connection while the fleet runs: a pool in which it is idle, or a worker whose
  dedicated connection it is. Addresses are handed out by the growing heap only, so that every
  address held anywhere is allocated and no connection has two owners, within a client or
  between clients. This is also why the look-ups of the model in the heap are never out of range.
\<close>

section \<open>What the operations of a client do to ownership\<close>

text \<open>The addresses allocated between two states of the heap.\<close>

definition fresh :: "connection list \<Rightarrow> connection list \<Rightarrow> nat \<Rightarrow> int" where
  "fresh h h' a = of_bool (length h \<le> a \<and> a < length h')"

abbreviation idle :: "client \<Rightarrow> nat \<Rightarrow> int" where
  "idle c a \<equiv> int (count_list (idleConnections (cl_pool c)) a)"

text \<open>Owners come from the old owners and the new addresses.\<close>

definition handed :: "(nat \<Rightarrow> int) \<Rightarrow> connection list \<Rightarrow> (nat \<Rightarrow> int) \<Rightarrow> connection list \<Rightarrow> bool" where
  "handed own h own' h' \<longleftrightarrow> length h \<le> length h' \<and> (\<forall>a. own' a \<le> own a + fresh h h' a)"

lemma handed_same: "(\<And>a. own' a \<le> own a) \<Longrightarrow> length h' = length h \<Longrightarrow> handed own h own' h'"
  by (simp add: handed_def fresh_def)

lemma handed_new: "(\<And>b. own' b \<le> own b + of_bool (b = length h)) \<Longrightarrow> handed own h own' (h @ [c])"
proof -
  have "fresh h (h @ [c]) b = of_bool (b = length h)" for b by (auto simp: fresh_def less_Suc_eq)
  then show "(\<And>b. own' b \<le> own b + of_bool (b = length h)) \<Longrightarrow> handed own h own' (h @ [c])"
    by (simp add: handed_def)
qed

text \<open>A change that keeps the heap's size, before or after.\<close>

lemma handed_weaken:
  assumes "handed own h mid h'" and "\<And>a. own' a \<le> mid a" and "length h'' = length h'"
  shows "handed own h own' h''"
proof -
  have "fresh h h'' a = fresh h h' a" for a using assms(3) by (simp add: fresh_def)
  then show ?thesis using assms unfolding handed_def by (metis order.trans)
qed

lemma handed_after:
  assumes "handed own h' own' h''" and "length h' = length h"
  shows "handed own h own' h''"
  using assms by (simp add: handed_def fresh_def)

lemma open_own:
  assumes "open_connection c w k now = (c', w', r)"
  shows "cl_pool c' = cl_pool c \<and> handed own (wd_conns w) (\<lambda>b. own b + of_bool (r = Inr b)) (wd_conns w')"
  using assms by (auto simp: open_connection_def intro: handed_same intro!: handed_new split: prod.splits sum.splits)

lemma close_own [simp]: "length (wd_conns (close_connection ops w a)) = length (wd_conns w)"
  by (simp add: close_connection_def split: prod.splits)

lemma put_own:
  assumes "put_connection ops c w a = (c', w')"
  shows "idle c' b \<le> idle c b + of_bool (b = a) \<and> length (wd_conns w') = length (wd_conns w)"
  using assms by (auto simp: put_connection_def Pool_Put_def put_pass_def add_connections_def Let_def split: if_splits prod.splits)

lemma pooled_own:
  assumes "acquire_pooled c w k now = Some (c', w', r)"
  shows "handed (idle c) (wd_conns w) (\<lambda>b. idle c' b + of_bool (r = Inr b)) (wd_conns w')"
proof (cases "pl_closed (cl_pool c)")
  case True
  then show ?thesis using assms by (auto simp: acquire_pooled_def Pool_Get_def intro!: handed_same)
next
  case open_pool: False
  obtain p oc where g: "get_pass (cl_pool c) = (p, oc)" by fastforce
  obtain lb pr where pk: "picker k (wd_lb w) = (lb, pr)" by fastforce
  show ?thesis using g
  proof (cases rule: get_pass_cases)
    case reserved
    then show ?thesis
      using assms open_pool g pk
      by (cases pr) (auto simp: acquire_pooled_def Pool_Get_def add_connections_def Let_def intro: handed_same intro!: handed_new)
  next
    case (reused a xs ys)
    then show ?thesis
      using assms open_pool g by (auto simp: acquire_pooled_def Pool_Get_def intro!: handed_same)
  next
    case must_wait
    then show ?thesis using assms open_pool g by (simp add: acquire_pooled_def Pool_Get_def)
  qed
qed

lemma fail_open_own:
  assumes "fail_with (open_connection c w k now) = (c', w', r)"
  shows "cl_pool c' = cl_pool c \<and> handed own (wd_conns w) (\<lambda>b. own b + of_bool (r = Inr b)) (wd_conns w')"
proof -
  obtain c1 w1 r1 where o: "open_connection c w k now = (c1, w1, r1)" by (metis prod_cases3)
  then show ?thesis using assms open_own [OF o] fail_with_pool [of c1 w1 r1 c' w' r] by simp
qed

lemma acquire_own:
  assumes "acquire ops c w k now d = Some (c', w', r)"
  shows "handed (idle c) (wd_conns w) (\<lambda>b. idle c' b + of_bool (use_pool c \<and> r = Inr b)) (wd_conns w')"
proof (cases "use_pool c")
  case True
  then have "cl_mode c \<noteq> ConnectionModeDedicated" by (auto simp: use_pool_def)
  then show ?thesis using assms True pooled_own [of c w k now c' w' r] by (simp add: acquire_def)
next
  case False
  have opened: "handed (idle c) (wd_conns w) (idle c') (wd_conns w')"
    if "fail_with (open_connection c0 w0 k now) = (c', w', r)" "cl_pool c0 = cl_pool c" "length (wd_conns w0) = length (wd_conns w)"
    for c0 w0
    using fail_open_own [OF that(1), of "idle c"] that(2,3)
    by (auto intro: handed_weaken [THEN handed_after])
  show ?thesis
    using assms False
    by (auto simp: acquire_def acquire_dedicated_def CreateDedicatedConnection_def intro: opened handed_same
        split: if_splits option.splits)
qed

lemma release_own:
  assumes "release ops mode u c w a resp = (c', w', resp')"
  shows "idle c' b \<le> idle c b + of_bool (u \<and> b = a) \<and> length (wd_conns w') = length (wd_conns w)"
  using assms by (auto simp: release_def dest: put_own [of _ _ _ _ _ _ b] split: if_splits prod.splits)

lemma release_failed_own:
  assumes "release_failed ops u c w a = (c', w')"
  shows "idle c' b \<le> idle c b + of_bool (u \<and> b = a) \<and> length (wd_conns w') = length (wd_conns w)"
  using assms by (auto simp: release_failed_def dest: put_own [of _ _ _ _ _ _ b] split: if_splits)

lemma client_send_own:
  assumes "Client_Send ops c w clk d acquired req = Some (c', w', r)"
  shows "handed (idle c) (wd_conns w) (idle c') (wd_conns w')"
proof (cases "cl_closed c \<or> cl_sem c \<noteq> None \<and> \<not> acquired")
  case True
  then show ?thesis using assms by (cases "cl_closed c") (auto simp: Client_Send_def intro!: handed_same)
next
  case False
  let ?c = "bump CTotal c" and ?u = "use_pool (bump CTotal c)"
  obtain c1 w1 r1 where a: "acquire ops ?c w (sd_choice clk) (sd_connect clk) d = Some (c1, w1, r1)"
    using assms False by (auto simp: Client_Send_def Let_def split: option.splits)
  have h: "handed (idle c) (wd_conns w) (\<lambda>b. idle c1 b + of_bool (?u \<and> r1 = Inr b)) (wd_conns w1)"
    using acquire_own [OF a] by simp
  show ?thesis
  proof (cases r1)
    case (Inl err)
    then have "c' = c1" "w' = w1" using assms False a by (auto simp: Client_Send_def Let_def)
    then show ?thesis using h Inl by simp
  next
    case (Inr x)
    let ?req = "req\<lparr>req_Headers := cl_headers ?c ++ req_Headers req, req_ClientID := cl_id ?c\<rparr>"
    obtain tp conn rs where s: "Connection_Send ops (wd_tp w1) (wd_conns w1 ! x) ?req = (tp, conn, rs)"
      by (metis prod_cases3)
    let ?w = "w1\<lparr>wd_tp := tp, wd_conns := (wd_conns w1)[x := conn]\<rparr>"
    let ?d = "bump (CLatency (time_sub (sd_done clk) (sd_start clk))) c1"
    have "idle c' b \<le> idle c1 b + of_bool (?u \<and> x = b) \<and> length (wd_conns w') = length (wd_conns w1)" for b
    proof (cases rs)
      case (Inl err)
      have "release_failed ops ?u (bump CFailed ?d) ?w x = (c', w')"
        using assms False a \<open>r1 = Inr x\<close> s Inl by (auto simp: Client_Send_def Let_def split: prod.splits)
      from release_failed_own [OF this, of b] show ?thesis by (simp add: eq_commute)
    next
      case (Inr resp)
      obtain resp' where "release ops (cl_mode ?c) ?u (bump (if RateLimited resp then CLimited else CSuccess) ?d) ?w x resp = (c', w', resp')"
        using assms False a \<open>r1 = Inr x\<close> s Inr by (auto simp: Client_Send_def Let_def split: prod.splits)
      from release_own [OF this, of b] show ?thesis by (simp add: eq_commute)
    qed
    then show ?thesis using handed_weaken [OF h, of "idle c'" "wd_conns w'"] Inr by simp
  qed
qed

section \<open>Workers and clients\<close>

fun dedicated_of :: "worker_pc \<Rightarrow> nat option" where
  "dedicated_of (Top d) = d"
| "dedicated_of (Claimed d) = d"
| "dedicated_of (Throttled d) = d"
| "dedicated_of (Sending d) = d"
| "dedicated_of (Replied d _ _) = d"
| "dedicated_of (Replacing _ d) = d"
| "dedicated_of _ = None"

definition owns :: "nat \<Rightarrow> worker_pc \<Rightarrow> bool" where
  "owns a pc \<longleftrightarrow> dedicated_of pc = Some a"

text \<open>How often a connection is idle in the pool of a client or dedicated to one of its workers.\<close>

definition owners_in :: "client \<Rightarrow> (nat \<rightharpoonup> worker_pc) \<Rightarrow> nat \<Rightarrow> int" where
  "owners_in c m a = idle c a + count_threads (owns a) m"

lemma owners_move:
  assumes "finite (dom (wk_pcs x))" and "wk_pcs x i = Some old" and "wk_pcs y = (wk_pcs x)(i \<mapsto> new)"
    and "handed (idle (wk_client x)) (wd_conns (wk_world x))
      (\<lambda>a. idle (wk_client y) a + of_bool (owns a new) - of_bool (owns a old)) (wd_conns (wk_world y))"
  shows "handed (owners_in (wk_client x) (wk_pcs x)) (wd_conns (wk_world x))
    (owners_in (wk_client y) (wk_pcs y)) (wd_conns (wk_world y))"
proof -
  have e: "count_threads (owns a) (wk_pcs y) = count_threads (owns a) (wk_pcs x) + of_bool (owns a new) - of_bool (owns a old)" for a
    unfolding assms(3) count_threads_upd [OF assms(1)] by (simp add: assms(2))
  show ?thesis
    unfolding handed_def owners_in_def e
  proof (intro conjI allI)
    show "length (wd_conns (wk_world x)) \<le> length (wd_conns (wk_world y))" using assms(4) by (simp add: handed_def)
    fix a
    have "idle (wk_client y) a + of_bool (owns a new) - of_bool (owns a old)
        \<le> idle (wk_client x) a + fresh (wd_conns (wk_world x)) (wd_conns (wk_world y)) a"
      using assms(4) unfolding handed_def by blast
    then show "idle (wk_client y) a + (count_threads (owns a) (wk_pcs x) + of_bool (owns a new) - of_bool (owns a old))
        \<le> idle (wk_client x) a + count_threads (owns a) (wk_pcs x) + fresh (wd_conns (wk_world x)) (wd_conns (wk_world y)) a"
      by linarith
  qed
qed

lemma worker_step_owners:
  assumes step: "worker_step ops p dl x y" and fin: "finite (dom (wk_pcs x))"
  shows "handed (owners_in (wk_client x) (wk_pcs x)) (wd_conns (wk_world x))
    (owners_in (wk_client y) (wk_pcs y)) (wd_conns (wk_world y))"
proof -
  note move = owners_move [OF fin]
  have left: "length (wd_conns (close_dedicated ops w d)) = length (wd_conns w)" for w d
    by (simp add: close_dedicated_def split: option.splits)
  have opened: "cl_pool c' = cl_pool c \<and> handed own (wd_conns w) (\<lambda>b. own b + of_bool (r = Inr b)) (wd_conns w')"
    if "CreateDedicatedConnection c w k now = (c', w', r)" for c w k now c' w' r own
    using open_own [OF that [unfolded CreateDedicatedConnection_def]] .
  show ?thesis
    using step
  proof (cases rule: worker_step.cases)
    case (send i d n acquired clk now c w r latency)
    show ?thesis by (rule move [OF send(2), where new = "Replied d latency r"])
      (use send client_send_own [OF send(5)] in \<open>auto simp: goto_def owns_def\<close>)
  next
    case (begin_dedicated i k now c w r)
    let ?new = "Top (case r of Inr a \<Rightarrow> Some a | Inl _ \<Rightarrow> None)"
    have "handed (idle (wk_client x)) (wd_conns (wk_world x)) (\<lambda>b. idle (wk_client x) b + of_bool (r = Inr b)) (wd_conns w)"
      using opened [OF begin_dedicated(4)] by blast
    then have "handed (idle (wk_client x)) (wd_conns (wk_world x))
        (\<lambda>a. idle (wk_client y) a + of_bool (owns a ?new) - of_bool (owns a Starting)) (wd_conns (wk_world y))"
      by (rule handed_weaken)
        (use begin_dedicated opened [OF begin_dedicated(4)] in \<open>cases r; auto simp: goto_def owns_def\<close>)+
    then show ?thesis
      by (rule move [OF begin_dedicated(2), where new = ?new, rotated]) (simp add: begin_dedicated goto_def)
  next
    case (replace i failed d k now c w r)
    show ?thesis
    proof (rule move [OF replace(2), where new = "Top (replaced failed d r)"])
      show "wk_pcs y = (wk_pcs x)(i \<mapsto> Top (replaced failed d r))" using replace by (simp add: goto_def)
      have "handed (idle (wk_client x)) (wd_conns (wk_world x)) (\<lambda>b. idle (wk_client x) b + of_bool (r = Inr b)) (wd_conns w)"
        using opened [OF replace(3)] by blast
      then show "handed (idle (wk_client x)) (wd_conns (wk_world x))
          (\<lambda>a. idle (wk_client y) a + of_bool (owns a (Top (replaced failed d r))) - of_bool (owns a (Replacing failed d)))
          (wd_conns (wk_world y))"
        by (rule handed_weaken)
          (use replace opened [OF replace(3)] in \<open>cases r; auto simp: goto_def owns_def replaced_def\<close>)+
    qed
  next
    case (go_on i d now n)
    show ?thesis by (rule move [OF go_on(2), where new = "Claimed d"]) (use go_on in \<open>auto simp: goto_def owns_def intro!: handed_same\<close>)
  next
    case (finish i d now n)
    show ?thesis by (rule move [OF finish(2), where new = Gone]) (use finish in \<open>auto simp: goto_def leave_def left owns_def intro!: handed_same\<close>)
  next
    case (proceed i d)
    show ?thesis by (rule move [OF proceed(2), where new = "Throttled d"]) (use proceed in \<open>auto simp: goto_def owns_def intro!: handed_same\<close>)
  next
    case (give_up i d)
    show ?thesis by (rule move [OF give_up(2), where new = Gone]) (use give_up in \<open>auto simp: goto_def leave_def left owns_def intro!: handed_same\<close>)
  next
    case (token i d now rl)
    show ?thesis by (rule move [OF token(2), where new = "Sending d"]) (use token in \<open>auto simp: goto_def owns_def intro!: handed_same\<close>)
  next
    case (no_token i d now rl)
    show ?thesis by (rule move [OF no_token(2), where new = "Throttled d"]) (use no_token in \<open>auto simp: goto_def owns_def intro!: handed_same\<close>)
  next
    case (stop_waiting i d now rl)
    show ?thesis by (rule move [OF stop_waiting(2), where new = Gone]) (use stop_waiting in \<open>auto simp: goto_def leave_def left owns_def intro!: handed_same\<close>)
  next
    case (note_reply i d latency r m now)
    show ?thesis by (rule move [OF note_reply(2), where new = "if needs_replacement (cl_mode (wk_client x)) r then Replacing (isl r) d else Top d"])
      (use note_reply in \<open>auto simp: goto_def owns_def intro!: handed_same\<close>)
  next
    case (begin_shared i)
    show ?thesis by (rule move [OF begin_shared(2), where new = "Top None"]) (use begin_shared in \<open>auto simp: goto_def owns_def intro!: handed_same\<close>)
  next
    case cancel
    then show ?thesis by (auto intro!: handed_same)
  qed
qed

section \<open>The fleet\<close>

definition owners :: "'m fleet \<Rightarrow> nat \<Rightarrow> int" where
  "owners f a = (\<Sum>g\<leftarrow>fl_groups f. owners_in (gr_client g) (gr_pcs g) a)"

definition owned_once :: "'m fleet \<Rightarrow> bool" where
  "owned_once f \<longleftrightarrow> (\<forall>g\<in>set (fl_groups f). finite (dom (gr_pcs g)))
     \<and> (\<forall>a. owners f a \<le> of_bool (a < length (wd_conns (fl_world f))))"

lemma fleet_step_owned:
  assumes step: "fleet_step allow p f f'" and inv: "owned_once f"
  shows "owned_once f'"
  using step
proof (cases rule: fleet_step.cases)
  case (work i ws)
  have g: "fl_groups f ! i \<in> set (fl_groups f)" using work(2) by simp
  then have fin: "finite (dom (wk_pcs (view_client f i)))" using inv by (simp add: owned_once_def)
  have h: "length (wd_conns (fl_world f)) \<le> length (wd_conns (wk_world ws))"
    "owners_in (wk_client ws) (wk_pcs ws) a \<le> owners_in (gr_client (fl_groups f ! i)) (gr_pcs (fl_groups f ! i)) a
      + fresh (wd_conns (fl_world f)) (wd_conns (wk_world ws)) a" for a
    using worker_step_owners [OF work(3) fin] by (simp_all add: handed_def)
  have "owners f' a \<le> of_bool (a < length (wd_conns (wk_world ws)))" for a
  proof -
    have "owners f' a = owners f a - owners_in (gr_client (fl_groups f ! i)) (gr_pcs (fl_groups f ! i)) a
        + owners_in (wk_client ws) (wk_pcs ws) a"
      using work(2) by (simp add: work(1) owners_def update_client_def sum_update)
    then have "owners f' a \<le> owners f a + fresh (wd_conns (fl_world f)) (wd_conns (wk_world ws)) a"
      using h(2) [of a] by linarith
    also have "\<dots> \<le> of_bool (a < length (wd_conns (fl_world f))) + fresh (wd_conns (fl_world f)) (wd_conns (wk_world ws)) a"
      using inv by (simp add: owned_once_def)
    also have "\<dots> = of_bool (a < length (wd_conns (wk_world ws)))" using h(1) by (auto simp: fresh_def)
    finally show ?thesis .
  qed
  moreover have "\<forall>g\<in>set (fl_groups f'). finite (dom (gr_pcs g))"
    unfolding work(1) using inv worker_step_finite [OF work(3) fin]
    by (intro groups_update) (simp_all add: owned_once_def)
  ultimately show ?thesis by (simp add: owned_once_def work(1))
next
  case (observe op)
  then show ?thesis using inv by (simp add: owned_once_def owners_def)
qed

lemma fleet_run_owned: "fleet_run allow p f f' \<Longrightarrow> owned_once f \<Longrightarrow> owned_once f'"
  unfolding fleet_run_def by (induction rule: rtranclp_induct) (auto dest: fleet_step_owned)

lemma first_owned:
  assumes new: "Simulator_New cfg nclk = Inr sim"
  shows "owned_once (startClients nows (run_start clk (launch sim lims clocks)))"
proof -
  let ?f = "startClients nows (run_start clk (launch sim lims clocks))"
  have g: "g \<in> set (fl_groups ?f) \<Longrightarrow> \<exists>now config. g = runClient (worker_params cfg) now (NewClient config)" for g
    using first_run(2,4) [OF new, where lims = lims and clocks = clocks and clk = clk]
    by (auto simp: startClients_def Let_def)
  have idle0: "idle (NewClient config) a = 0" for config a by (simp add: NewClient_def NewPool_def Let_def)
  have "owners_in (gr_client g) (gr_pcs g) a = 0" if "g \<in> set (fl_groups ?f)" for g a
    using g [OF that] by (auto simp: owners_in_def runClient_none [of "owns a"] owns_def idle0 runClient_sel(1))
  then have "map (\<lambda>g. owners_in (gr_client g) (gr_pcs g) a) (fl_groups ?f) = map (\<lambda>_. 0) (fl_groups ?f)" for a by simp
  then have "owners ?f a = 0" for a unfolding owners_def by (simp only: sum_list_0)
  moreover have "finite (dom (gr_pcs (runClient p now c)))" for p now c
    by (rule finite_subset [of _ "{i. int i < wp_maxConcurrency p}"]) (auto simp: runClient_sel split: if_splits)
  ultimately show ?thesis unfolding owned_once_def by (auto dest!: g)
qed

section \<open>No two owners\<close>

lemma distinct_count: "distinct xs \<longleftrightarrow> (\<forall>a. count_list xs a \<le> 1)"
proof (induction xs)
  case (Cons x xs)
  show ?case
  proof
    assume "distinct (x # xs)"
    then have "x \<notin> set xs" "\<forall>a. count_list xs a \<le> 1" using Cons by simp_all
    then show "\<forall>a. count_list (x # xs) a \<le> 1" by (simp add: count_list_0_iff)
  next
    assume all: "\<forall>a. count_list (x # xs) a \<le> 1"
    have "count_list xs a \<le> 1" for a using all [rule_format, of a] by (simp split: if_splits)
    moreover have "count_list xs x = 0" using all [rule_format, of x] by simp
    ultimately show "distinct (x # xs)" using Cons by (simp add: count_list_0_iff)
  qed
qed simp

lemma count_concat: "int (count_list (concat xss) a) = (\<Sum>xs\<leftarrow>xss. int (count_list xs a))"
  by (induction xss) (simp_all add: count_list_append)

lemma two_in_sum:
  fixes h :: "'x \<Rightarrow> int"
  assumes "k < length xs" and "k' < length xs" and "k \<noteq> k'" and "\<And>x. 0 \<le> h x"
  shows "h (xs ! k) + h (xs ! k') \<le> (\<Sum>x\<leftarrow>xs. h x)"
proof -
  have "(\<Sum>x\<leftarrow>xs. h x) = (\<Sum>i<length xs. h (xs ! i))" by (simp add: sum_list_sum_nth atLeast0LessThan)
  moreover have "(\<Sum>i\<in>{k, k'}. h (xs ! i)) \<le> (\<Sum>i<length xs. h (xs ! i))" using assms by (intro sum_mono2) auto
  ultimately show ?thesis using assms(3) by simp
qed

lemma one_in_sum:
  fixes h :: "'x \<Rightarrow> int"
  assumes "x \<in> set xs" and "\<And>x. 0 \<le> h x"
  shows "h x \<le> (\<Sum>x\<leftarrow>xs. h x)"
  using assms by (intro member_le_sum_list) auto

lemma owners_in_nonneg: "0 \<le> owners_in c m a"
  by (simp add: owners_in_def count_threads_nonneg)

lemma dedicated_counts:
  assumes "finite (dom m)" and "m i = Some pc" and "dedicated_of pc = Some a"
  shows "1 \<le> count_threads (owns a) m"
    and "m i' = Some pc' \<Longrightarrow> dedicated_of pc' = Some a \<Longrightarrow> i' \<noteq> i \<Longrightarrow> 2 \<le> count_threads (owns a) m"
proof -
  have f: "finite (threads (owns a) m)" using assms(1) by (rule finite_threads)
  have "{i} \<subseteq> threads (owns a) m" using assms(2,3) by (auto simp: threads_def owns_def)
  from card_mono [OF f this] show "1 \<le> count_threads (owns a) m" by (simp add: count_threads_def)
  assume "m i' = Some pc'" "dedicated_of pc' = Some a" and ne: "i' \<noteq> i"
  then have "{i, i'} \<subseteq> threads (owns a) m" using assms(2,3) by (auto simp: threads_def owns_def)
  from card_mono [OF f this] show "2 \<le> count_threads (owns a) m" using ne by (simp add: count_threads_def)
qed

text \<open>The owners of a connection are the pools it is idle in and the workers it is dedicated to.\<close>

abbreviation all_idle :: "'m fleet \<Rightarrow> nat list" where
  "all_idle f \<equiv> concat (map (\<lambda>g. idleConnections (cl_pool (gr_client g))) (fl_groups f))"

lemma owners_split: "owners f a = int (count_list (all_idle f) a) + held (owns a) f"
  by (simp add: owners_def owners_in_def sum_list_addf count_concat comp_def held_def)

lemma held_nonneg: "0 \<le> held P f"
  unfolding held_def by (intro sum_list_nonneg) (auto simp: count_threads_nonneg)

lemma owned_le: "owned_once f \<Longrightarrow> owners f a \<le> of_bool (a < length (wd_conns (fl_world f)))"
  by (simp add: owned_once_def)

lemma idle_distinct:
  assumes "owned_once f"
  shows "distinct (all_idle f)"
  unfolding distinct_count
proof
  fix a show "count_list (all_idle f) a \<le> 1"
    using owned_le [OF assms, of a] owners_split [of f a] held_nonneg [of "owns a" f]
    by (cases "a < length (wd_conns (fl_world f))") auto
qed

lemma idle_allocated:
  assumes "owned_once f" and "a \<in> set (all_idle f)"
  shows "a < length (wd_conns (fl_world f))"
proof -
  have "count_list (all_idle f) a \<noteq> 0" using assms(2) by (simp only: count_list_0_iff not_not)
  then show ?thesis
    using owned_le [OF assms(1), of a] owners_split [of f a] held_nonneg [of "owns a" f]
    by (cases "a < length (wd_conns (fl_world f))") auto
qed

lemma dedicated_alone:
  assumes inv: "owned_once f" and k: "k < length (fl_groups f)"
    and d: "gr_pcs (fl_groups f ! k) i = Some pc" "dedicated_of pc = Some a"
  shows "a < length (wd_conns (fl_world f))" and "a \<notin> set (all_idle f)"
    and "k' < length (fl_groups f) \<Longrightarrow> gr_pcs (fl_groups f ! k') i' = Some pc' \<Longrightarrow> dedicated_of pc' = Some a \<Longrightarrow>
      k' = k \<and> i' = i"
proof -
  let ?gs = "fl_groups f" and ?h = "\<lambda>g. count_threads (owns a) (gr_pcs g)"
  have fin: "finite (dom (gr_pcs g))" if "g \<in> set ?gs" for g using inv that by (simp add: owned_once_def)
  have g: "?gs ! k \<in> set ?gs" using k by simp
  note one = dedicated_counts [OF fin [OF g] d]
  have sum: "?h g \<le> held (owns a) f" if "g \<in> set ?gs" for g
    unfolding held_def using that by (rule one_in_sum) (rule count_threads_nonneg)
  have "1 \<le> held (owns a) f" using one(1) sum [OF g] by linarith
  then have own: "a < length (wd_conns (fl_world f))" "held (owns a) f = 1" "count_list (all_idle f) a = 0"
    using owned_le [OF inv, of a] owners_split [of f a] by (cases "a < length (wd_conns (fl_world f))"; simp)+
  show "a < length (wd_conns (fl_world f))" by (rule own(1))
  show "a \<notin> set (all_idle f)" using own(3) by (simp only: count_list_0_iff not_False_eq_True)
  assume k': "k' < length ?gs" and d': "gr_pcs (?gs ! k') i' = Some pc'" "dedicated_of pc' = Some a"
  have g': "?gs ! k' \<in> set ?gs" using k' by simp
  have "k' = k"
  proof (rule ccontr)
    assume ne: "k' \<noteq> k"
    have "?h (?gs ! k') + ?h (?gs ! k) \<le> held (owns a) f"
      unfolding held_def by (rule two_in_sum [OF k' k ne]) (rule count_threads_nonneg)
    then show False using one(1) dedicated_counts(1) [OF fin [OF g'] d'] own(2) by linarith
  qed
  moreover from this have "i' = i" using one(2) [of i' pc'] d' sum [OF g] own(2) by fastforce
  ultimately show "k' = k \<and> i' = i" by blast
qed

text \<open>
  C39. Connections are well owned. While the clients of a new simulator run, in any interleaving,
  every connection that a pool holds idle or a worker holds as its dedicated one has been
  allocated, and has no second owner: it is idle at most once in the pools of all clients, and a
  dedicated one is idle in no pool and dedicated to no other worker of any client.
\<close>

theorem connections_owned_once:
  assumes new: "Simulator_New cfg nclk = Inr sim"
    and run: "fleet_run allow p (startClients nows (run_start clk (launch sim lims clocks))) f"
  shows "distinct (all_idle f)
    \<and> (\<forall>g\<in>set (fl_groups f). \<forall>a\<in>set (idleConnections (cl_pool (gr_client g))). a < length (wd_conns (fl_world f)))
    \<and> (\<forall>k<length (fl_groups f). \<forall>i pc a. gr_pcs (fl_groups f ! k) i = Some pc \<and> dedicated_of pc = Some a \<longrightarrow>
         a < length (wd_conns (fl_world f))
         \<and> (\<forall>g\<in>set (fl_groups f). a \<notin> set (idleConnections (cl_pool (gr_client g))))
         \<and> (\<forall>k'<length (fl_groups f). \<forall>i' pc'. gr_pcs (fl_groups f ! k') i' = Some pc' \<and> dedicated_of pc' = Some a \<longrightarrow>
              k' = k \<and> i' = i))"
proof -
  have inv: "owned_once f" using fleet_run_owned [OF run first_owned [OF new]] .
  have "\<forall>g\<in>set (fl_groups f). \<forall>a\<in>set (idleConnections (cl_pool (gr_client g))). a < length (wd_conns (fl_world f))"
    using idle_allocated [OF inv] by auto
  moreover have "a < length (wd_conns (fl_world f)) \<and> (\<forall>g\<in>set (fl_groups f). a \<notin> set (idleConnections (cl_pool (gr_client g))))
      \<and> (\<forall>k'<length (fl_groups f). \<forall>i' pc'. gr_pcs (fl_groups f ! k') i' = Some pc' \<and> dedicated_of pc' = Some a \<longrightarrow> k' = k \<and> i' = i)"
    if "k < length (fl_groups f)" "gr_pcs (fl_groups f ! k) i = Some pc" "dedicated_of pc = Some a" for k i pc a
    using dedicated_alone(1,2) [OF inv that] dedicated_alone(3) [OF inv that] by (intro conjI) (simp_all, blast)
  ultimately show ?thesis using idle_distinct [OF inv] by blast
qed

text \<open>A worker with its dedicated connection.\<close>

definition demo_dedicated_config :: config where
  "demo_dedicated_config = demo_run_config\<lparr>Clients := (Clients demo_run_config)\<lparr>cc_ConnectionMode := ''dedicated''\<rparr>\<rparr>"

theorem connections_owned_once_witness:
  "\<exists>sim f a. Simulator_New demo_dedicated_config demo_new_clock = Inr sim
    \<and> fleet_run demo_allow (worker_params demo_dedicated_config) (demo_fleet sim) f
    \<and> gr_pcs (fl_groups f ! 0) 0 = Some (Top (Some a)) \<and> a < length (wd_conns (fl_world f))"
proof -
  have v: "config_valid demo_dedicated_config" "sc_Count (cfg_Servers demo_dedicated_config) < 2 ^ 63"
    by (simp_all add: config_valid_def demo_dedicated_config_def demo_run_config_def DefaultConfig_def validModes_def
        validStrategies_def validAlgorithms_def validLimiters_def)
  obtain sim u where sim: "Simulator_New demo_dedicated_config demo_new_clock = Inr sim"
    and pick: "snd (PickServer 0 (loadBalancer sim)) = Inr u"
    using valid_config_builds [OF v] by blast
  let ?f = "demo_fleet sim" and ?p = "worker_params demo_dedicated_config"
  let ?c = "NewClient (clientConfig demo_dedicated_config 0)"
  have g: "fl_groups ?f = [runClient ?p (now_at 0 0) ?c]" "wd_lb (fl_world ?f) = loadBalancer sim"
    using first_run(2,4) [OF sim, where lims = demo_window and clocks = "\<lambda>_. demo_handler_clock" and clk = demo_run_clock]
    by (simp_all add: startClients_def Let_def)
      (simp_all add: demo_dedicated_config_def demo_run_config_def run_start_def run_begin_def launch_def with_servers_def
        update_sim_def split: prod.splits)
  have mode: "cl_mode ?c = ConnectionModeDedicated" "\<not> pl_closed (cl_pool ?c)"
    by (simp_all add: NewClient_def NewPool_def clientConfig_def demo_dedicated_config_def connMode_def Let_def)
  have m: "0 < wp_maxConcurrency ?p" by (simp add: worker_params_def)
  obtain c w a where create: "CreateDedicatedConnection ?c (fl_world ?f) 0 (now_at 0 0) = (c, w, Inr a)"
    using pick mode(2)
    by (cases "PickServer 0 (loadBalancer sim)") (simp add: CreateDedicatedConnection_def open_connection_def Pool_Create_def g(2))
  define ws where "ws = goto 0 (Top (Some a)) ((view_client ?f 0)\<lparr>wk_client := c, wk_world := w\<rparr>)"
  have "worker_step (Some (simulatorTransport demo_allow)) ?p (gr_deadline (fl_groups ?f ! 0)) (view_client ?f 0) ws"
    using worker_step.begin_dedicated [of "view_client ?f 0" 0 0 "now_at 0 0" c w "Inr a"] create mode(1) m
    by (simp add: ws_def g(1) runClient_sel)
  then have run: "fleet_run demo_allow ?p ?f (update_client 0 ws ?f)"
    by (intro fleet_run_workers) (simp_all add: g(1))
  have pc: "gr_pcs (fl_groups (update_client 0 ws ?f) ! 0) 0 = Some (Top (Some a))" "0 < length (fl_groups (update_client 0 ws ?f))"
    by (simp_all add: update_client_def g(1) ws_def goto_def)
  have "a < length (wd_conns (fl_world (update_client 0 ws ?f)))"
    using connections_owned_once [OF sim run] pc by fastforce
  then show ?thesis using sim run pc(1) by blast
qed

end
