(* ===== verification/Calls.thy ===== *)
theory Calls
  imports Client
begin

text \<open>
  \<^verbatim>\<open>Client.Send\<close> of \<^verbatim>\<open>pkg/client/client.go\<close> by any number of goroutines at once, one access to
  shared state at a time: the counters, the semaphore, the mode, the balancer, the pool with its
  mutex and its condition variable, the connections and the transport. \<open>advance\<close> is the next
  action of a goroutine that needs nothing of the others; \<open>send_step\<close> adds the semaphore, the
  mutex and the condition variable, the worker's own handling of its dedicated connection between
  calls, and \<^verbatim>\<open>Close\<close>.

  Shown: the requests begun are those that ended and those in flight, at every moment; no more
  calls are in progress than the configured concurrency; and \<open>Client_Send\<close>, the whole call as one
  function, is what a goroutine does that nobody disturbs.
\<close>

section \<open>Where a call is\<close>

text \<open>
  The local variables of \<^verbatim>\<open>Send\<close>, with the connection the worker put into the context. A new
  connection is opened by a call of \<^verbatim>\<open>Send\<close>, or by the worker between calls
  (\<^verbatim>\<open>CreateDedicatedConnection\<close>), who keeps the given one when that fails.
\<close>

record send_locals =
  lv_dedicated :: "nat option"
  lv_req :: request
  lv_start :: gotime
  lv_mode :: connection_mode
  lv_usePool :: bool

datatype opener = InSend send_locals | ByWorker "nat option"

text \<open>What is left of a call once its outcome is known.\<close>

datatype send_act = Bump counter | CloseIt nat | PutBack nat | PutLocked nat

text \<open>
  Outside a call, with the worker's dedicated connection; past the check of \<^verbatim>\<open>c.closed\<close>; past the
  semaphore; counted; the mode read; at the dedicated connection: before the check, found stale,
  closed; a new connection: to pick a server, to create it, to count it; in \<^verbatim>\<open>pool.Get\<close>: before
  the check of \<^verbatim>\<open>p.closed\<close>, before the mutex, about to sleep, asleep, notified, with a reserved
  slot, with a failed pick, with the reservation undone; in \<^verbatim>\<open>conn.Send\<close>: before the check of
  \<^verbatim>\<open>c.closed\<close>, before the increment, before the transport; answered; to be counted by outcome; to
  decide on the connection; the remaining actions; returned; in \<^verbatim>\<open>Close\<close>: before the pool, before
  the broadcast.
\<close>

datatype send_pc =
    Out "nat option"
  | Gate send_locals
  | Entered send_locals
  | Counted send_locals
  | ModeRead send_locals
  | Checking send_locals nat
  | Stale send_locals nat
  | StaleClosed send_locals
  | Opening opener
  | Creating opener string
  | Opened opener nat
  | GetStart send_locals
  | GetEnter send_locals
  | GetDecide send_locals
  | GetAsleep send_locals
  | GetAwake send_locals
  | GetPick send_locals
  | PickErr send_locals error
  | Undone send_locals error
  | Using send_locals nat
  | Incrementing send_locals nat
  | Calling send_locals nat bool
  | Answered send_locals nat "error + response"
  | Judging send_locals nat duration response
  | Judged send_locals nat duration response
  | Finishing send_locals "send_act list" "error + response"
  | Back "nat option" "error + response"
  | ClosingPool "nat option"
  | CloseBroadcast "nat option"

record 't send_sys =
  sn_client :: client
  sn_world :: "'t world"
  sn_lock :: "nat option"
  sn_used :: int
  sn_cancelled :: bool
  sn_pcs :: "nat \<rightharpoonup> send_pc"

section \<open>The actions of a goroutine\<close>

definition fresh_locals :: "nat option \<Rightarrow> request \<Rightarrow> send_locals" where
  "fresh_locals d req =
     \<lparr>lv_dedicated = d, lv_req = req, lv_start = zero_time, lv_mode = ConnectionModeReuse, lv_usePool = False\<rparr>"

definition merge_headers :: "client \<Rightarrow> request \<Rightarrow> request" where
  "merge_headers c req = req\<lparr>req_Headers := cl_headers c ++ req_Headers req, req_ClientID := cl_id c\<rparr>"

text \<open>The \<^verbatim>\<open>switch\<close> on the mode and the branch taken after it.\<close>

definition after_mode :: "client \<Rightarrow> send_locals \<Rightarrow> send_pc" where
  "after_mode c l =
     (let l = l\<lparr>lv_usePool := use_pool (c\<lparr>cl_mode := lv_mode l\<rparr>)\<rparr>
      in if lv_mode l = ConnectionModeDedicated
         then (case lv_dedicated l of None \<Rightarrow> Opening (InSend l) | Some a \<Rightarrow> Checking l a)
         else if lv_usePool l then GetStart l
         else Opening (InSend l))"

text \<open>The failures before there is a connection.\<close>

definition send_failed :: "send_locals \<Rightarrow> error \<Rightarrow> send_pc" where
  "send_failed l err = Finishing l [Bump CFailed] (Inl err)"

fun open_failed :: "opener \<Rightarrow> error \<Rightarrow> send_pc" where
  "open_failed (InSend l) err = send_failed l err"
| "open_failed (ByWorker d) err = Out d"

fun open_done :: "opener \<Rightarrow> nat \<Rightarrow> send_pc" where
  "open_done (InSend l) a = Using l a"
| "open_done (ByWorker d) a = Out (Some a)"

definition get_failed :: "send_locals \<Rightarrow> error \<Rightarrow> send_pc" where
  "get_failed l err = send_failed l (Wrapped ''failed to get connection'' err)"

definition transport_call :: "'t transport_ops option \<Rightarrow> 't \<Rightarrow> connection \<Rightarrow> bool \<Rightarrow> request \<Rightarrow> 't \<times> (error + response)" where
  "transport_call ops t conn shouldClose req =
     (case ops of
        None \<Rightarrow> (t, Inl NoTransport)
      | Some tp \<Rightarrow>
          (case tp_Send tp t (conn_serverID conn) (conn_id conn) req of
             (t, Inl err) \<Rightarrow> (t, Inl err)
           | (t, Inr resp) \<Rightarrow> (t, Inr (if shouldClose then resp\<lparr>ShouldClose := True\<rparr> else resp))))"

definition error_acts :: "bool \<Rightarrow> nat \<Rightarrow> send_act list" where
  "error_acts usePool a = Bump CFailed # (if usePool then [PutBack a] else [CloseIt a, Bump CClosed])"

definition reply_acts :: "connection_mode \<Rightarrow> bool \<Rightarrow> bool \<Rightarrow> nat \<Rightarrow> send_act list" where
  "reply_acts mode usePool closing a =
     (if closing
      then if mode = ConnectionModeDedicated then [CloseIt a, Bump CClosed]
           else if usePool then [PutBack a, Bump CClosed]
           else [CloseIt a, Bump CClosed]
      else if usePool then [PutBack a]
      else if mode \<noteq> ConnectionModeDedicated then [CloseIt a, Bump CClosed]
      else [])"

definition final_response :: "connection_mode \<Rightarrow> bool \<Rightarrow> duration \<Rightarrow> response \<Rightarrow> response" where
  "final_response mode closing latency resp =
     (if closing \<and> mode = ConnectionModeDedicated then resp\<lparr>ShouldClose := True\<rparr> else resp)\<lparr>ProcessingTime := latency\<rparr>"

text \<open>
  One action on the client and the world, and the place afterwards; \<open>None\<close> where the next action
  needs the semaphore, the mutex or the condition variable. \<open>now\<close> is the clock and \<open>k\<close> the random
  choice of the balancer.
\<close>

fun advance :: "'t transport_ops option \<Rightarrow> gotime \<Rightarrow> nat \<Rightarrow> client \<Rightarrow> 't world \<Rightarrow> send_pc
    \<Rightarrow> (client \<times> 't world \<times> send_pc) option" where
  "advance ops now k c w (Entered l) =
     Some (bump CTotal c, w, Counted (l\<lparr>lv_start := now, lv_req := merge_headers c (lv_req l)\<rparr>))"
| "advance ops now k c w (Counted l) = Some (c, w, ModeRead (l\<lparr>lv_mode := cl_mode c\<rparr>))"
| "advance ops now k c w (ModeRead l) = Some (c, w, after_mode c l)"
| "advance ops now k c w (Checking l a) =
     Some (c, w, if conn_ShouldClose (wd_conns w ! a) then Stale l a else Using l a)"
| "advance ops now k c w (Stale l a) = Some (c, close_connection ops w a, StaleClosed l)"
| "advance ops now k c w (StaleClosed l) = Some (bump CClosed c, w, Opening (InSend l))"
| "advance ops now k c w (Opening opn) =
     (case PickServer k (wd_lb w) of
        (lb, Inl err) \<Rightarrow> Some (c, w\<lparr>wd_lb := lb\<rparr>, open_failed opn (Wrapped ''failed to pick server'' err))
      | (lb, Inr server) \<Rightarrow> Some (c, w\<lparr>wd_lb := lb\<rparr>, Creating opn (si_ID server)))"
| "advance ops now k c w (Creating opn serverID) =
     (case Pool_Create (cl_pool c) now serverID of
        Inl err \<Rightarrow> Some (c, w, open_failed opn (Wrapped ''failed to create connection'' err))
      | Inr conn \<Rightarrow> Some (c, w\<lparr>wd_conns := wd_conns w @ [conn]\<rparr>, Opened opn (length (wd_conns w))))"
| "advance ops now k c w (Opened opn a) = Some (bump COpened c, w, open_done opn a)"
| "advance ops now k c w (GetStart l) =
     Some (c, w, if pl_closed (cl_pool c) then get_failed l PoolClosed else GetEnter l)"
| "advance ops now k c w (GetPick l) =
     (case picker k (wd_lb w) of
        (lb, Inl err) \<Rightarrow> Some (c, w\<lparr>wd_lb := lb\<rparr>, PickErr l err)
      | (lb, Inr serverID) \<Rightarrow>
          let p = cl_pool c;
              conn = NewConnection now (new_conn_id p serverID now) serverID (pl_maxRequestsPerConn p)
          in Some (c, w\<lparr>wd_lb := lb, wd_conns := wd_conns w @ [conn]\<rparr>, Opened (InSend l) (length (wd_conns w))))"
| "advance ops now k c w (PickErr l err) =
     Some (c\<lparr>cl_pool := add_connections (-1) (cl_pool c)\<rparr>, w, Undone l err)"
| "advance ops now k c w (Using l a) =
     Some (c, w, if conn_closed (wd_conns w ! a) then Answered l a (Inl ConnectionClosed) else Incrementing l a)"
| "advance ops now k c w (Incrementing l a) =
     (let (conn, shouldClose) = IncrementRequests (wd_conns w ! a)
      in Some (c, w\<lparr>wd_conns := (wd_conns w)[a := conn]\<rparr>, Calling l a shouldClose))"
| "advance ops now k c w (Calling l a shouldClose) =
     (let (t, r) = transport_call ops (wd_tp w) (wd_conns w ! a) shouldClose (lv_req l)
      in Some (c, w\<lparr>wd_tp := t\<rparr>, Answered l a r))"
| "advance ops now k c w (Answered l a r) =
     (let latency = time_sub now (lv_start l)
      in Some (bump (CLatency latency) c, w,
           case r of
             Inl err \<Rightarrow> Finishing l (error_acts (lv_usePool l) a) (Inl err)
           | Inr resp \<Rightarrow> Judging l a latency resp))"
| "advance ops now k c w (Judging l a latency resp) =
     Some (bump (if RateLimited resp then CLimited else CSuccess) c, w, Judged l a latency resp)"
| "advance ops now k c w (Judged l a latency resp) =
     (let closing = (ShouldClose resp \<or> conn_ShouldClose (wd_conns w ! a))
      in Some (c, w, Finishing l (reply_acts (lv_mode l) (lv_usePool l) closing a)
           (Inr (final_response (lv_mode l) closing latency resp))))"
| "advance ops now k c w (Finishing l (Bump n # as) r) = Some (bump n c, w, Finishing l as r)"
| "advance ops now k c w (Finishing l (CloseIt a # as) r) = Some (c, close_connection ops w a, Finishing l as r)"
| "advance ops now k c w (Finishing l (PutBack a # as) r) =
     (if pl_closed (cl_pool c) then Some (c, close_connection ops w a, Finishing l as r)
      else Some (c, w, Finishing l (PutLocked a # as) r))"
| "advance ops now k c w _ = None"

section \<open>The goroutines together\<close>

text \<open>The result of taking the mutex in \<^verbatim>\<open>Get\<close>.\<close>

fun after_get :: "send_locals \<Rightarrow> get_outcome \<Rightarrow> send_pc" where
  "after_get l (Reused a) = Opened (InSend l) a"
| "after_get l Reserved = GetPick l"
| "after_get l MustWait = GetDecide l"

definition send_signal :: "(nat \<rightharpoonup> send_pc) \<Rightarrow> (nat \<rightharpoonup> send_pc) \<Rightarrow> bool" where
  "send_signal m m' \<longleftrightarrow>
     (\<exists>u l. m u = Some (GetAsleep l) \<and> m' = m(u \<mapsto> GetAwake l)) \<or> (\<forall>u l. m u \<noteq> Some (GetAsleep l)) \<and> m' = m"

definition send_broadcast :: "(nat \<rightharpoonup> send_pc) \<Rightarrow> (nat \<rightharpoonup> send_pc)" where
  "send_broadcast m = (\<lambda>u. case m u of Some (GetAsleep l) \<Rightarrow> Some (GetAwake l) | _ \<Rightarrow> m u)"

definition sem_free :: "client \<Rightarrow> int \<Rightarrow> bool" where
  "sem_free c used = (case cl_sem c of None \<Rightarrow> True | Some n \<Rightarrow> used < n)"

definition sem_size :: "client \<Rightarrow> int" where
  "sem_size c = (if cl_sem c = None then 0 else 1)"

definition send_goto :: "nat \<Rightarrow> send_pc \<Rightarrow> 't send_sys \<Rightarrow> 't send_sys" where
  "send_goto t pc x = x\<lparr>sn_pcs := (sn_pcs x)(t \<mapsto> pc)\<rparr>"

definition set_pool :: "pool \<Rightarrow> 't send_sys \<Rightarrow> 't send_sys" where
  "set_pool p x = x\<lparr>sn_client := (sn_client x)\<lparr>cl_pool := p\<rparr>\<rparr>"

inductive send_step :: "'t transport_ops option \<Rightarrow> 't send_sys \<Rightarrow> 't send_sys \<Rightarrow> bool" for ops where
  start_closed: "sn_pcs x t = Some (Out d) \<Longrightarrow> cl_closed (sn_client x) \<Longrightarrow>
    send_step ops x (send_goto t (Back d (Inl ClientClosed)) x)"
| start: "sn_pcs x t = Some (Out d) \<Longrightarrow> \<not> cl_closed (sn_client x) \<Longrightarrow>
    send_step ops x (send_goto t (Gate (fresh_locals d req)) x)"
| enter: "sn_pcs x t = Some (Gate l) \<Longrightarrow> sem_free (sn_client x) (sn_used x) \<Longrightarrow>
    send_step ops x (send_goto t (Entered l) (x\<lparr>sn_used := sn_used x + sem_size (sn_client x)\<rparr>))"
| give_up: "sn_pcs x t = Some (Gate l) \<Longrightarrow> cl_sem (sn_client x) \<noteq> None \<Longrightarrow> sn_cancelled x \<Longrightarrow>
    send_step ops x (send_goto t (Back (lv_dedicated l) (Inl ContextDone)) x)"
| move: "sn_pcs x t = Some pc \<Longrightarrow> advance ops now k (sn_client x) (sn_world x) pc = Some (c, w, pc') \<Longrightarrow>
    send_step ops x (send_goto t pc' (x\<lparr>sn_client := c, sn_world := w\<rparr>))"
| get: "sn_pcs x t = Some (GetEnter l) \<Longrightarrow> sn_lock x = None \<Longrightarrow> get_pass (cl_pool (sn_client x)) = (p, r) \<Longrightarrow>
    send_step ops x (send_goto t (after_get l r) (set_pool p (x\<lparr>sn_lock := after_holder r t\<rparr>)))"
| sleep: "sn_pcs x t = Some (GetDecide l) \<Longrightarrow>
    send_step ops x (send_goto t (GetAsleep l) (x\<lparr>sn_lock := None\<rparr>))"
| wake_closed: "sn_pcs x t = Some (GetAwake l) \<Longrightarrow> sn_lock x = None \<Longrightarrow> pl_closed (cl_pool (sn_client x)) \<Longrightarrow>
    send_step ops x (send_goto t (get_failed l PoolClosed) x)"
| wake: "sn_pcs x t = Some (GetAwake l) \<Longrightarrow> sn_lock x = None \<Longrightarrow> \<not> pl_closed (cl_pool (sn_client x)) \<Longrightarrow>
    limit_pass (cl_pool (sn_client x)) = (p, r) \<Longrightarrow>
    send_step ops x (send_goto t (after_get l r) (set_pool p (x\<lparr>sn_lock := after_holder r t\<rparr>)))"
| signal: "sn_pcs x t = Some (Undone l err) \<Longrightarrow> send_signal (sn_pcs x) m \<Longrightarrow>
    send_step ops x (send_goto t (get_failed l err) (x\<lparr>sn_pcs := m\<rparr>))"
| put_closing: "sn_pcs x t = Some (Finishing l (PutLocked a # as) r) \<Longrightarrow> sn_lock x = None \<Longrightarrow>
    put_pass (cl_pool (sn_client x)) (wd_conns (sn_world x) ! a) a = (p, True) \<Longrightarrow>
    (if pl_closed (cl_pool (sn_client x)) then m = sn_pcs x else send_signal (sn_pcs x) m) \<Longrightarrow>
    send_step ops x (send_goto t (Finishing l as r)
      (set_pool p (x\<lparr>sn_world := close_connection ops (sn_world x) a, sn_pcs := m\<rparr>)))"
| put: "sn_pcs x t = Some (Finishing l (PutLocked a # as) r) \<Longrightarrow> sn_lock x = None \<Longrightarrow>
    put_pass (cl_pool (sn_client x)) (wd_conns (sn_world x) ! a) a = (p, False) \<Longrightarrow>
    send_step ops x (send_goto t (Finishing l as r) (set_pool p (x\<lparr>sn_pcs := send_broadcast (sn_pcs x)\<rparr>)))"
| finish: "sn_pcs x t = Some (Finishing l [] r) \<Longrightarrow>
    send_step ops x (send_goto t (Back (lv_dedicated l) r) (x\<lparr>sn_used := sn_used x - sem_size (sn_client x)\<rparr>))"
| resume: "sn_pcs x t = Some (Back d r) \<Longrightarrow> send_step ops x (send_goto t (Out d) x)"
| open_dedicated: "sn_pcs x t = Some (Out d) \<Longrightarrow> d' = d \<or> d' = None \<Longrightarrow>
    send_step ops x (send_goto t (Opening (ByWorker d')) x)"
| close_dedicated: "sn_pcs x t = Some (Out (Some a)) \<Longrightarrow>
    send_step ops x (send_goto t (Out None) (x\<lparr>sn_world := close_connection ops (sn_world x) a\<rparr>))"
| close: "sn_pcs x t = Some (Out d) \<Longrightarrow>
    send_step ops x (send_goto t (ClosingPool d) (x\<lparr>sn_client := (sn_client x)\<lparr>cl_closed := True\<rparr>\<rparr>))"
| close_pool: "sn_pcs x t = Some (ClosingPool d) \<Longrightarrow> sn_lock x = None \<Longrightarrow>
    Pool_Close ops (cl_pool (sn_client x)) (wd_tp (sn_world x)) (wd_conns (sn_world x)) = (p, tp, conns) \<Longrightarrow>
    send_step ops x (send_goto t (CloseBroadcast d)
      (set_pool p (x\<lparr>sn_world := (sn_world x)\<lparr>wd_tp := tp, wd_conns := conns\<rparr>\<rparr>)))"
| close_broadcast: "sn_pcs x t = Some (CloseBroadcast d) \<Longrightarrow>
    send_step ops x (send_goto t (Out d) (x\<lparr>sn_pcs := send_broadcast (sn_pcs x)\<rparr>))"
| set_mode: "send_step ops x (x\<lparr>sn_client := SetConnectionMode (sn_client x) mode\<rparr>)"
| cancel: "send_step ops x (x\<lparr>sn_cancelled := True\<rparr>)"

text \<open>A new client with \<open>n\<close> goroutines that have not called it yet.\<close>

definition send_init :: "client \<Rightarrow> 't world \<Rightarrow> nat \<Rightarrow> 't send_sys" where
  "send_init c w n =
     \<lparr>sn_client = c, sn_world = w, sn_lock = None, sn_used = 0, sn_cancelled = False,
      sn_pcs = (\<lambda>t. if t < n then Some (Out None) else None)\<rparr>"

section \<open>Counting the calls\<close>

text \<open>A request that has begun and whose outcome is not counted yet; a call that has its slot.\<close>

fun sending :: "opener \<Rightarrow> bool" where
  "sending (InSend l) = True"
| "sending (ByWorker d) = False"

fun pending :: "send_pc \<Rightarrow> bool" where
  "pending (Opening opn) = sending opn"
| "pending (Creating opn serverID) = sending opn"
| "pending (Opened opn a) = sending opn"
| "pending (Finishing l as r) = (Bump CFailed \<in> set as)"
| "pending (Out d) = False"
| "pending (Gate l) = False"
| "pending (Entered l) = False"
| "pending (Judged l a latency resp) = False"
| "pending (Back d r) = False"
| "pending (ClosingPool d) = False"
| "pending (CloseBroadcast d) = False"
| "pending _ = True"

fun has_slot :: "send_pc \<Rightarrow> bool" where
  "has_slot (Entered l) = True"
| "has_slot (Judged l a latency resp) = True"
| "has_slot (Finishing l as r) = True"
| "has_slot pc = pending pc"

text \<open>Of the counters of outcomes, only the one of the failures is left to be raised, once, first.\<close>

definition quiet :: "send_act list \<Rightarrow> bool" where
  "quiet as \<longleftrightarrow> (\<forall>k. Bump k \<in> set as \<longrightarrow> k = CClosed)"

fun acts_ok :: "send_act list \<Rightarrow> bool" where
  "acts_ok (Bump CFailed # as) = quiet as"
| "acts_ok as = quiet as"

fun counts_once :: "send_pc \<Rightarrow> bool" where
  "counts_once (Finishing l as r) = acts_ok as"
| "counts_once pc = True"

definition tally :: "client \<Rightarrow> int \<Rightarrow> bool" where
  "tally c n = (case outcomes c of (t, s, l, f) \<Rightarrow> t = w64 (s + l + f + n))"

lemma quiet_simps [simp]:
  "quiet []" "quiet (Bump k # as) \<longleftrightarrow> k = CClosed \<and> quiet as" "quiet (CloseIt a # as) = quiet as"
  "quiet (PutBack a # as) = quiet as" "quiet (PutLocked a # as) = quiet as"
  by (auto simp: quiet_def)

lemma quiet_failed: "quiet as \<Longrightarrow> Bump CFailed \<notin> set as"
  by (auto simp: quiet_def)

lemma acts_ok_tail: "acts_ok (x # as) \<Longrightarrow> quiet as \<and> (x = Bump CFailed \<or> x = Bump CClosed \<or> (\<forall>k. x \<noteq> Bump k))"
  by (induction "x # as" rule: acts_ok.induct) auto

lemma acts_ok_quiet: "quiet as \<Longrightarrow> acts_ok as"
  by (cases as rule: acts_ok.cases) auto

lemma acts_ok_error [simp]: "acts_ok (error_acts u a)"
  and quiet_reply [simp]: "quiet (reply_acts mode u closing a)"
  and failed_error [simp]: "Bump CFailed \<in> set (error_acts u a)"
  by (simp_all add: error_acts_def reply_acts_def)

lemma w64_add_third: "w64 (x + (y + (z + w64 u))) = w64 (x + (y + (z + u)))"
  using w64_add_deep [of "x + y" z u] by (simp add: add.assoc)

lemma tally_bump [simp]:
  "tally c n \<Longrightarrow> tally (bump CTotal c) (n + 1)" "tally c n \<Longrightarrow> tally (bump CSuccess c) (n - 1)"
  "tally c n \<Longrightarrow> tally (bump CLimited c) (n - 1)" "tally c n \<Longrightarrow> tally (bump CFailed c) (n - 1)"
  "tally (bump COpened c) n = tally c n" "tally (bump CClosed c) n = tally c n"
  "tally (bump (CLatency d) c) n = tally c n"
  by (auto simp: tally_def outcomes_def bump_def ac_simps w64_add_third)

lemma tally_other [simp]:
  "tally (c\<lparr>cl_pool := p\<rparr>) n = tally c n" "tally (c\<lparr>cl_closed := b\<rparr>) n = tally c n"
  "tally (SetConnectionMode c mode) n = tally c n"
  by (simp_all add: tally_def outcomes_def SetConnectionMode_def)

lemma after_mode_pc: "pending (after_mode c l)" "counts_once (after_mode c l)"
  by (auto simp: after_mode_def Let_def split: option.splits)

lemma open_pc [simp]:
  "pending (open_failed opn err) = sending opn" "counts_once (open_failed opn err)"
  "has_slot (open_failed opn err) = sending opn" "pending (open_done opn a) = sending opn"
  "counts_once (open_done opn a)" "has_slot (open_done opn a) = sending opn"
  by (cases opn; simp add: send_failed_def)+

lemma get_pc [simp]:
  "pending (get_failed l err)" "counts_once (get_failed l err)" "has_slot (get_failed l err)"
  "pending (after_get l r)" "counts_once (after_get l r)"
  by (cases r; simp add: get_failed_def send_failed_def)+

lemma pending_slot: "pending pc \<Longrightarrow> has_slot pc"
  by (cases pc) auto

lemma bump_sem [simp]: "cl_sem (bump k c) = cl_sem c"
  by (simp add: bump_def)

lemma advance_acts:
  assumes "advance ops now k c w (Finishing l as r) = Some (c', w', pc')" and "acts_ok as" and "tally c n"
  shows "tally c' (n + of_bool (pending pc') - of_bool (Bump CFailed \<in> set as)) \<and> counts_once pc'
    \<and> has_slot pc' \<and> cl_sem c' = cl_sem c"
proof (cases as)
  case (Cons x bs)
  note q = acts_ok_tail [OF assms(2) [unfolded Cons]]
  then have "acts_ok bs" "Bump CFailed \<notin> set bs" by (simp_all add: acts_ok_quiet quiet_failed)
  then show ?thesis using assms(1,3) Cons q
    by (cases x) (auto simp: acts_ok_quiet split: if_splits)
qed (use assms in simp)

lemma advance_counts:
  assumes "advance ops now k c w pc = Some (c', w', pc')" and "counts_once pc" and "tally c n"
  shows "tally c' (n + of_bool (pending pc') - of_bool (pending pc)) \<and> counts_once pc'
    \<and> has_slot pc' = has_slot pc \<and> cl_sem c' = cl_sem c"
proof (cases pc)
  case (Finishing l as r)
  then show ?thesis using advance_acts assms by fastforce
next
  case (Judging l a latency resp)
  then show ?thesis using assms by auto
qed (use assms in \<open>auto simp: after_mode_pc pending_slot Let_def acts_ok_quiet quiet_failed
    split: prod.splits sum.splits if_splits\<close>)

text \<open>Waking sleepers changes no count.\<close>

definition woken :: "(nat \<rightharpoonup> send_pc) \<Rightarrow> (nat \<rightharpoonup> send_pc) \<Rightarrow> bool" where
  "woken m m' \<longleftrightarrow> (\<forall>u. m' u = m u \<or> (\<exists>l. m u = Some (GetAsleep l) \<and> m' u = Some (GetAwake l)))"

lemma woken_refl [simp]: "woken m m"
  by (simp add: woken_def)

lemma woken_signal: "send_signal m m' \<Longrightarrow> woken m m'"
  by (auto simp: send_signal_def woken_def)

lemma woken_broadcast [simp]: "woken m (send_broadcast m)"
  by (auto simp: send_broadcast_def woken_def split: option.splits send_pc.splits)

lemma woken_same: "woken m m' \<Longrightarrow> m t = Some pc \<Longrightarrow> (\<And>l. pc \<noteq> GetAsleep l) \<Longrightarrow> m' t = Some pc"
  by (auto simp: woken_def) (metis option.inject)

lemma woken_count: "woken m m' \<Longrightarrow> (\<And>l. P (GetAsleep l) = P (GetAwake l)) \<Longrightarrow> count_threads P m' = count_threads P m"
proof -
  assume w: "woken m m'" and P: "\<And>l. P (GetAsleep l) = P (GetAwake l)"
  have "u \<in> threads P m' \<longleftrightarrow> u \<in> threads P m" for u
    using w [unfolded woken_def, rule_format, of u] P by (elim disjE) (auto simp: threads_def)
  then have "threads P m' = threads P m" by blast
  then show ?thesis by (simp add: count_threads_def)
qed

lemma woken_dom: "woken m m' \<Longrightarrow> dom m' = dom m"
  by (auto simp: woken_def) (metis option.distinct(1))+

definition calls_inv :: "int option \<Rightarrow> 't send_sys \<Rightarrow> bool" where
  "calls_inv sem x \<longleftrightarrow> cl_sem (sn_client x) = sem \<and> finite (dom (sn_pcs x)) \<and> (\<forall>t pc. sn_pcs x t = Some pc \<longrightarrow> counts_once pc)
     \<and> tally (sn_client x) (count_threads pending (sn_pcs x))
     \<and> sn_used x = sem_size (sn_client x) * count_threads has_slot (sn_pcs x)
     \<and> (\<forall>n. sem = Some n \<longrightarrow> sn_used x \<le> n)"

lemma calls_put_quiet: "calls_inv sem x \<Longrightarrow> sn_pcs x t = Some (Finishing l (PutLocked a # as) r) \<Longrightarrow> quiet as"
  unfolding calls_inv_def by fastforce

lemma calls_move:
  assumes inv: "calls_inv sem x" and t: "sn_pcs x t = Some pc" "\<And>l. pc \<noteq> GetAsleep l" and m: "woken (sn_pcs x) m"
    and y: "sn_pcs y = m(t \<mapsto> pc')" and c: "counts_once pc'" "cl_sem (sn_client y) = cl_sem (sn_client x)"
    and tally: "\<And>n. tally (sn_client x) n \<Longrightarrow> tally (sn_client y) (n + of_bool (pending pc') - of_bool (pending pc))"
    and used: "sn_used y = sn_used x + sem_size (sn_client x) * (of_bool (has_slot pc') - of_bool (has_slot pc))"
    and free: "has_slot pc' \<and> \<not> has_slot pc \<longrightarrow> sem_free (sn_client x) (sn_used x)"
  shows "calls_inv sem y"
proof -
  have fin: "finite (dom m)" using inv m by (simp add: calls_inv_def woken_dom)
  have mt: "m t = Some pc" by (rule woken_same [OF m t])
  have u: "count_threads P (sn_pcs y) = count_threads P (sn_pcs x) + of_bool (P pc') - of_bool (P pc)"
    if "\<And>l. P (GetAsleep l) = P (GetAwake l)" for P
    unfolding y count_threads_upd [OF fin] woken_count [OF m that] by (simp add: mt)
  have s: "sem_size (sn_client y) = sem_size (sn_client x)" using c(2) by (simp add: sem_size_def)
  have once: "counts_once q" if "sn_pcs y w = Some q" for w q
  proof (cases "w = t")
    case True then show ?thesis using that y c(1) by simp
  next
    case False
    then have q: "m w = Some q" using that y by simp
    then show ?thesis using m [unfolded woken_def, rule_format, of w] inv by (auto simp: calls_inv_def)
  qed
  have "tally (sn_client y) (count_threads pending (sn_pcs y))"
    using tally [of "count_threads pending (sn_pcs x)"] inv by (simp add: u calls_inv_def)
  moreover have "sn_used y = sem_size (sn_client y) * count_threads has_slot (sn_pcs y)"
    using inv used by (simp add: u s calls_inv_def algebra_simps)
  moreover have "sn_used y \<le> n" if "sem = Some n" for n
  proof -
    have le: "sn_used x \<le> n" and "cl_sem (sn_client x) = Some n" using inv that by (simp_all add: calls_inv_def)
    then show ?thesis using used free by (auto simp: sem_size_def sem_free_def)
  qed
  ultimately show ?thesis using fin once y c(2) inv by (simp add: calls_inv_def)
qed

lemma send_step_calls:
  assumes "send_step ops x y" and inv: "calls_inv sem x"
  shows "calls_inv sem y"
  using assms(1)
proof (cases rule: send_step.cases)
  case (start_closed t d)
  show ?thesis by (rule calls_move [OF inv start_closed(2)]) (use start_closed in \<open>auto simp: send_goto_def\<close>)
next
  case (start t d req)
  show ?thesis by (rule calls_move [OF inv start(2)]) (use start in \<open>auto simp: send_goto_def\<close>)
next
  case (enter t l)
  show ?thesis by (rule calls_move [OF inv enter(2)]) (use enter in \<open>auto simp: send_goto_def\<close>)
next
  case (give_up t l)
  show ?thesis by (rule calls_move [OF inv give_up(2)]) (use give_up in \<open>auto simp: send_goto_def\<close>)
next
  case (move t pc now k c w pc')
  have once: "counts_once pc" using inv move(2) by (simp add: calls_inv_def)
  have asleep: "\<And>l. pc \<noteq> GetAsleep l" using move(3) by auto
  note adv = advance_counts [OF move(3) once]
  obtain n where "tally (sn_client x) n" using inv by (auto simp: calls_inv_def)
  note a = adv [OF this]
  show ?thesis by (rule calls_move [OF inv move(2) asleep])
    (use move a adv in \<open>auto simp: send_goto_def\<close>)
next
  case (get t l p r)
  show ?thesis by (rule calls_move [OF inv get(2)]) (use get in \<open>auto simp: send_goto_def set_pool_def pending_slot\<close>)
next
  case (sleep t l)
  show ?thesis by (rule calls_move [OF inv sleep(2)]) (use sleep in \<open>auto simp: send_goto_def\<close>)
next
  case (wake_closed t l)
  show ?thesis by (rule calls_move [OF inv wake_closed(2)]) (use wake_closed in \<open>auto simp: send_goto_def\<close>)
next
  case (wake t l p r)
  show ?thesis by (rule calls_move [OF inv wake(2)]) (use wake in \<open>auto simp: send_goto_def set_pool_def pending_slot\<close>)
next
  case (signal t l err m)
  show ?thesis by (rule calls_move [OF inv signal(2) _ woken_signal [OF signal(3)]])
    (use signal in \<open>auto simp: send_goto_def\<close>)
next
  case (put_closing t l a as r p m)
  have "woken (sn_pcs x) m" using put_closing(5) by (auto intro: woken_signal split: if_splits)
  then show ?thesis using calls_put_quiet [OF inv put_closing(2)]
    by (intro calls_move [OF inv put_closing(2)])
      (use put_closing in \<open>auto simp: send_goto_def set_pool_def quiet_failed acts_ok_quiet\<close>)
next
  case (put t l a as r p)
  show ?thesis using calls_put_quiet [OF inv put(2)]
    by (intro calls_move [OF inv put(2)])
      (use put in \<open>auto simp: send_goto_def set_pool_def quiet_failed acts_ok_quiet\<close>)
next
  case (finish t l r)
  show ?thesis by (rule calls_move [OF inv finish(2)]) (use finish in \<open>auto simp: send_goto_def\<close>)
next
  case (resume t d r)
  show ?thesis by (rule calls_move [OF inv resume(2)]) (use resume in \<open>auto simp: send_goto_def\<close>)
next
  case (open_dedicated t d d')
  show ?thesis by (rule calls_move [OF inv open_dedicated(2)]) (use open_dedicated in \<open>auto simp: send_goto_def\<close>)
next
  case (close_dedicated t a)
  show ?thesis by (rule calls_move [OF inv close_dedicated(2)]) (use close_dedicated in \<open>auto simp: send_goto_def\<close>)
next
  case (close t d)
  show ?thesis by (rule calls_move [OF inv close(2)]) (use close in \<open>auto simp: send_goto_def\<close>)
next
  case (close_pool t d p tp conns)
  show ?thesis by (rule calls_move [OF inv close_pool(2)]) (use close_pool in \<open>auto simp: send_goto_def set_pool_def\<close>)
next
  case (close_broadcast t d)
  show ?thesis by (rule calls_move [OF inv close_broadcast(2)]) (use close_broadcast in \<open>auto simp: send_goto_def\<close>)
qed (use inv in \<open>auto simp: calls_inv_def SetConnectionMode_def sem_size_def tally_def outcomes_def\<close>)

lemma calls_init:
  "calls_inv (cl_sem (NewClient config)) (send_init (NewClient config) w n)"
proof -
  have none: "count_threads P (\<lambda>t. if t < n then Some (Out None) else None) = 0" if "\<not> P (Out None)" for P
    by (rule count_threads_none) (use that in \<open>auto split: if_splits\<close>)
  have "dom (\<lambda>t. if t < n then Some (Out None) else None) = {..<n}" by (auto split: if_splits)
  then show ?thesis
    by (auto simp: calls_inv_def send_init_def none tally_def outcomes_def NewClient_def Let_def w64_id in64_def
        split: if_splits)
qed

lemma calls_reach:
  "(send_step ops)\<^sup>*\<^sup>* (send_init (NewClient config) w n) x \<Longrightarrow> calls_inv (cl_sem (NewClient config)) x"
  by (induction rule: rtranclp_induct) (auto intro: calls_init send_step_calls)

section \<open>A goroutine that is not disturbed\<close>

text \<open>A goroutine that is neither in a call nor opening a connection, and a step inside the calls.\<close>

fun elsewhere :: "send_pc \<Rightarrow> bool" where
  "elsewhere (Out d) = True"
| "elsewhere (Back d r) = True"
| "elsewhere (ClosingPool d) = True"
| "elsewhere (CloseBroadcast d) = True"
| "elsewhere _ = False"

definition call_step :: "'t transport_ops option \<Rightarrow> 't send_sys \<Rightarrow> 't send_sys \<Rightarrow> bool" where
  "call_step ops x y \<longleftrightarrow>
     send_step ops x y \<and> (\<forall>t pc. sn_pcs x t = Some pc \<and> elsewhere pc \<longrightarrow> sn_pcs y t = Some pc)"

lemma call_steps_send: "(call_step ops)\<^sup>*\<^sup>* x y \<Longrightarrow> (send_step ops)\<^sup>*\<^sup>* x y"
  by (erule rtranclp_mono [THEN predicate2D, rotated]) (auto simp: call_step_def)

text \<open>The others, in \<open>m\<close>, stay where they are, and none of them sleeps.\<close>

definition solo :: "(nat \<rightharpoonup> send_pc) \<Rightarrow> nat \<Rightarrow> client \<Rightarrow> 't world \<Rightarrow> int \<Rightarrow> bool \<Rightarrow> send_pc \<Rightarrow> 't send_sys" where
  "solo m t c w u cancelled pc =
     \<lparr>sn_client = c, sn_world = w, sn_lock = None, sn_used = u, sn_cancelled = cancelled, sn_pcs = m(t \<mapsto> pc)\<rparr>"

definition calm :: "(nat \<rightharpoonup> send_pc) \<Rightarrow> bool" where
  "calm m \<longleftrightarrow> (\<forall>u l. m u \<noteq> Some (GetAsleep l))"

lemma solo_sel [simp]:
  "sn_client (solo m t c w u b pc) = c" "sn_world (solo m t c w u b pc) = w" "sn_lock (solo m t c w u b pc) = None"
  "sn_used (solo m t c w u b pc) = u" "sn_cancelled (solo m t c w u b pc) = b" "sn_pcs (solo m t c w u b pc) = m(t \<mapsto> pc)"
  by (simp_all add: solo_def)

lemma calm_signal: "calm m \<Longrightarrow> (\<And>l. pc \<noteq> GetAsleep l) \<Longrightarrow> send_signal (m(t \<mapsto> pc)) (m(t \<mapsto> pc))"
  by (auto simp: send_signal_def calm_def)

lemma calm_broadcast: "calm m \<Longrightarrow> (\<And>l. pc \<noteq> GetAsleep l) \<Longrightarrow> send_broadcast (m(t \<mapsto> pc)) = m(t \<mapsto> pc)"
  by (auto simp: send_broadcast_def calm_def fun_eq_iff split: option.split send_pc.split)

text \<open>Taking the first step of a run.\<close>

lemma solo_first: "send_step ops x y \<Longrightarrow> (send_step ops)\<^sup>*\<^sup>* y z \<Longrightarrow> (send_step ops)\<^sup>*\<^sup>* x z"
  by (rule converse_rtranclp_into_rtranclp)

lemma solo_inside:
  assumes "send_step ops (solo m t c w u b pc) (solo m t c' w' u' b' pc')"
    and "(call_step ops)\<^sup>*\<^sup>* (solo m t c' w' u' b' pc') z" and "\<not> elsewhere pc"
  shows "(call_step ops)\<^sup>*\<^sup>* (solo m t c w u b pc) z"
  by (rule converse_rtranclp_into_rtranclp [OF _ assms(2)]) (use assms(1,3) in \<open>auto simp: call_step_def\<close>)

lemma advance_not_elsewhere: "advance ops now k c w pc = Some z \<Longrightarrow> \<not> elsewhere pc"
  by (cases pc) simp_all

lemma solo_move:
  assumes "advance ops now k c w pc = Some (c', w', pc')" and "(call_step ops)\<^sup>*\<^sup>* (solo m t c' w' u b pc') z"
  shows "(call_step ops)\<^sup>*\<^sup>* (solo m t c w u b pc) z"
proof (rule solo_inside [OF _ assms(2)])
  have "send_step ops (solo m t c w u b pc)
      (send_goto t pc' ((solo m t c w u b pc)\<lparr>sn_client := c', sn_world := w'\<rparr>))"
    by (rule send_step.move) (use assms(1) in simp_all)
  then show "send_step ops (solo m t c w u b pc) (solo m t c' w' u b pc')" by (simp add: solo_def send_goto_def)
  show "\<not> elsewhere pc" using advance_not_elsewhere [OF assms(1)] .
qed

lemma put_alone:
  assumes calm: "calm m" and "put_connection ops c w a = (c', w')" and "(call_step ops)\<^sup>*\<^sup>* (solo m t c' w' u b (Finishing l as r)) z"
  shows "(call_step ops)\<^sup>*\<^sup>* (solo m t c w u b (Finishing l (PutBack a # as) r)) z"
proof (cases "pl_closed (cl_pool c)")
  case True
  then have "c' = c" "w' = close_connection ops w a"
    using assms(2) by (auto simp: put_connection_def Pool_Put_def put_pass_def close_connection_def Let_def case_prod_beta)
  with assms(3) True show ?thesis by - (rule solo_move; simp)
next
  case False
  obtain p closing where p: "put_pass (cl_pool c) (wd_conns w ! a) a = (p, closing)" by fastforce
  have "c' = c\<lparr>cl_pool := p\<rparr> \<and> w' = (if closing then close_connection ops w a else w)"
    using assms(2) p by (auto simp: put_connection_def Pool_Put_def close_connection_def Let_def case_prod_beta)
  then have z: "(call_step ops)\<^sup>*\<^sup>* (solo m t (c\<lparr>cl_pool := p\<rparr>) (if closing then close_connection ops w a else w)
      u b (Finishing l as r)) z" using assms(3) by simp
  have "send_step ops (solo m t c w u b (Finishing l (PutLocked a # as) r))
      (solo m t (c\<lparr>cl_pool := p\<rparr>) (if closing then close_connection ops w a else w) u b (Finishing l as r))"
  proof (cases closing)
    case True
    have "send_signal (m(t \<mapsto> Finishing l (PutLocked a # as) r)) (m(t \<mapsto> Finishing l (PutLocked a # as) r))"
      by (rule calm_signal [OF calm]) simp
    with send_step.put_closing [of "solo m t c w u b (Finishing l (PutLocked a # as) r)" t l a as r p
        "m(t \<mapsto> Finishing l (PutLocked a # as) r)" ops] p True False
    show ?thesis by (simp add: solo_def send_goto_def set_pool_def)
  next
    case False
    with send_step.put [of "solo m t c w u b (Finishing l (PutLocked a # as) r)" t l a as r p ops] p
    show ?thesis by (simp add: solo_def send_goto_def set_pool_def calm_broadcast [OF calm])
  qed
  from solo_move [OF _ solo_inside [OF this z]] show ?thesis using False by simp
qed

text \<open>The three parts of a call: finding a connection, using it, letting it go.\<close>

lemma use_alone:
  assumes "Connection_Send ops (wd_tp w) (wd_conns w ! a) (lv_req l) = (tp, conn, r)"
    and "(call_step ops)\<^sup>*\<^sup>* (solo m t c (w\<lparr>wd_tp := tp, wd_conns := (wd_conns w)[a := conn]\<rparr>) u b (Answered l a r)) z"
  shows "(call_step ops)\<^sup>*\<^sup>* (solo m t c w u b (Using l a)) z"
proof (cases "conn_closed (wd_conns w ! a)")
  case True
  with assms(1) have "tp = wd_tp w" "conn = wd_conns w ! a" "r = Inl ConnectionClosed"
    by (auto simp: Connection_Send_def)
  with assms(2) True show ?thesis by - (rule solo_move; simp)
next
  case False
  let ?d = "fst (IncrementRequests (wd_conns w ! a))" and ?s = "snd (IncrementRequests (wd_conns w ! a))"
  have ids: "conn_serverID (wd_conns w ! a) = conn_serverID ?d" "conn_id (wd_conns w ! a) = conn_id ?d"
    by (simp_all add: IncrementRequests_def Let_def)
  have same: "conn_serverID ((wd_conns w)[a := ?d] ! a) = conn_serverID ?d"
    "conn_id ((wd_conns w)[a := ?d] ! a) = conn_id ?d"
    by (cases "a < length (wd_conns w)"; simp add: ids list_update_beyond)+
  have call: "transport_call ops (wd_tp w) ((wd_conns w)[a := ?d] ! a) ?s (lv_req l) = (tp, r)" "conn = ?d"
    using assms(1) False
    by (auto simp: Connection_Send_def transport_call_def same Let_def case_prod_beta split: option.splits sum.splits)
  have "(call_step ops)\<^sup>*\<^sup>* (solo m t c (w\<lparr>wd_conns := (wd_conns w)[a := ?d]\<rparr>) u b (Calling l a ?s)) z"
    by (rule solo_move [OF _ assms(2)]) (simp add: call)
  then have "(call_step ops)\<^sup>*\<^sup>* (solo m t c w u b (Incrementing l a)) z"
    by - (rule solo_move; simp add: case_prod_beta)
  then show ?thesis using False by - (rule solo_move; simp)
qed

lemma drop_alone:
  assumes "(call_step ops)\<^sup>*\<^sup>* (solo m t (bump CClosed c) (close_connection ops w a) u b (Finishing l [] r)) z"
  shows "(call_step ops)\<^sup>*\<^sup>* (solo m t c w u b (Finishing l [CloseIt a, Bump CClosed] r)) z"
proof -
  have "(call_step ops)\<^sup>*\<^sup>* (solo m t c (close_connection ops w a) u b (Finishing l [Bump CClosed] r)) z"
    using assms by - (rule solo_move; simp)
  then show ?thesis by - (rule solo_move; simp)
qed

lemma failed_alone:
  assumes calm: "calm m" and "release_failed ops usePool (bump CFailed c) w a = (c', w')"
    and "(call_step ops)\<^sup>*\<^sup>* (solo m t c' w' u b (Finishing l [] r)) z"
  shows "(call_step ops)\<^sup>*\<^sup>* (solo m t c w u b (Finishing l (error_acts usePool a) r)) z"
proof (cases usePool)
  case True
  with assms have "(call_step ops)\<^sup>*\<^sup>* (solo m t (bump CFailed c) w u b (Finishing l [PutBack a] r)) z"
    by (intro put_alone [OF calm]) (simp_all add: release_failed_def)
  then show ?thesis using True by - (rule solo_move; simp add: error_acts_def)
next
  case False
  with assms(2) have "c' = bump CClosed (bump CFailed c)" "w' = close_connection ops w a"
    by (auto simp: release_failed_def)
  with assms(3) have "(call_step ops)\<^sup>*\<^sup>* (solo m t (bump CFailed c) w u b (Finishing l [CloseIt a, Bump CClosed] r)) z"
    by (intro drop_alone) simp
  then show ?thesis using False by - (rule solo_move; simp add: error_acts_def)
qed

lemma reply_alone:
  assumes calm: "calm m" and "release ops mode usePool c w a resp = (c', w', resp')"
    and "closing = (ShouldClose resp \<or> conn_ShouldClose (wd_conns w ! a))"
    and "(call_step ops)\<^sup>*\<^sup>* (solo m t c' w' u b (Finishing l [] r)) z"
  shows "(call_step ops)\<^sup>*\<^sup>* (solo m t c w u b (Finishing l (reply_acts mode usePool closing a) r)) z"
    and "final_response mode closing latency resp = resp'\<lparr>ProcessingTime := latency\<rparr>"
proof -
  obtain c1 w1 where p: "put_connection ops c w a = (c1, w1)" by fastforce
  have kept: "(call_step ops)\<^sup>*\<^sup>* (solo m t c w u b (Finishing l [PutBack a, Bump CClosed] r)) z"
    if "(call_step ops)\<^sup>*\<^sup>* (solo m t (bump CClosed c1) w1 u b (Finishing l [] r)) z"
    by (rule put_alone [OF calm p], rule solo_move [OF _ that]) simp
  show "(call_step ops)\<^sup>*\<^sup>* (solo m t c w u b (Finishing l (reply_acts mode usePool closing a) r)) z"
    using assms p drop_alone [of ops m t c w a u b l r z] kept put_alone [OF calm p, of t u b l "[]" r z]
    by (auto simp: release_def reply_acts_def split: if_splits)
  show "final_response mode closing latency resp = resp'\<lparr>ProcessingTime := latency\<rparr>"
    using assms(2,3) p by (auto simp: release_def final_response_def split: if_splits)
qed

lemma opening_alone:
  assumes "open_connection c w k now = (c', w', r)"
    and z: "(call_step ops)\<^sup>*\<^sup>* (solo m t c' w' u b (case r of Inr a \<Rightarrow> open_done opn a | Inl err \<Rightarrow> open_failed opn err)) z"
  shows "(call_step ops)\<^sup>*\<^sup>* (solo m t c w u b (Opening opn)) z"
proof -
  obtain lb pick where pick: "PickServer k (wd_lb w) = (lb, pick)" by fastforce
  let ?w = "w\<lparr>wd_lb := lb\<rparr>"
  show ?thesis
  proof (cases pick)
    case (Inl err)
    with pick assms show ?thesis by - (rule solo_move [where now = now and k = k]; auto simp: open_connection_def)
  next
    case server: (Inr server)
    show ?thesis
    proof (cases "Pool_Create (cl_pool c) now (si_ID server)")
      case (Inl err)
      then have "(call_step ops)\<^sup>*\<^sup>* (solo m t c ?w u b (Creating opn (si_ID server))) z"
        using assms pick server by - (rule solo_move [where now = now]; auto simp: open_connection_def)
      then show ?thesis using pick server by - (rule solo_move [where k = k]; simp)
    next
      case conn: (Inr conn)
      let ?w2 = "?w\<lparr>wd_conns := wd_conns w @ [conn]\<rparr>"
      have "c' = bump COpened c" "w' = ?w2" "r = Inr (length (wd_conns w))"
        using assms(1) pick server conn by (auto simp: open_connection_def)
      with z have "(call_step ops)\<^sup>*\<^sup>* (solo m t c ?w2 u b (Opened opn (length (wd_conns w)))) z"
        by - (rule solo_move; simp)
      then have "(call_step ops)\<^sup>*\<^sup>* (solo m t c ?w u b (Creating opn (si_ID server))) z"
        using conn by - (rule solo_move [where now = now]; simp)
      then show ?thesis using pick server by - (rule solo_move [where k = k]; simp)
    qed
  qed
qed

lemma open_alone:
  assumes "fail_with (open_connection c w k now) = (c', w', r)"
    and z: "(call_step ops)\<^sup>*\<^sup>* (solo m t c' w' u b (case r of Inr a \<Rightarrow> Using l a | Inl err \<Rightarrow> Finishing l [] (Inl err))) z"
  shows "(call_step ops)\<^sup>*\<^sup>* (solo m t c w u b (Opening (InSend l))) z"
proof -
  obtain c1 w1 r1 where o: "open_connection c w k now = (c1, w1, r1)" by (metis prod_cases3)
  show ?thesis
  proof (rule opening_alone [OF o], cases r1)
    case (Inl err)
    with assms o have "(call_step ops)\<^sup>*\<^sup>* (solo m t c1 w1 u b (send_failed l err)) z"
      unfolding send_failed_def by - (rule solo_move; auto simp: fail_with_def)
    then show "(call_step ops)\<^sup>*\<^sup>* (solo m t c1 w1 u b (case r1 of Inr a \<Rightarrow> open_done (InSend l) a | Inl err \<Rightarrow> open_failed (InSend l) err)) z"
      using Inl by simp
  next
    case (Inr a)
    with assms o show "(call_step ops)\<^sup>*\<^sup>* (solo m t c1 w1 u b (case r1 of Inr a \<Rightarrow> open_done (InSend l) a | Inl err \<Rightarrow> open_failed (InSend l) err)) z"
      by (auto simp: fail_with_def)
  qed
qed

lemma pooled_alone:
  assumes calm: "calm m" and "acquire_pooled c w k now = Some (c', w', r)"
    and z: "(call_step ops)\<^sup>*\<^sup>* (solo m t c' w' u b (case r of Inr a \<Rightarrow> Using l a | Inl err \<Rightarrow> Finishing l [] (Inl err))) z"
  shows "(call_step ops)\<^sup>*\<^sup>* (solo m t c w u b (GetStart l)) z"
proof (cases "pl_closed (cl_pool c)")
  case True
  then have "c' = bump CFailed c" "w' = w" "r = Inl (Wrapped ''failed to get connection'' PoolClosed)"
    using assms(2) by (auto simp: acquire_pooled_def Pool_Get_def)
  with z have "(call_step ops)\<^sup>*\<^sup>* (solo m t c w u b (get_failed l PoolClosed)) z"
    unfolding get_failed_def send_failed_def by - (rule solo_move; simp)
  then show ?thesis using True by - (rule solo_move; simp)
next
  case False
  obtain p oc where g: "get_pass (cl_pool c) = (p, oc)" by fastforce
  let ?c = "c\<lparr>cl_pool := p\<rparr>"
  have "oc \<noteq> MustWait" using assms(2) False g by (auto simp: acquire_pooled_def Pool_Get_def)
  then have enter: "send_step ops (solo m t c w u b (GetEnter l)) (solo m t ?c w u b (after_get l oc))"
    using send_step.get [of "solo m t c w u b (GetEnter l)" t l p oc ops] g
    by (simp add: solo_def send_goto_def set_pool_def after_holder_def)
  have "(call_step ops)\<^sup>*\<^sup>* (solo m t ?c w u b (after_get l oc)) z"
  proof (cases oc)
    case (Reused a)
    then have "c' = bump COpened ?c" "w' = w" "r = Inr a"
      using assms(2) False g by (auto simp: acquire_pooled_def Pool_Get_def)
    with z Reused show ?thesis by - (rule solo_move; simp)
  next
    case Reserved
    obtain lb pr where pick: "picker k (wd_lb w) = (lb, pr)" by fastforce
    show ?thesis
    proof (cases pr)
      case (Inl err)
      let ?c2 = "?c\<lparr>cl_pool := add_connections (-1) p\<rparr>" and ?w2 = "w\<lparr>wd_lb := lb\<rparr>"
      have "c' = bump CFailed ?c2" "w' = ?w2" "r = Inl (Wrapped ''failed to get connection'' err)"
        using assms(2) False g Reserved pick Inl by (auto simp: acquire_pooled_def Pool_Get_def)
      with z have failed: "(call_step ops)\<^sup>*\<^sup>* (solo m t ?c2 ?w2 u b (get_failed l err)) z"
        unfolding get_failed_def send_failed_def by - (rule solo_move; simp)
      have "send_signal (m(t \<mapsto> Undone l err)) (m(t \<mapsto> Undone l err))" by (rule calm_signal [OF calm]) simp
      with send_step.signal [of "solo m t ?c2 ?w2 u b (Undone l err)" t l err "m(t \<mapsto> Undone l err)" ops]
      have "send_step ops (solo m t ?c2 ?w2 u b (Undone l err)) (solo m t ?c2 ?w2 u b (get_failed l err))"
        by (simp add: solo_def send_goto_def)
      from solo_inside [OF this failed]
      have "(call_step ops)\<^sup>*\<^sup>* (solo m t ?c ?w2 u b (PickErr l err)) z" by - (rule solo_move; simp)
      then show ?thesis using Reserved pick Inl by - (rule solo_move [where k = k]; simp)
    next
      case (Inr serverID)
      then have "c' = bump COpened ?c" "r = Inr (length (wd_conns w))"
        "w' = w\<lparr>wd_lb := lb, wd_conns := wd_conns w @ [NewConnection now (new_conn_id p serverID now) serverID
           (pl_maxRequestsPerConn p)]\<rparr>"
        using assms(2) False g Reserved pick by (auto simp: acquire_pooled_def Pool_Get_def Let_def)
      with z have "(call_step ops)\<^sup>*\<^sup>* (solo m t ?c w' u b (Opened (InSend l) (length (wd_conns w)))) z"
        by - (rule solo_move; simp)
      then show ?thesis using Reserved pick Inr \<open>w' = _\<close>
        by - (rule solo_move [where now = now and k = k]; simp add: Let_def)
    qed
  qed (use \<open>oc \<noteq> MustWait\<close> in simp)
  from solo_inside [OF enter this] show ?thesis using False by - (rule solo_move; simp)
qed

lemma acquire_alone:
  assumes calm: "calm m" and "acquire ops c w k now (lv_dedicated l) = Some (c', w', r)"
    and l: "lv_mode l = cl_mode c" "l' = l\<lparr>lv_usePool := use_pool c\<rparr>"
    and z: "(call_step ops)\<^sup>*\<^sup>* (solo m t c' w' u b (case r of Inr a \<Rightarrow> Using l' a | Inl err \<Rightarrow> Finishing l' [] (Inl err))) z"
  shows "(call_step ops)\<^sup>*\<^sup>* (solo m t c w u b (ModeRead l)) z"
proof -
  have mode: "after_mode c l =
      (if cl_mode c = ConnectionModeDedicated
       then (case lv_dedicated l of None \<Rightarrow> Opening (InSend l') | Some a \<Rightarrow> Checking l' a)
       else if use_pool c then GetStart l' else Opening (InSend l'))"
    by (simp add: after_mode_def l Let_def split: option.split)
  have "(call_step ops)\<^sup>*\<^sup>* (solo m t c w u b (after_mode c l)) z"
  proof (cases "cl_mode c = ConnectionModeDedicated")
    case False
    then show ?thesis
      using assms(2) z by (auto simp: mode acquire_def intro: pooled_alone [OF calm] open_alone)
  next
    case ded: True
    show ?thesis
    proof (cases "lv_dedicated l")
      case None
      with assms(2) ded show ?thesis
        using open_alone [OF _ z] by (simp add: mode acquire_def acquire_dedicated_def CreateDedicatedConnection_def)
    next
      case (Some a)
      show ?thesis
      proof (cases "conn_ShouldClose (wd_conns w ! a)")
        case True
        with assms(2) ded Some
        have "fail_with (open_connection (bump CClosed c) (close_connection ops w a) k now) = (c', w', r)"
          by (simp add: acquire_def acquire_dedicated_def CreateDedicatedConnection_def)
        from open_alone [OF this z]
        have "(call_step ops)\<^sup>*\<^sup>* (solo m t c (close_connection ops w a) u b (StaleClosed l')) z" by - (rule solo_move; simp)
        then have "(call_step ops)\<^sup>*\<^sup>* (solo m t c w u b (Stale l' a)) z" by - (rule solo_move; simp)
        then show ?thesis using True ded Some by (simp add: mode) (rule solo_move; simp)
      next
        case False
        with assms(2) ded Some have "c' = c" "w' = w" "r = Inr a"
          by (simp_all add: acquire_def acquire_dedicated_def)
        then show ?thesis using z False ded Some by (simp add: mode) (rule solo_move; simp)
      qed
    qed
  qed
  then show ?thesis by - (rule solo_move; simp)
qed

lemma advance_sem: "advance ops now k c w pc = Some (c', w', pc') \<Longrightarrow> cl_sem c' = cl_sem c"
  by (cases "(ops, now, k, c, w, pc)" rule: advance.cases)
    (auto simp: Let_def split: prod.splits sum.splits if_splits)

lemma send_step_sem: "send_step ops x y \<Longrightarrow> cl_sem (sn_client y) = cl_sem (sn_client x)"
  by (induction rule: send_step.induct)
    (auto simp: send_goto_def set_pool_def SetConnectionMode_def dest: advance_sem)

lemma send_run_sem: "(send_step ops)\<^sup>*\<^sup>* x y \<Longrightarrow> cl_sem (sn_client y) = cl_sem (sn_client x)"
  by (induction rule: rtranclp_induct) (auto dest: send_step_sem)

text \<open>A call from past the semaphore to where only the slot is left to be given back.\<close>

lemma send_body_alone:
  assumes calm: "calm m" and "Client_Send ops c w clk d acquired req = Some (c', w', r)"
    and "\<not> cl_closed c" and "cl_sem c \<noteq> None \<longrightarrow> acquired"
  shows "\<exists>l. lv_dedicated l = d \<and> (call_step ops)\<^sup>*\<^sup>* (solo m t c w u b (Entered (fresh_locals d req)))
    (solo m t c' w' u b (Finishing l [] r))"
proof -
  let ?c = "bump CTotal c" and ?begun = "(fresh_locals d req)\<lparr>lv_start := sd_start clk, lv_req := merge_headers c req\<rparr>"
  let ?moded = "?begun\<lparr>lv_mode := cl_mode c\<rparr>" let ?l = "?moded\<lparr>lv_usePool := use_pool ?c\<rparr>"
  let ?req = "req\<lparr>req_Headers := cl_headers ?c ++ req_Headers req, req_ClientID := cl_id ?c\<rparr>"
  let ?lat = "time_sub (sd_done clk) (sd_start clk)"
  have req: "?req = merge_headers c req" by (simp add: merge_headers_def bump_def)
  have d: "lv_dedicated ?moded = d" "lv_dedicated ?l = d" by (simp_all add: fresh_locals_def)
  obtain c1 w1 r1 where a: "acquire ops ?c w (sd_choice clk) (sd_connect clk) d = Some (c1, w1, r1)"
    using assms by (auto simp: Client_Send_def Let_def split: option.splits)
  have acq: "(call_step ops)\<^sup>*\<^sup>* (solo m t c w u b (Entered (fresh_locals d req))) z"
    if "(call_step ops)\<^sup>*\<^sup>* (solo m t c1 w1 u b (case r1 of Inr a \<Rightarrow> Using ?l a | Inl err \<Rightarrow> Finishing ?l [] (Inl err))) z" for z
  proof -
    have "acquire ops ?c w (sd_choice clk) (sd_connect clk) (lv_dedicated ?moded) = Some (c1, w1, r1)"
      using a by (simp only: d)
    then have "(call_step ops)\<^sup>*\<^sup>* (solo m t ?c w u b (ModeRead ?moded)) z"
      by (rule acquire_alone [OF calm _ _ refl that]) simp
    then have "(call_step ops)\<^sup>*\<^sup>* (solo m t ?c w u b (Counted ?begun)) z"
      by - (rule solo_move; simp)
    then show ?thesis by - (rule solo_move [where now = "sd_start clk"]; simp add: fresh_locals_def)
  qed
  show ?thesis
  proof (cases r1)
    case (Inl err)
    then have "c' = c1" "w' = w1" "r = Inl err" using assms a by (auto simp: Client_Send_def Let_def)
    then show ?thesis using acq Inl d(2) by (intro exI [of _ ?l]) simp
  next
    case (Inr x)
    obtain tp conn rs where s: "Connection_Send ops (wd_tp w1) (wd_conns w1 ! x) ?req = (tp, conn, rs)"
      by (metis prod_cases3)
    let ?w = "w1\<lparr>wd_tp := tp, wd_conns := (wd_conns w1)[x := conn]\<rparr>" and ?c2 = "bump (CLatency ?lat) c1"
    have sent: "Connection_Send ops (wd_tp w1) (wd_conns w1 ! x) (lv_req ?l) = (tp, conn, rs)" using s req by simp
    have pool: "lv_usePool ?l = use_pool ?c" "lv_mode ?l = cl_mode c" by simp_all
    have use: "(call_step ops)\<^sup>*\<^sup>* (solo m t c w u b (Entered (fresh_locals d req))) z"
      if "(call_step ops)\<^sup>*\<^sup>* (solo m t c1 ?w u b (Answered ?l x rs)) z" for z
      using acq use_alone [OF sent that] Inr by simp
    show ?thesis
    proof (cases rs)
      case (Inl err)
      have f: "release_failed ops (use_pool ?c) (bump CFailed ?c2) ?w x = (c', w')" "r = Inl err"
        using assms a \<open>r1 = Inr x\<close> s Inl by (auto simp: Client_Send_def Let_def split: prod.splits)
      have "(call_step ops)\<^sup>*\<^sup>* (solo m t ?c2 ?w u b (Finishing ?l (error_acts (use_pool ?c) x) r)) (solo m t c' w' u b (Finishing ?l [] r))"
        by (rule failed_alone [OF calm f(1)]) simp
      then have "(call_step ops)\<^sup>*\<^sup>* (solo m t c1 ?w u b (Answered ?l x rs)) (solo m t c' w' u b (Finishing ?l [] r))"
        using Inl f(2) by - (rule solo_move [where now = "sd_done clk"]; simp add: Let_def)
      then show ?thesis using use d(2) by blast
    next
      case (Inr resp)
      let ?c3 = "bump (if RateLimited resp then CLimited else CSuccess) ?c2"
      let ?closing = "ShouldClose resp \<or> conn_ShouldClose (wd_conns ?w ! x)"
      obtain resp' where f: "release ops (cl_mode c) (use_pool ?c) ?c3 ?w x resp = (c', w', resp')"
          "r = Inr (resp'\<lparr>ProcessingTime := ?lat\<rparr>)"
        using assms a \<open>r1 = Inr x\<close> s Inr by (auto simp: Client_Send_def Let_def split: prod.splits)
      note reply = reply_alone [OF calm f(1) refl]
      have "(call_step ops)\<^sup>*\<^sup>* (solo m t ?c3 ?w u b (Finishing ?l (reply_acts (cl_mode c) (use_pool ?c) ?closing x) r))
          (solo m t c' w' u b (Finishing ?l [] r))"
        by (rule reply(1)) simp
      then have "(call_step ops)\<^sup>*\<^sup>* (solo m t ?c3 ?w u b (Judged ?l x ?lat resp)) (solo m t c' w' u b (Finishing ?l [] r))"
        using reply(2) [OF rtranclp.rtrancl_refl, of ?lat] f(2) by - (rule solo_move; simp add: Let_def)
      then have "(call_step ops)\<^sup>*\<^sup>* (solo m t ?c2 ?w u b (Judging ?l x ?lat resp)) (solo m t c' w' u b (Finishing ?l [] r))"
        by - (rule solo_move; simp)
      then have "(call_step ops)\<^sup>*\<^sup>* (solo m t c1 ?w u b (Answered ?l x rs)) (solo m t c' w' u b (Finishing ?l [] r))"
        using Inr by - (rule solo_move [where now = "sd_done clk"]; simp add: Let_def fresh_locals_def)
      then show ?thesis using use d(2) by blast
    qed
  qed
qed

text \<open>A call from the gate to its result.\<close>

lemma call_alone:
  assumes "Client_Send ops c w clk d acquired req = Some (c', w', r)" and calm: "calm m" and opened: "\<not> cl_closed c"
    and sem: "cl_sem c \<noteq> None \<longrightarrow> (if acquired then sem_free c u else cancelled)"
  shows "(call_step ops)\<^sup>*\<^sup>* (solo m t c w u cancelled (Gate (fresh_locals d req))) (solo m t c' w' u cancelled (Back d r))"
proof (cases "cl_sem c \<noteq> None \<longrightarrow> acquired")
  case False
  let ?l = "fresh_locals d req"
  from False opened assms(1) have "c' = c" "w' = w" "r = Inl ContextDone" by (auto simp: Client_Send_def)
  moreover have step: "send_step ops (solo m t c w u cancelled (Gate ?l)) (solo m t c w u cancelled (Back d (Inl ContextDone)))"
    using send_step.give_up [of "solo m t c w u cancelled (Gate ?l)" t ?l ops] False sem
    by (simp add: solo_def send_goto_def fresh_locals_def)
  ultimately show ?thesis using solo_inside [OF step rtranclp.rtrancl_refl] by simp
next
  case True
  let ?l = "fresh_locals d req" and ?u = "u + sem_size c"
  obtain l where l: "lv_dedicated l = d"
    "(call_step ops)\<^sup>*\<^sup>* (solo m t c w ?u cancelled (Entered ?l)) (solo m t c' w' ?u cancelled (Finishing l [] r))"
    using send_body_alone [OF calm assms(1) opened True] by blast
  have "sem_size c' = sem_size c" using send_run_sem [OF call_steps_send [OF l(2)]] by (simp add: sem_size_def)
  then have "send_step ops (solo m t c' w' ?u cancelled (Finishing l [] r)) (solo m t c' w' u cancelled (Back d r))"
    using send_step.finish [of "solo m t c' w' ?u cancelled (Finishing l [] r)" t l r ops] l(1)
    by (simp add: solo_def send_goto_def)
  note last = solo_inside [OF this rtranclp.rtrancl_refl]
  have "sem_free c u" using sem True by (auto simp: sem_free_def)
  then have "send_step ops (solo m t c w u cancelled (Gate ?l)) (solo m t c w ?u cancelled (Entered ?l))"
    using send_step.enter [of "solo m t c w u cancelled (Gate ?l)" t ?l ops] by (simp add: solo_def send_goto_def)
  from solo_inside [OF this rtranclp_trans [OF l(2) last]] show ?thesis by simp
qed

section \<open>Properties\<close>

definition demo_call_request :: request where
  "demo_call_request = \<lparr>req_ID = ''req'', req_ClientID = [], req_Headers = Map.empty, req_Timestamp = now_at 0 0\<rparr>"

lemma demo_entered:
  "(send_step demo_ops)\<^sup>*\<^sup>* (send_init demo_client demo_world 1)
    (solo Map.empty 0 demo_client demo_world 1 False (Entered (fresh_locals None req)))"
proof -
  have sem: "cl_sem demo_client = Some 1" "\<not> cl_closed demo_client"
    by (simp_all add: demo_client_def NewClient_def Let_def)
  have "send_init demo_client demo_world 1 = solo Map.empty 0 demo_client demo_world 0 False (Out None)"
    by (auto simp: send_init_def solo_def fun_eq_iff)
  moreover have "send_step demo_ops (solo Map.empty 0 demo_client demo_world 0 False (Out None))
      (solo Map.empty 0 demo_client demo_world 0 False (Gate (fresh_locals None req)))"
    using send_step.start [of "solo Map.empty 0 demo_client demo_world 0 False (Out None)" 0 None demo_ops req] sem
    by (simp add: solo_def send_goto_def)
  moreover have "send_step demo_ops (solo Map.empty 0 demo_client demo_world 0 False (Gate (fresh_locals None req)))
      (solo Map.empty 0 demo_client demo_world 1 False (Entered (fresh_locals None req)))"
    using send_step.enter [of "solo Map.empty 0 demo_client demo_world 0 False (Gate (fresh_locals None req))" 0
        "fresh_locals None req" demo_ops] sem
    by (simp add: solo_def send_goto_def sem_free_def sem_size_def)
  ultimately show ?thesis using solo_first [OF _ solo_first [OF _ rtranclp.rtrancl_refl]] by metis
qed

text \<open>
  C26. Every request is counted, at every moment, and the concurrency is bounded. However the
  goroutines that share a client interleave, whatever the transport and the balancer do, the
  requests begun are the successes, the rate limited, the failed ones and those in flight together;
  and no more calls are past the semaphore than \<^verbatim>\<open>MaxConcurrency\<close> allows.
\<close>

theorem calls_counted:
  assumes "(send_step ops)\<^sup>*\<^sup>* (send_init (NewClient config) w n) x"
  shows "cs_totalRequests (cl_stats (sn_client x)) =
      w64 (cs_successfulRequests (cl_stats (sn_client x)) + cs_rateLimitedRequests (cl_stats (sn_client x))
        + cs_failedRequests (cl_stats (sn_client x)) + count_threads pending (sn_pcs x))
    \<and> (0 < clc_MaxConcurrency config \<longrightarrow>
        count_threads has_slot (sn_pcs x) = sn_used x \<and> sn_used x \<le> clc_MaxConcurrency config)"
  using calls_reach [OF assms] send_run_sem [OF assms]
  by (auto simp: calls_inv_def tally_def outcomes_def sem_size_def NewClient_def Let_def)

theorem calls_counted_witness:
  "sn_used (solo Map.empty 0 demo_client demo_world 1 False (Entered (fresh_locals None demo_call_request))) \<le> 1
    \<and> count_threads has_slot [0 :: nat \<mapsto> Entered (fresh_locals None demo_call_request)] = 1"
  using calls_counted [OF demo_entered [unfolded demo_client_def]] by simp

text \<open>
  C29. The whole call as one function. When \<open>Client_Send\<close> returns, a goroutine that nobody disturbs,
  all others staying where they are and none of them asleep in the pool, ends, action by action,
  with the same client, the same world and the same answer, and has given its slot of the
  semaphore back.
\<close>

theorem send_alone:
  assumes "Client_Send ops c w clk d acquired req = Some (c', w', r)" and calm: "calm m"
    and "cl_sem c \<noteq> None \<longrightarrow> (if acquired then sem_free c u else cancelled)"
  shows "(send_step ops)\<^sup>*\<^sup>* (solo m t c w u cancelled (Out d)) (solo m t c' w' u cancelled (Back d r))"
proof (cases "cl_closed c")
  case True
  with assms(1) send_step.start_closed [of "solo m t c w u cancelled (Out d)" t d ops] show ?thesis
    by (auto simp: Client_Send_def solo_def send_goto_def)
next
  case False
  then have "send_step ops (solo m t c w u cancelled (Out d)) (solo m t c w u cancelled (Gate (fresh_locals d req)))"
    using send_step.start [of "solo m t c w u cancelled (Out d)" t d ops req] by (simp add: solo_def send_goto_def)
  from solo_first [OF this call_steps_send [OF call_alone [OF assms(1) calm False assms(3)]]] show ?thesis .
qed

theorem send_alone_witness:
  "\<exists>c' w' r. (send_step demo_ops)\<^sup>*\<^sup>* (solo Map.empty 0 demo_client demo_world 0 False (Out None)) (solo Map.empty 0 c' w' 0 False (Back None r))
    \<and> cs_successfulRequests (cl_stats c') = 1"
proof -
  obtain clk d acquired req mode where call: "demo_call ConnectionModeReuse = (clk, d, acquired, req, mode)" "d = None" "acquired"
    by (simp add: demo_call_def)
  have "\<exists>c' w' r. Client_Send demo_ops demo_client demo_world clk None True req = Some (c', w', r)
      \<and> cs_successfulRequests (cl_stats c') = 1"
    using call by (simp add: demo_client_defs Let_def)
  then obtain c' w' r where "Client_Send demo_ops demo_client demo_world clk None True req = Some (c', w', r)"
    "cs_successfulRequests (cl_stats c') = 1" by blast
  moreover have "sem_free demo_client 0" by (simp add: sem_free_def demo_client_def NewClient_def Let_def)
  moreover have "calm Map.empty" by (simp add: calm_def)
  ultimately show ?thesis using send_alone [of demo_ops demo_client demo_world clk None True req c' w' r Map.empty 0 False 0] by auto
qed

end
