(* ===== verification/CallsPool.thy ===== *)
theory CallsPool
  imports Calls
begin

text \<open>
  The calls of \<^verbatim>\<open>Client.Send\<close>, action by action, as users of the connection pool: every run of
  \<open>send_step\<close> is, on the pool and the heap of connections, a run of \<open>pool_step\<close>. A goroutine has
  two roles there: one for the connection of its call, and one for the dedicated connection that
  the worker keeps between calls.

  Shown: the simulation, and from it that no connection is ever used by two goroutines at once,
  and that the limit on the connections holds, in all modes and with the modes changed at any time.
\<close>

section \<open>What a place means for the pool\<close>

definition own_view :: "send_locals \<Rightarrow> nat \<Rightarrow> pool_pc" where
  "own_view l a = (if lv_usePool l then Holding a else if lv_dedicated l = Some a then Returned else Apart a)"

fun acts_view :: "send_locals \<Rightarrow> send_act list \<Rightarrow> pool_pc" where
  "acts_view l [] = Returned"
| "acts_view l (Bump k # as) = acts_view l as"
| "acts_view l (CloseIt a # as) = own_view l a"
| "acts_view l (PutBack a # as) = own_view l a"
| "acts_view l (PutLocked a # as) = own_view l a"

text \<open>The role of the call.\<close>

fun call_view :: "send_pc \<Rightarrow> pool_pc" where
  "call_view (Opened (InSend l) a) = own_view l a"
| "call_view (GetEnter l) = Entering"
| "call_view (GetDecide l) = Deciding"
| "call_view (GetAsleep l) = Asleep"
| "call_view (GetAwake l) = Awake"
| "call_view (GetPick l) = Picking"
| "call_view (PickErr l err) = Picking"
| "call_view (Undone l err) = PickFailed"
| "call_view (Using l a) = own_view l a"
| "call_view (Incrementing l a) = own_view l a"
| "call_view (Calling l a s) = own_view l a"
| "call_view (Answered l a r) = own_view l a"
| "call_view (Judging l a latency resp) = own_view l a"
| "call_view (Judged l a latency resp) = own_view l a"
| "call_view (Finishing l as r) = acts_view l as"
| "call_view (CloseBroadcast d) = Closing"
| "call_view _ = Returned"

text \<open>The connection the worker keeps.\<close>

fun opener_keeps :: "opener \<Rightarrow> nat option" where
  "opener_keeps (InSend l) = lv_dedicated l"
| "opener_keeps (ByWorker d) = d"

fun keeps :: "send_pc \<Rightarrow> nat option" where
  "keeps (Out d) = d"
| "keeps (Gate l) = lv_dedicated l"
| "keeps (Entered l) = lv_dedicated l"
| "keeps (Counted l) = lv_dedicated l"
| "keeps (ModeRead l) = lv_dedicated l"
| "keeps (Checking l a) = lv_dedicated l"
| "keeps (Stale l a) = lv_dedicated l"
| "keeps (StaleClosed l) = lv_dedicated l"
| "keeps (Opening opn) = opener_keeps opn"
| "keeps (Creating opn serverID) = opener_keeps opn"
| "keeps (Opened (InSend l) a) = lv_dedicated l"
| "keeps (Opened (ByWorker d) a) = Some a"
| "keeps (GetStart l) = lv_dedicated l"
| "keeps (GetEnter l) = lv_dedicated l"
| "keeps (GetDecide l) = lv_dedicated l"
| "keeps (GetAsleep l) = lv_dedicated l"
| "keeps (GetAwake l) = lv_dedicated l"
| "keeps (GetPick l) = lv_dedicated l"
| "keeps (PickErr l err) = lv_dedicated l"
| "keeps (Undone l err) = lv_dedicated l"
| "keeps (Using l a) = lv_dedicated l"
| "keeps (Incrementing l a) = lv_dedicated l"
| "keeps (Calling l a s) = lv_dedicated l"
| "keeps (Answered l a r) = lv_dedicated l"
| "keeps (Judging l a latency resp) = lv_dedicated l"
| "keeps (Judged l a latency resp) = lv_dedicated l"
| "keeps (Finishing l as r) = lv_dedicated l"
| "keeps (Back d r) = d"
| "keeps (ClosingPool d) = d"
| "keeps (CloseBroadcast d) = d"

definition kept_view :: "send_pc \<Rightarrow> pool_pc" where
  "kept_view pc = (case keeps pc of None \<Rightarrow> Returned | Some a \<Rightarrow> Apart a)"

text \<open>What the local variables say at each place.\<close>

definition pool_mode :: "send_locals \<Rightarrow> bool" where
  "pool_mode l \<longleftrightarrow> lv_usePool l \<and> lv_mode l \<noteq> ConnectionModeDedicated"

definition mode_ok :: "send_locals \<Rightarrow> bool" where
  "mode_ok l \<longleftrightarrow> (lv_mode l = ConnectionModeDedicated \<longrightarrow> \<not> lv_usePool l)"

fun opener_ok :: "opener \<Rightarrow> bool" where
  "opener_ok (InSend l) = (\<not> lv_usePool l)"
| "opener_ok (ByWorker d) = True"

fun acts_fit :: "send_locals \<Rightarrow> send_act list \<Rightarrow> bool" where
  "acts_fit l [] = True"
| "acts_fit l (Bump k # as) = acts_fit l as"
| "acts_fit l (CloseIt a # as) = (\<not> lv_usePool l \<and> acts_view l as = Returned \<and> acts_fit l as)"
| "acts_fit l (PutBack a # as) = (lv_usePool l \<and> acts_view l as = Returned \<and> acts_fit l as)"
| "acts_fit l (PutLocked a # as) = (lv_usePool l \<and> acts_view l as = Returned \<and> acts_fit l as)"

fun pc_ok :: "send_pc \<Rightarrow> bool" where
  "pc_ok (Checking l a) = (\<not> lv_usePool l \<and> lv_dedicated l = Some a)"
| "pc_ok (Stale l a) = (\<not> lv_usePool l \<and> lv_dedicated l = Some a)"
| "pc_ok (StaleClosed l) = (\<not> lv_usePool l)"
| "pc_ok (Opening opn) = opener_ok opn"
| "pc_ok (Creating opn serverID) = opener_ok opn"
| "pc_ok (Opened (InSend l) a) = mode_ok l"
| "pc_ok (GetStart l) = pool_mode l"
| "pc_ok (GetEnter l) = pool_mode l"
| "pc_ok (GetDecide l) = pool_mode l"
| "pc_ok (GetAsleep l) = pool_mode l"
| "pc_ok (GetAwake l) = pool_mode l"
| "pc_ok (GetPick l) = pool_mode l"
| "pc_ok (PickErr l err) = pool_mode l"
| "pc_ok (Using l a) = mode_ok l"
| "pc_ok (Incrementing l a) = mode_ok l"
| "pc_ok (Calling l a s) = mode_ok l"
| "pc_ok (Answered l a r) = mode_ok l"
| "pc_ok (Judging l a latency resp) = mode_ok l"
| "pc_ok (Judged l a latency resp) = mode_ok l"
| "pc_ok (Finishing l as r) = acts_fit l as"
| "pc_ok _ = True"

section \<open>The two systems side by side\<close>

text \<open>Goroutine \<open>t\<close> plays the roles \<open>2 * t\<close>, in its call, and \<open>2 * t + 1\<close>, as a worker.\<close>

definition standing :: "(nat \<rightharpoonup> pool_pc) \<Rightarrow> nat \<Rightarrow> pool_pc" where
  "standing g u = (case g u of None \<Rightarrow> Returned | Some p \<Rightarrow> p)"

definition roles :: "(nat \<rightharpoonup> send_pc) \<Rightarrow> nat \<Rightarrow> pool_pc" where
  "roles m u =
     (case m (u div 2) of None \<Rightarrow> Returned | Some pc \<Rightarrow> if even u then call_view pc else kept_view pc)"

definition sim :: "'t send_sys \<Rightarrow> pool_sys \<Rightarrow> bool" where
  "sim x s \<longleftrightarrow> pl s = cl_pool (sn_client x) \<and> heap s = wd_conns (sn_world x)
     \<and> holder s = map_option (\<lambda>t. 2 * t) (sn_lock x) \<and> standing (gos s) = roles (sn_pcs x)
     \<and> (\<forall>t pc. sn_pcs x t = Some pc \<longrightarrow> pc_ok pc)"

lemma standing_upd [simp]: "standing (g(u \<mapsto> p)) = (standing g)(u := p)"
  by (simp add: standing_def fun_eq_iff)

lemma standing_some: "standing g u = p \<Longrightarrow> p \<noteq> Returned \<Longrightarrow> g u = Some p"
  by (auto simp: standing_def split: option.splits)

lemma standing_outside: "standing g u = Returned \<Longrightarrow> outside g u"
  by (auto simp: standing_def outside_def split: option.splits)

lemma roles_upd: "roles (m(t \<mapsto> pc)) = (roles m)(2 * t := call_view pc, Suc (2 * t) := kept_view pc)"
proof (rule ext)
  fix u show "roles (m(t \<mapsto> pc)) u = ((roles m)(2 * t := call_view pc, Suc (2 * t) := kept_view pc)) u"
  proof (cases "even u")
    case True
    then obtain v where "u = 2 * v" by blast
    then show ?thesis by (auto simp: roles_def)
  next
    case False
    then obtain v where "u = 2 * v + 1" by (elim oddE)
    then show ?thesis by (auto simp: roles_def)
  qed
qed

lemma roles_at:
  "m t = Some pc \<Longrightarrow> roles m (2 * t) = call_view pc" "m t = Some pc \<Longrightarrow> roles m (Suc (2 * t)) = kept_view pc"
  by (simp_all add: roles_def)

text \<open>A move of a goroutine changes one of its roles, or none.\<close>

lemma roles_call: "m t = Some pc \<Longrightarrow> kept_view pc' = kept_view pc \<Longrightarrow> roles (m(t \<mapsto> pc')) = (roles m)(2 * t := call_view pc')"
  and roles_kept: "m t = Some pc \<Longrightarrow> call_view pc' = call_view pc \<Longrightarrow> roles (m(t \<mapsto> pc')) = (roles m)(Suc (2 * t) := kept_view pc')"
  and roles_same: "m t = Some pc \<Longrightarrow> call_view pc' = call_view pc \<Longrightarrow> kept_view pc' = kept_view pc \<Longrightarrow> roles (m(t \<mapsto> pc')) = roles m"
  using roles_at [of m t pc] by (auto simp: roles_upd fun_eq_iff)

lemma roles_asleep: "roles m u = Asleep \<longleftrightarrow> (\<exists>t l. u = 2 * t \<and> m t = Some (GetAsleep l))"
proof
  assume "roles m u = Asleep"
  then obtain pc where pc: "m (u div 2) = Some pc" "(if even u then call_view pc else kept_view pc) = Asleep"
    by (auto simp: roles_def split: option.splits)
  then have "even u" "call_view pc = Asleep" by (auto simp: kept_view_def split: if_splits option.splits)
  then have "\<exists>l. pc = GetAsleep l"
  proof (cases pc rule: call_view.cases)
    case (15 l as r)
    have "acts_view l as \<noteq> Asleep" by (induction l as rule: acts_view.induct) (auto simp: own_view_def)
    then show ?thesis using \<open>call_view pc = Asleep\<close> 15 by simp
  qed (auto simp: own_view_def split: if_splits)
  then show "\<exists>t l. u = 2 * t \<and> m t = Some (GetAsleep l)"
    using pc \<open>even u\<close> by (intro exI [of _ "u div 2"]) auto
qed (auto simp: roles_def)

lemma signal_roles:
  assumes "send_signal m m'" and "standing g = roles m"
  shows "\<exists>g'. pool_signal g g' \<and> standing g' = roles m'"
proof (cases "m' = m")
  case True
  show ?thesis
  proof (cases "\<exists>u l. m u = Some (GetAsleep l)")
    case False
    then have "\<forall>u. g u \<noteq> Some Asleep" using assms(2) roles_asleep [of m]
      by (metis option.simps(5) standing_def)
    then show ?thesis using True assms(2) by (auto simp: pool_signal_def)
  next
    case asleep: True
    with assms(1) True obtain u l where "m u = Some (GetAsleep l)" "m = m(u \<mapsto> GetAwake l)"
      by (auto simp: send_signal_def)
    then show ?thesis by (metis fun_upd_same option.inject send_pc.distinct)
  qed
next
  case False
  with assms(1) obtain u l where u: "m u = Some (GetAsleep l)" "m' = m(u \<mapsto> GetAwake l)"
    by (auto simp: send_signal_def)
  then have "g (2 * u) = Some Asleep" using assms(2) by (intro standing_some) (simp_all add: roles_at)
  then have "pool_signal g (g(2 * u \<mapsto> Awake))" by (auto simp: pool_signal_def)
  moreover have "standing (g(2 * u \<mapsto> Awake)) = roles m'"
    using roles_call [of m u, OF u(1)] by (simp add: u(2) assms(2) kept_view_def)
  ultimately show ?thesis by blast
qed

lemma broadcast_roles: "standing g = roles m \<Longrightarrow> standing (pool_broadcast g) = roles (send_broadcast m)"
proof (rule ext)
  fix u assume "standing g = roles m"
  then have g: "standing g u = roles m u" by simp
  show "standing (pool_broadcast g) u = roles (send_broadcast m) u"
  proof (cases "roles m u = Asleep")
    case True
    then obtain t l where "u = 2 * t" "m t = Some (GetAsleep l)" by (auto simp: roles_asleep)
    moreover from True g have "g u = Some Asleep" by (intro standing_some) simp_all
    ultimately show ?thesis by (simp add: pool_broadcast_def send_broadcast_def standing_def roles_def)
  next
    case False
    have "standing (pool_broadcast g) u = standing g u"
      using False g by (auto simp: pool_broadcast_def standing_def)
    moreover have "roles (send_broadcast m) u = roles m u"
      using False by (auto simp: roles_def send_broadcast_def kept_view_def split: option.splits send_pc.splits)
    ultimately show ?thesis using g by simp
  qed
qed

section \<open>The simulation\<close>

lemma sim_at:
  assumes "sim x s" and "sn_pcs x t = Some pc"
  shows "pc_ok pc" "standing (gos s) (2 * t) = call_view pc" "standing (gos s) (Suc (2 * t)) = kept_view pc"
  using assms roles_at [of "sn_pcs x" t pc] by (auto simp: sim_def)

lemma sim_change:
  assumes "sim x s" and "sn_pcs y = m(t \<mapsto> pc')" and "woken (sn_pcs x) m" and "pc_ok pc'"
    and "pl s' = cl_pool (sn_client y)" and "heap s' = wd_conns (sn_world y)"
    and "holder s' = map_option (\<lambda>t. 2 * t) (sn_lock y)" and "standing (gos s') = roles (m(t \<mapsto> pc'))"
  shows "sim y s'"
proof -
  have "pc_ok pc" if "m u = Some pc" for u pc
    using assms(1) assms(3) [unfolded woken_def, rule_format, of u] that by (fastforce simp: sim_def)
  then show ?thesis using assms by (auto simp: sim_def)
qed

text \<open>A goroutine moves without a step of the pool.\<close>

lemma sim_same:
  assumes "sim x s" and "sn_pcs x t = Some pc" and "sn_pcs y = (sn_pcs x)(t \<mapsto> pc')"
    and "call_view pc' = call_view pc" and "kept_view pc' = kept_view pc" and "pc_ok pc'"
    and "cl_pool (sn_client y) = cl_pool (sn_client x)" and "wd_conns (sn_world y) = wd_conns (sn_world x)"
    and "sn_lock y = sn_lock x"
  shows "\<exists>s'. pool_step\<^sup>*\<^sup>* s s' \<and> sim y s'"
proof -
  have "sim y s"
    by (rule sim_change [OF assms(1,3) woken_refl assms(6)])
      (use assms roles_same [of "sn_pcs x" t pc pc'] in \<open>auto simp: sim_def\<close>)
  then show ?thesis by blast
qed

lemma kept_same: "keeps pc' = keeps pc \<Longrightarrow> kept_view pc' = kept_view pc"
  by (simp add: kept_view_def)

text \<open>Whoever owns a connection, in either role, may change it.\<close>

lemma sim_use:
  assumes "sim x s" and "sn_pcs x t = Some pc"
    and "call_view pc = own_view l a \<and> keeps pc = lv_dedicated l \<or> keeps pc = Some a"
  shows "pool_step s (s\<lparr>heap := (heap s)[a := c]\<rparr>)"
proof -
  note at = sim_at [OF assms(1,2)]
  have "call_view pc = Holding a \<or> call_view pc = Apart a \<or> kept_view pc = Apart a"
    using assms(3) by (auto simp: own_view_def kept_view_def split: if_splits)
  then have "\<exists>u p. standing (gos s) u = p \<and> owned p = Some a" using at(2,3) by (metis owned_simps(1,2))
  then obtain u p where "standing (gos s) u = p" "owned p = Some a" by blast
  moreover from this have "gos s u = Some p" by (intro standing_some) auto
  ultimately show ?thesis by (intro pool_step.use)
qed

text \<open>The call lets go of a connection that is not the pool's.\<close>

lemma sim_part:
  assumes "standing (gos s) u = Apart a \<or> standing (gos s) u = Returned"
  shows "\<exists>g. pool_step\<^sup>*\<^sup>* s (s\<lparr>gos := g\<rparr>) \<and> standing g = (standing (gos s))(u := Returned)"
proof (cases "standing (gos s) u = Returned")
  case True
  then have "(standing (gos s))(u := Returned) = standing (gos s)" by auto
  then show ?thesis by (intro exI [of _ "gos s"]) simp
next
  case False
  with assms have "gos s u = Some (Apart a)" by (intro standing_some) simp_all
  from pool_step.part [OF this] show ?thesis by (intro exI [of _ "(gos s)(u \<mapsto> Returned)"]) auto
qed

lemma pool_part_owner: "pool_step\<^sup>*\<^sup>* s s' \<Longrightarrow> pool_owner_inv s \<Longrightarrow> pool_owner_inv s'"
  by (induction rule: rtranclp_induct) (auto intro: pool_step_owner)

lemma kept_free:
  assumes "sim x s" and "pool_owner_inv s" and "sn_pcs x t = Some pc" and "keeps pc = Some a"
  shows "a < length (wd_conns (sn_world x))"
proof -
  have "gos s (Suc (2 * t)) = Some (Apart a)"
    using sim_at(3) [OF assms(1,3)] assms(4) by (intro standing_some) (simp_all add: kept_view_def)
  then have "holding (gos s) (Suc (2 * t)) = Some a" by (simp add: holding_def)
  then show ?thesis using assms(1,2) by (auto simp: pool_owner_inv_def owner_ok_def sim_def)
qed

lemma close_heap:
  "wd_conns (close_connection ops w a) = (wd_conns w)[a := (wd_conns w ! a)\<lparr>conn_closed := True\<rparr>]"
  "wd_lb (close_connection ops w a) = wd_lb w"
proof -
  have "conn_closed d \<Longrightarrow> d\<lparr>conn_closed := True\<rparr> = d" for d :: connection by simp
  then have "conn_closed (wd_conns w ! a) \<Longrightarrow> (wd_conns w)[a := (wd_conns w ! a)\<lparr>conn_closed := True\<rparr>] = wd_conns w"
    by (metis list_update_id)
  then show "wd_conns (close_connection ops w a) = (wd_conns w)[a := (wd_conns w ! a)\<lparr>conn_closed := True\<rparr>]"
    "wd_lb (close_connection ops w a) = wd_lb w"
    by (simp_all add: close_connection_def Connection_Close_def Let_def)
qed

lemma closed_heap:
  "snd (close_all ops t h as) = snd (close_all None () h as)"
proof (induction as arbitrary: t h)
  case (Cons a as)
  have "snd (Connection_Close ops t (h ! a)) = snd (Connection_Close None () (h ! a))"
    by (simp add: Connection_Close_def)
  then show ?case using Cons by (simp add: Let_def case_prod_beta)
qed simp

lemma acts_pool [simp]:
  "acts_view l (error_acts (lv_usePool l) a) = own_view l a" "acts_fit l (error_acts (lv_usePool l) a)"
  "mode_ok l \<Longrightarrow> acts_fit l (reply_acts (lv_mode l) (lv_usePool l) closing a)"
  "mode_ok l \<Longrightarrow> acts_view l (reply_acts (lv_mode l) (lv_usePool l) closing a) =
     (if \<not> closing \<and> lv_mode l = ConnectionModeDedicated then Returned else own_view l a)"
  by (auto simp: error_acts_def reply_acts_def mode_ok_def)

lemma after_mode_ok [simp]:
  "pc_ok (after_mode c l)" "call_view (after_mode c l) = Returned" "keeps (after_mode c l) = lv_dedicated l"
  by (auto simp: after_mode_def Let_def pool_mode_def use_pool_def split: option.splits)

lemma failed_views [simp]:
  "pc_ok (send_failed l err)" "call_view (send_failed l err) = Returned" "keeps (send_failed l err) = lv_dedicated l"
  "pc_ok (get_failed l err)" "call_view (get_failed l err) = Returned" "keeps (get_failed l err) = lv_dedicated l"
  "pc_ok (open_failed opn err)" "call_view (open_failed opn err) = Returned" "keeps (open_failed opn err) = opener_keeps opn"
  by (cases opn; simp add: send_failed_def get_failed_def)+

text \<open>A goroutine changes a connection that it owns, and keeps it.\<close>

lemma sim_write:
  assumes "sim x s" and "sn_pcs x t = Some pc" and "sn_pcs y = (sn_pcs x)(t \<mapsto> pc')"
    and "call_view pc = own_view l a \<and> keeps pc = lv_dedicated l \<or> keeps pc = Some a"
    and "call_view pc' = call_view pc" and "keeps pc' = keeps pc" and "pc_ok pc'"
    and "cl_pool (sn_client y) = cl_pool (sn_client x)" and "wd_conns (sn_world y) = (wd_conns (sn_world x))[a := c]"
    and "sn_lock y = sn_lock x"
  shows "\<exists>s'. pool_step\<^sup>*\<^sup>* s s' \<and> sim y s'"
proof -
  have "roles ((sn_pcs x)(t \<mapsto> pc')) = roles (sn_pcs x)"
    by (rule roles_same [of _ _ pc]) (use assms in \<open>simp_all add: kept_view_def\<close>)
  then have "sim y (s\<lparr>heap := (heap s)[a := c]\<rparr>)"
    by (intro sim_change [OF assms(1,3) woken_refl assms(7)])
      (use assms(1,8,9,10) in \<open>simp_all add: sim_def\<close>)
  then show ?thesis using sim_use [OF assms(1,2,4)] by blast
qed

text \<open>A call changes the connection it opened, and drops it.\<close>

lemma sim_drop:
  assumes "sim x s" and "sn_pcs x t = Some pc" and "sn_pcs y = (sn_pcs x)(t \<mapsto> pc')"
    and "call_view pc = own_view l a" and "keeps pc = lv_dedicated l" and "\<not> lv_usePool l"
    and "call_view pc' = Returned" and "keeps pc' = keeps pc" and "pc_ok pc'"
    and "cl_pool (sn_client y) = cl_pool (sn_client x)" and "wd_conns (sn_world y) = (wd_conns (sn_world x))[a := c]"
    and "sn_lock y = sn_lock x"
  shows "\<exists>s'. pool_step\<^sup>*\<^sup>* s s' \<and> sim y s'"
proof -
  let ?s = "s\<lparr>heap := (heap s)[a := c]\<rparr>"
  have "pool_step s ?s" by (rule sim_use [OF assms(1,2), of l]) (use assms in simp)
  moreover obtain g where g: "pool_step\<^sup>*\<^sup>* ?s (?s\<lparr>gos := g\<rparr>)" "standing g = (standing (gos s))(2 * t := Returned)"
    using sim_part [of ?s "2 * t" a] sim_at(2) [OF assms(1,2)] assms(4,6) by (auto simp: own_view_def split: if_splits)
  moreover have "roles ((sn_pcs x)(t \<mapsto> pc')) = (roles (sn_pcs x))(2 * t := Returned)"
    using roles_call [of "sn_pcs x" t pc pc'] assms(2,7,8) by (simp add: kept_view_def)
  then have "sim y (?s\<lparr>gos := g\<rparr>)"
    by (intro sim_change [OF assms(1,3) woken_refl assms(9)])
      (use assms(1,10,11,12) g in \<open>simp_all add: sim_def\<close>)
  ultimately show ?thesis by (meson converse_rtranclp_into_rtranclp)
qed

text \<open>A new connection, for a call or for its worker.\<close>

lemma sim_create:
  assumes "sim x s" and "pool_owner_inv s" and "sn_pcs x t = Some (Creating opn serverID)"
    and "Pool_Create (cl_pool (sn_client x)) now serverID = Inr conn"
    and "sn_pcs y = (sn_pcs x)(t \<mapsto> Opened opn (length (wd_conns (sn_world x))))"
    and "cl_pool (sn_client y) = cl_pool (sn_client x)" and "wd_conns (sn_world y) = wd_conns (sn_world x) @ [conn]"
    and "sn_lock y = sn_lock x"
  shows "\<exists>s'. pool_step\<^sup>*\<^sup>* s s' \<and> sim y s'"
proof -
  note at = sim_at [OF assms(1,3)]
  let ?n = "length (wd_conns (sn_world x))"
  have n: "length (heap s) = ?n" and p: "pl s = cl_pool (sn_client x)" using assms(1) by (simp_all add: sim_def)
  show ?thesis
  proof (cases opn)
    case (InSend l)
    have "lv_dedicated l \<noteq> Some ?n" using kept_free [OF assms(1-3)] InSend by auto
    then have v: "call_view (Opened opn ?n) = Apart ?n" using at(1) InSend by (simp add: own_view_def)
    have "pool_step s (s\<lparr>heap := heap s @ [conn], gos := (gos s)(2 * t \<mapsto> Apart ?n)\<rparr>)"
      using pool_step.create [OF standing_outside, of s "2 * t" now serverID conn] at(2) assms(4) n p by simp
    moreover have "roles ((sn_pcs x)(t \<mapsto> Opened opn ?n)) = (roles (sn_pcs x))(2 * t := Apart ?n)"
      using roles_call [of "sn_pcs x" t "Creating opn serverID" "Opened opn ?n"] assms(3) v InSend
      by (simp add: kept_view_def)
    then have "sim y (s\<lparr>heap := heap s @ [conn], gos := (gos s)(2 * t \<mapsto> Apart ?n)\<rparr>)"
      by (intro sim_change [OF assms(1,5) woken_refl])
        (use assms(1,6-8) at(1) InSend in \<open>simp_all add: sim_def mode_ok_def\<close>)
    ultimately show ?thesis by blast
  next
    case (ByWorker d)
    have "standing (gos s) (Suc (2 * t)) = Returned \<or> (\<exists>a. standing (gos s) (Suc (2 * t)) = Apart a)"
      using at(3) by (auto simp: kept_view_def split: option.splits)
    then obtain g where g: "pool_step\<^sup>*\<^sup>* s (s\<lparr>gos := g\<rparr>)" "standing g = (standing (gos s))(Suc (2 * t) := Returned)"
      using sim_part by blast
    let ?s = "s\<lparr>heap := heap s @ [conn], gos := g(Suc (2 * t) \<mapsto> Apart ?n)\<rparr>"
    have "outside g (Suc (2 * t))" by (rule standing_outside) (simp add: g(2))
    then have "pool_step (s\<lparr>gos := g\<rparr>) ?s"
      using pool_step.create [of "s\<lparr>gos := g\<rparr>" "Suc (2 * t)" now serverID conn] assms(4) n p by simp
    moreover have "roles ((sn_pcs x)(t \<mapsto> Opened opn ?n)) = (roles (sn_pcs x))(Suc (2 * t) := Apart ?n)"
      using roles_kept [of "sn_pcs x" t "Creating opn serverID" "Opened opn ?n"] assms(3) ByWorker
      by (simp add: kept_view_def)
    then have "sim y ?s"
      by (intro sim_change [OF assms(1,5) woken_refl])
        (use assms(1,6-8) g ByWorker in \<open>simp_all add: sim_def\<close>)
    ultimately show ?thesis using g(1) by (meson rtranclp.rtrancl_into_rtrancl)
  qed
qed

text \<open>Places that the pool does not see change to each other freely.\<close>

definition silent :: "send_pc \<Rightarrow> send_pc \<Rightarrow> bool" where
  "silent pc pc' \<longleftrightarrow> call_view pc' = call_view pc \<and> keeps pc' = keeps pc \<and> (pc_ok pc \<longrightarrow> pc_ok pc')"

lemma sim_silent:
  assumes "sim x s" and "sn_pcs x t = Some pc" and "silent pc pc'"
    and "cl_pool c = cl_pool (sn_client x)" and "wd_conns w = wd_conns (sn_world x)"
  shows "\<exists>s'. pool_step\<^sup>*\<^sup>* s s' \<and> sim (send_goto t pc' (x\<lparr>sn_client := c, sn_world := w\<rparr>)) s'"
  by (rule sim_same [OF assms(1,2), where pc' = pc'])
    (use assms sim_at(1) [OF assms(1,2)] in \<open>simp_all add: send_goto_def silent_def kept_view_def\<close>)

lemma sim_pick:
  assumes "sim x s" and "sn_pcs x t = Some (GetPick l)"
    and "advance ops now k (sn_client x) (sn_world x) (GetPick l) = Some (c', w', pc')"
  shows "\<exists>s'. pool_step\<^sup>*\<^sup>* s s' \<and> sim (send_goto t pc' (x\<lparr>sn_client := c', sn_world := w'\<rparr>)) s'"
proof -
  note at = sim_at [OF assms(1,2)]
  have p: "pl s = cl_pool (sn_client x)" "heap s = wd_conns (sn_world x)" using assms(1) by (simp_all add: sim_def)
  obtain lb pr where pick: "picker k (wd_lb (sn_world x)) = (lb, pr)" by fastforce
  show ?thesis
  proof (cases pr)
    case (Inl err)
    then have "c' = sn_client x" "w' = (sn_world x)\<lparr>wd_lb := lb\<rparr>" "pc' = PickErr l err" using assms(3) pick by simp_all
    then show ?thesis by (intro sim_silent [OF assms(1,2)]) (simp_all add: silent_def)
  next
    case (Inr serverID)
    let ?n = "length (heap s)"
    let ?s = "s\<lparr>heap := heap s @ [NewConnection now (new_conn_id (pl s) serverID now) serverID (pl_maxRequestsPerConn (pl s))],
      gos := (gos s)(2 * t \<mapsto> Holding ?n)\<rparr>"
    have c': "c' = sn_client x" "wd_conns w' = heap ?s" "pc' = Opened (InSend l) ?n"
      using assms(3) pick Inr p by (auto simp: Let_def)
    have "pool_step s ?s" using at(2) by (intro pool_step.pick standing_some) simp_all
    moreover have "roles ((sn_pcs x)(t \<mapsto> pc')) = (roles (sn_pcs x))(2 * t := Holding ?n)"
      using roles_call [of "sn_pcs x" t "GetPick l" pc'] assms(2) at(1) c'(3)
      by (simp add: kept_view_def own_view_def pool_mode_def)
    then have "sim (send_goto t pc' (x\<lparr>sn_client := c', sn_world := w'\<rparr>)) ?s"
      by (intro sim_change [where t = t and pc' = pc', OF assms(1) _ woken_refl])
        (use assms(1) c' at(1) in \<open>simp_all add: sim_def send_goto_def mode_ok_def pool_mode_def\<close>)
    ultimately show ?thesis by blast
  qed
qed

lemma sim_undo:
  assumes "sim x s" and "sn_pcs x t = Some (PickErr l err)"
  shows "\<exists>s'. pool_step\<^sup>*\<^sup>* s s' \<and> sim (send_goto t (Undone l err)
    (x\<lparr>sn_client := (sn_client x)\<lparr>cl_pool := add_connections (-1) (cl_pool (sn_client x))\<rparr>, sn_world := sn_world x\<rparr>)) s'"
proof -
  let ?s = "s\<lparr>pl := add_connections (-1) (pl s), gos := (gos s)(2 * t \<mapsto> PickFailed)\<rparr>"
  have "pool_step s ?s" using sim_at(2) [OF assms] by (intro pool_step.pick_fail standing_some) simp_all
  moreover have "roles ((sn_pcs x)(t \<mapsto> Undone l err)) = (roles (sn_pcs x))(2 * t := PickFailed)"
    using roles_call [of "sn_pcs x" t "PickErr l err" "Undone l err"] assms(2) by (simp add: kept_view_def)
  then have "sim (send_goto t (Undone l err) (x\<lparr>sn_client := (sn_client x)\<lparr>cl_pool := add_connections (-1)
      (cl_pool (sn_client x))\<rparr>, sn_world := sn_world x\<rparr>)) ?s"
    by (intro sim_change [where t = t and pc' = "Undone l err", OF assms(1) _ woken_refl])
      (use assms(1) in \<open>simp_all add: sim_def send_goto_def\<close>)
  ultimately show ?thesis by blast
qed

text \<open>\<^verbatim>\<open>Put\<close> in a closed pool closes the connection without the mutex.\<close>

lemma sim_put_closed:
  assumes "sim x s" and "sn_pcs x t = Some (Finishing l (PutBack a # as) r)" and "pl_closed (cl_pool (sn_client x))"
  shows "\<exists>s'. pool_step\<^sup>*\<^sup>* s s' \<and> sim (send_goto t (Finishing l as r)
    (x\<lparr>sn_client := sn_client x, sn_world := close_connection ops (sn_world x) a\<rparr>)) s'"
proof -
  note at = sim_at [OF assms(1,2)]
  let ?s = "s\<lparr>heap := (heap s)[a := (heap s ! a)\<lparr>conn_closed := True\<rparr>], gos := (gos s)(2 * t \<mapsto> Returned)\<rparr>"
  have "pool_step s ?s"
    using at(1,2) assms(1,3) by (intro pool_step.put_closed standing_some) (simp_all add: sim_def own_view_def)
  moreover have "roles ((sn_pcs x)(t \<mapsto> Finishing l as r)) = (roles (sn_pcs x))(2 * t := Returned)"
    using roles_call [of "sn_pcs x" t "Finishing l (PutBack a # as) r" "Finishing l as r"] assms(2) at(1)
    by (simp add: kept_view_def)
  then have "sim (send_goto t (Finishing l as r) (x\<lparr>sn_client := sn_client x,
      sn_world := close_connection ops (sn_world x) a\<rparr>)) ?s"
    by (intro sim_change [where t = t and pc' = "Finishing l as r", OF assms(1) _ woken_refl])
      (use assms(1) at(1) in \<open>simp_all add: sim_def send_goto_def close_heap\<close>)
  ultimately show ?thesis by blast
qed

lemma sim_finishing:
  assumes sim: "sim x s" and t: "sn_pcs x t = Some (Finishing l as r)"
    and adv: "advance ops now k (sn_client x) (sn_world x) (Finishing l as r) = Some (c', w', pc')"
  shows "\<exists>s'. pool_step\<^sup>*\<^sup>* s s' \<and> sim (send_goto t pc' (x\<lparr>sn_client := c', sn_world := w'\<rparr>)) s'"
proof (cases as)
  case (Cons act bs)
  note ok = sim_at(1) [OF sim t, unfolded Cons]
  show ?thesis
  proof (cases act)
    case (Bump n)
    with adv Cons have "c' = bump n (sn_client x)" "w' = sn_world x" "pc' = Finishing l bs r" by simp_all
    then show ?thesis using Cons Bump by (intro sim_silent [OF sim t]) (simp_all add: silent_def)
  next
    case (CloseIt a)
    with adv Cons have "c' = sn_client x" "w' = close_connection ops (sn_world x) a" "pc' = Finishing l bs r" by simp_all
    then show ?thesis using ok Cons CloseIt
      by (intro sim_drop [OF sim t, of _ pc' l a "(wd_conns (sn_world x) ! a)\<lparr>conn_closed := True\<rparr>"])
        (simp_all add: send_goto_def close_heap)
  next
    case (PutBack a)
    show ?thesis
    proof (cases "pl_closed (cl_pool (sn_client x))")
      case True
      with adv Cons PutBack have "c' = sn_client x" "w' = close_connection ops (sn_world x) a" "pc' = Finishing l bs r"
        by simp_all
      then show ?thesis using sim_put_closed [OF sim _ True] t Cons PutBack by simp
    next
      case False
      with adv Cons PutBack have "c' = sn_client x" "w' = sn_world x" "pc' = Finishing l (PutLocked a # bs) r" by simp_all
      then show ?thesis using Cons PutBack by (intro sim_silent [OF sim t]) (simp_all add: silent_def)
    qed
  qed (use adv Cons in simp)
qed (use adv in simp)

lemma sim_advance:
  assumes sim: "sim x s" and own: "pool_owner_inv s" and t: "sn_pcs x t = Some pc"
    and adv: "advance ops now k (sn_client x) (sn_world x) pc = Some (c', w', pc')"
  shows "\<exists>s'. pool_step\<^sup>*\<^sup>* s s' \<and> sim (send_goto t pc' (x\<lparr>sn_client := c', sn_world := w'\<rparr>)) s'"
proof -
  note ok = sim_at(1) [OF sim t]
  note silent = sim_silent [OF sim t]
  show ?thesis
  proof (cases pc)
    case (Stale l a)
    then show ?thesis using adv ok
      by (intro sim_write [OF sim t, of _ pc' l a "(wd_conns (sn_world x) ! a)\<lparr>conn_closed := True\<rparr>"])
        (auto simp: send_goto_def close_heap)
  next
    case (Creating opn serverID)
    show ?thesis
    proof (cases "Pool_Create (cl_pool (sn_client x)) now serverID")
      case (Inl err)
      then show ?thesis using adv Creating by (intro silent) (auto simp: silent_def)
    next
      case (Inr conn)
      then show ?thesis using adv Creating t
        by (intro sim_create [OF sim own _ Inr]) (auto simp: send_goto_def)
    qed
  next
    case (Opened opn a)
    then show ?thesis using adv by (intro silent) (cases opn; auto simp: silent_def)+
  next
    case (GetStart l)
    then show ?thesis using adv ok sim
    proof (cases "pl_closed (cl_pool (sn_client x))")
      case False
      note at = sim_at [OF sim t]
      let ?s = "s\<lparr>gos := (gos s)(2 * t \<mapsto> Entering)\<rparr>"
      have "pool_step s ?s"
        using at(2) False sim GetStart by (intro pool_step.get standing_outside) (simp_all add: sim_def)
      moreover have "roles ((sn_pcs x)(t \<mapsto> GetEnter l)) = (roles (sn_pcs x))(2 * t := Entering)"
        using roles_call [of "sn_pcs x" t "GetStart l" "GetEnter l"] t GetStart by (simp add: kept_view_def)
      then have "sim (send_goto t pc' (x\<lparr>sn_client := c', sn_world := w'\<rparr>)) ?s"
        using adv GetStart False
        by (intro sim_change [where t = t and pc' = "GetEnter l", OF sim _ woken_refl]) (use sim ok in \<open>auto simp: sim_def send_goto_def\<close>)
      ultimately show ?thesis by blast
    qed (use adv GetStart in \<open>auto intro: silent simp: silent_def\<close>)
  next
    case (GetPick l)
    then show ?thesis using sim_pick [OF sim] t adv by simp
  next
    case (PickErr l err)
    then show ?thesis using sim_undo [OF sim] t adv by auto
  next
    case (Incrementing l a)
    then show ?thesis using adv ok
      by (intro sim_write [OF sim t, of _ pc' l a "fst (IncrementRequests (wd_conns (sn_world x) ! a))"])
        (auto simp: send_goto_def case_prod_beta)
  next
    case (Judged l a latency resp)
    then obtain closing r where pc': "pc' = Finishing l (reply_acts (lv_mode l) (lv_usePool l) closing a) r"
      and cw: "c' = sn_client x" "w' = sn_world x" using adv by (auto simp: Let_def)
    show ?thesis
    proof (cases "\<not> closing \<and> lv_mode l = ConnectionModeDedicated")
      case True
      then show ?thesis using Judged pc' cw ok
        by (intro sim_drop [OF sim t, of _ pc' l a "wd_conns (sn_world x) ! a"]) (auto simp: send_goto_def mode_ok_def reply_acts_def)
    next
      case False
      then show ?thesis using Judged pc' cw ok by (intro silent) (auto simp: silent_def)
    qed
  next
    case (Finishing l as r)
    then show ?thesis using sim_finishing [OF sim] t adv by simp
  next
    case (Checking l a)
    then show ?thesis using adv ok by (intro silent) (auto simp: silent_def own_view_def mode_ok_def)
  qed (use adv in \<open>auto intro!: silent simp: silent_def mode_ok_def Let_def split: prod.splits sum.splits\<close>)
qed

text \<open>The mutex is taken, by a caller that enters or by one that was notified.\<close>

lemma sim_pass:
  assumes sim: "sim x s" and t: "sn_pcs x t = Some pc" "keeps pc = lv_dedicated l" "pool_mode l"
    and step: "pool_step s (s\<lparr>pl := p, holder := after_holder r (2 * t), gos := (gos s)(2 * t \<mapsto> after_pass r)\<rparr>)"
  shows "\<exists>s'. pool_step\<^sup>*\<^sup>* s s' \<and> sim (send_goto t (after_get l r) (set_pool p (x\<lparr>sn_lock := after_holder r t\<rparr>))) s'"
proof -
  have v: "call_view (after_get l r) = after_pass r" "keeps (after_get l r) = lv_dedicated l" "pc_ok (after_get l r)"
    using t(3) by (cases r; simp add: own_view_def pool_mode_def mode_ok_def)+
  have "roles ((sn_pcs x)(t \<mapsto> after_get l r)) = (roles (sn_pcs x))(2 * t := after_pass r)"
    using roles_call [of "sn_pcs x" t pc "after_get l r"] t v by (simp add: kept_view_def)
  then have "sim (send_goto t (after_get l r) (set_pool p (x\<lparr>sn_lock := after_holder r t\<rparr>)))
      (s\<lparr>pl := p, holder := after_holder r (2 * t), gos := (gos s)(2 * t \<mapsto> after_pass r)\<rparr>)"
    by (intro sim_change [where t = t and pc' = "after_get l r", OF sim _ woken_refl])
      (use sim v in \<open>simp_all add: sim_def send_goto_def set_pool_def after_holder_def\<close>)
  with step show ?thesis by blast
qed

text \<open>A step that changes only the role of the call, and perhaps wakes others.\<close>

lemma sim_wakes:
  assumes sim: "sim x s" and t: "sn_pcs x t = Some pc" and m: "woken (sn_pcs x) m" and g: "standing g = roles m"
    and pc: "\<And>l. pc \<noteq> GetAsleep l" "keeps pc' = keeps pc" "pc_ok pc'"
    and y: "sn_pcs y = m(t \<mapsto> pc')"
    and s': "pl s' = cl_pool (sn_client y)" "heap s' = wd_conns (sn_world y)"
      "holder s' = map_option (\<lambda>t. 2 * t) (sn_lock y)" "gos s' = g(2 * t \<mapsto> call_view pc')"
  shows "sim y s'"
proof -
  have "m t = Some pc" by (rule woken_same [OF m t pc(1)])
  then have "roles (m(t \<mapsto> pc')) = (roles m)(2 * t := call_view pc')"
    using roles_call [of m t pc pc'] pc(2) by (simp add: kept_view_def)
  then show ?thesis by (intro sim_change [OF sim y m pc(3) s'(1,2,3)]) (simp add: s' g)
qed

lemma sim_put_locked:
  assumes sim: "sim x s" and t: "sn_pcs x t = Some (Finishing l (PutLocked a # as) r)" and lock: "sn_lock x = None"
    and pass: "put_pass (cl_pool (sn_client x)) (wd_conns (sn_world x) ! a) a = (p, closing)"
    and m: "if closing then (if pl_closed (cl_pool (sn_client x)) then m = sn_pcs x else send_signal (sn_pcs x) m)
      else m = send_broadcast (sn_pcs x)"
  shows "\<exists>s'. pool_step\<^sup>*\<^sup>* s s' \<and> sim (send_goto t (Finishing l as r) (set_pool p
    (x\<lparr>sn_world := (if closing then close_connection ops (sn_world x) a else sn_world x), sn_pcs := m\<rparr>))) s'"
proof -
  note at = sim_at [OF sim t]
  have s: "pl s = cl_pool (sn_client x)" "heap s = wd_conns (sn_world x)" "holder s = None" "standing (gos s) = roles (sn_pcs x)"
    using sim lock by (simp_all add: sim_def)
  have held: "gos s (2 * t) = Some (Holding a)" using at(1,2) by (intro standing_some) (simp_all add: own_view_def)
  have view: "call_view (Finishing l as r) = Returned" "pc_ok (Finishing l as r)" using at(1) by simp_all
  show ?thesis
  proof (cases closing)
    case True
    obtain g where g: "if pl_closed (pl s) then g = gos s else pool_signal (gos s) g" "standing g = roles m" "woken (sn_pcs x) m"
      using m True s(1,4) signal_roles [of "sn_pcs x" m "gos s"] woken_signal by (cases "pl_closed (pl s)") auto
    let ?s = "s\<lparr>pl := p, heap := (heap s)[a := (heap s ! a)\<lparr>conn_closed := True\<rparr>], gos := g(2 * t \<mapsto> Returned)\<rparr>"
    have "pool_step s ?s" using pool_step.put_closing [OF held s(3) _ g(1)] pass True s(1,2) by simp
    moreover have "sim (send_goto t (Finishing l as r) (set_pool p
        (x\<lparr>sn_world := close_connection ops (sn_world x) a, sn_pcs := m\<rparr>))) ?s"
      by (rule sim_wakes [where pc' = "Finishing l as r", OF sim t g(3,2)]) (use view s lock in \<open>simp_all add: send_goto_def set_pool_def close_heap\<close>)
    ultimately show ?thesis using True by auto
  next
    case False
    let ?s = "s\<lparr>pl := p, gos := (pool_broadcast (gos s))(2 * t \<mapsto> Returned)\<rparr>"
    have "pool_step s ?s" using pool_step.put [OF held s(3)] pass False s(1,2) by simp
    moreover have "sim (send_goto t (Finishing l as r) (set_pool p (x\<lparr>sn_world := sn_world x, sn_pcs := m\<rparr>))) ?s"
      by (rule sim_wakes [where pc' = "Finishing l as r", OF sim t _ broadcast_roles [OF s(4)]])
        (use view s m lock False in \<open>simp_all add: send_goto_def set_pool_def\<close>)
    ultimately show ?thesis using False by auto
  qed
qed

lemma sim_close_pool:
  assumes sim: "sim x s" and t: "sn_pcs x t = Some (ClosingPool d)" and lock: "sn_lock x = None"
    and close: "Pool_Close ops (cl_pool (sn_client x)) (wd_tp (sn_world x)) (wd_conns (sn_world x)) = (p, tp, conns)"
  shows "\<exists>s'. pool_step\<^sup>*\<^sup>* s s' \<and> sim (send_goto t (CloseBroadcast d)
    (set_pool p (x\<lparr>sn_world := (sn_world x)\<lparr>wd_tp := tp, wd_conns := conns\<rparr>\<rparr>))) s'"
proof -
  have s: "pl s = cl_pool (sn_client x)" "heap s = wd_conns (sn_world x)" "holder s = None" "standing (gos s) = roles (sn_pcs x)"
    using sim lock by (simp_all add: sim_def)
  let ?s = "s\<lparr>pl := close_pass (pl s), heap := snd (close_all None () (heap s) (idleConnections (pl s))),
    gos := (gos s)(2 * t \<mapsto> Closing)\<rparr>"
  have c: "p = close_pass (pl s)" "conns = snd (close_all None () (heap s) (idleConnections (pl s)))"
    using close closed_heap [of ops "wd_tp (sn_world x)" "heap s" "idleConnections (pl s)"] s(1,2)
    by (auto simp: Pool_Close_def split: prod.splits)
  have "pool_step s ?s" using sim_at(2) [OF sim t] by (intro pool_step.close standing_outside s(3)) simp
  moreover have "sim (send_goto t (CloseBroadcast d)
      (set_pool p (x\<lparr>sn_world := (sn_world x)\<lparr>wd_tp := tp, wd_conns := conns\<rparr>\<rparr>))) ?s"
    by (rule sim_wakes [where pc' = "CloseBroadcast d", OF sim t woken_refl s(4)]) (use c s lock in \<open>simp_all add: send_goto_def set_pool_def\<close>)
  ultimately show ?thesis by blast
qed

lemma send_step_sim:
  assumes step: "send_step ops x y" and sim: "sim x s" and own: "pool_owner_inv s"
  shows "\<exists>s'. pool_step\<^sup>*\<^sup>* s s' \<and> sim y s'"
  using step
proof (cases rule: send_step.cases)
  case (start_closed t d)
  show ?thesis by (rule sim_same [OF sim start_closed(2)]) (use start_closed in \<open>auto simp: send_goto_def kept_view_def\<close>)
next
  case (start t d req)
  show ?thesis by (rule sim_same [OF sim start(2)])
    (use start in \<open>auto simp: send_goto_def kept_view_def fresh_locals_def\<close>)
next
  case (enter t l)
  show ?thesis by (rule sim_same [OF sim enter(2)]) (use enter in \<open>auto simp: send_goto_def kept_view_def\<close>)
next
  case (give_up t l)
  show ?thesis by (rule sim_same [OF sim give_up(2)]) (use give_up in \<open>auto simp: send_goto_def kept_view_def\<close>)
next
  case (move t pc now k c w pc')
  then show ?thesis using sim_advance [OF sim own] by simp
next
  case (get t l p r)
  note at = sim_at [OF sim get(2)]
  have "pool_step s (s\<lparr>pl := p, holder := after_holder r (2 * t), gos := (gos s)(2 * t \<mapsto> after_pass r)\<rparr>)"
    using at(2) get(3,4) sim by (intro pool_step.enter standing_some) (simp_all add: sim_def)
  then show ?thesis unfolding get(1) by (intro sim_pass [OF sim get(2)]) (use at in simp_all)
next
  case (sleep t l)
  let ?s = "s\<lparr>holder := None, gos := (gos s)(2 * t \<mapsto> Asleep)\<rparr>"
  have "pool_step s ?s" using sim_at(2) [OF sim sleep(2)] by (intro pool_step.sleep standing_some) simp_all
  moreover have "sim y ?s"
    by (rule sim_wakes [where pc' = "GetAsleep l" and t = t, OF sim sleep(2) woken_refl])
      (use sleep(1) sim sim_at(1) [OF sim sleep(2)] in \<open>simp_all add: send_goto_def sim_def\<close>)
  ultimately show ?thesis by blast
next
  case (wake_closed t l)
  let ?s = "s\<lparr>gos := (gos s)(2 * t \<mapsto> Returned)\<rparr>"
  have "pool_step s ?s"
    using sim_at(2) [OF sim wake_closed(2)] wake_closed(3,4) sim
    by (intro pool_step.wake_closed standing_some) (simp_all add: sim_def)
  moreover have "sim y ?s"
    by (rule sim_wakes [where pc' = "get_failed l PoolClosed" and t = t, OF sim wake_closed(2) woken_refl])
      (use wake_closed(1) sim in \<open>simp_all add: send_goto_def sim_def\<close>)
  ultimately show ?thesis by blast
next
  case (wake t l p r)
  note at = sim_at [OF sim wake(2)]
  have "pool_step s (s\<lparr>pl := p, holder := after_holder r (2 * t), gos := (gos s)(2 * t \<mapsto> after_pass r)\<rparr>)"
    using at(2) wake(3,4,5) sim by (intro pool_step.wake standing_some) (simp_all add: sim_def)
  then show ?thesis unfolding wake(1) by (intro sim_pass [OF sim wake(2)]) (use at in simp_all)
next
  case (signal t l err m)
  have s: "standing (gos s) = roles (sn_pcs x)" using sim by (simp add: sim_def)
  obtain g where g: "pool_signal (gos s) g" "standing g = roles m" using signal_roles [OF signal(3) s] by blast
  let ?s = "s\<lparr>gos := g(2 * t \<mapsto> Returned)\<rparr>"
  have "pool_step s ?s"
    using sim_at(2) [OF sim signal(2)] g(1) by (intro pool_step.signal standing_some) simp_all
  moreover have "sim y ?s"
    by (rule sim_wakes [where pc' = "get_failed l err" and t = t, OF sim signal(2) woken_signal [OF signal(3)] g(2)])
      (use signal(1) sim in \<open>simp_all add: send_goto_def sim_def\<close>)
  ultimately show ?thesis by blast
next
  case (put_closing t l a as r p m)
  then show ?thesis using sim_put_locked [OF sim put_closing(2-4), where ops = ops and m = m] by simp
next
  case (put t l a as r p)
  then show ?thesis using sim_put_locked [OF sim put(2-4), where m = "send_broadcast (sn_pcs x)"] by simp
next
  case (finish t l r)
  show ?thesis by (rule sim_same [OF sim finish(2)]) (use finish in \<open>auto simp: send_goto_def kept_view_def\<close>)
next
  case (resume t d r)
  show ?thesis by (rule sim_same [OF sim resume(2)]) (use resume in \<open>auto simp: send_goto_def kept_view_def\<close>)
next
  case (open_dedicated t d d')
  let ?u = "Suc (2 * t)" and ?pc = "Opening (ByWorker d')"
  have "standing (gos s) ?u = Returned \<or> (\<exists>a. standing (gos s) ?u = Apart a)"
    using sim_at(3) [OF sim open_dedicated(2)] by (auto simp: kept_view_def split: option.splits)
  then obtain g where g: "pool_step\<^sup>*\<^sup>* s (s\<lparr>gos := g\<rparr>)" "standing g = (standing (gos s))(?u := Returned)"
    using sim_part by blast
  show ?thesis
  proof (cases "d' = d")
    case True
    show ?thesis by (rule sim_same [OF sim open_dedicated(2)])
      (use open_dedicated True in \<open>auto simp: send_goto_def kept_view_def\<close>)
  next
    case False
    then have "d' = None" using open_dedicated(3) by simp
    then have "roles ((sn_pcs x)(t \<mapsto> ?pc)) = (roles (sn_pcs x))(?u := Returned)"
      using roles_kept [of "sn_pcs x" t "Out d" ?pc] open_dedicated(2) by (simp add: kept_view_def)
    then have "sim y (s\<lparr>gos := g\<rparr>)"
      by (intro sim_change [where t = t and pc' = ?pc, OF sim _ woken_refl])
        (use open_dedicated(1) sim g(2) in \<open>simp_all add: send_goto_def sim_def\<close>)
    with g(1) show ?thesis by blast
  qed
next
  case (close_dedicated t a)
  let ?u = "Suc (2 * t)" and ?s = "s\<lparr>heap := (heap s)[a := (heap s ! a)\<lparr>conn_closed := True\<rparr>]\<rparr>"
  have "pool_step s ?s" by (rule sim_use [OF sim close_dedicated(2)]) simp
  moreover obtain g where g: "pool_step\<^sup>*\<^sup>* ?s (?s\<lparr>gos := g\<rparr>)" "standing g = (standing (gos s))(?u := Returned)"
    using sim_part [of ?s ?u a] sim_at(3) [OF sim close_dedicated(2)] by (auto simp: kept_view_def)
  moreover have "roles ((sn_pcs x)(t \<mapsto> Out None)) = (roles (sn_pcs x))(?u := Returned)"
    using roles_kept [of "sn_pcs x" t "Out (Some a)" "Out None"] close_dedicated(2) by (simp add: kept_view_def)
  then have "sim y (?s\<lparr>gos := g\<rparr>)"
    by (intro sim_change [where t = t and pc' = "Out None", OF sim _ woken_refl])
      (use close_dedicated(1) sim g(2) in \<open>simp_all add: send_goto_def sim_def close_heap\<close>)
  ultimately show ?thesis by (meson converse_rtranclp_into_rtranclp)
next
  case (close t d)
  show ?thesis by (rule sim_same [OF sim close(2)]) (use close in \<open>auto simp: send_goto_def kept_view_def\<close>)
next
  case (close_pool t d p tp conns)
  then show ?thesis using sim_close_pool [OF sim close_pool(2-4)] by simp
next
  case (close_broadcast t d)
  let ?s = "s\<lparr>gos := (pool_broadcast (gos s))(2 * t \<mapsto> Returned)\<rparr>"
  have "pool_step s ?s"
    using sim_at(2) [OF sim close_broadcast(2)] by (intro pool_step.close_broadcast standing_some) simp_all
  moreover have "standing (gos s) = roles (sn_pcs x)" using sim by (simp add: sim_def)
  then have "sim y ?s"
    by (intro sim_wakes [where pc' = "Out d" and t = t, OF sim close_broadcast(2) woken_broadcast broadcast_roles])
      (use close_broadcast(1) sim in \<open>simp_all add: send_goto_def sim_def\<close>)
  ultimately show ?thesis by blast
next
  case (set_mode mode)
  then have "sim y s" using sim by (simp add: sim_def SetConnectionMode_def)
  then show ?thesis by blast
next
  case cancel
  then have "sim y s" using sim by (simp add: sim_def)
  then show ?thesis by blast
qed

lemma sim_init:
  assumes "wd_conns w = []"
  shows "sim (send_init c w n) (pool_init (cl_pool c))"
proof -
  have "roles (sn_pcs (send_init c w n)) = (\<lambda>u. Returned)"
    by (auto simp: roles_def send_init_def kept_view_def fun_eq_iff)
  then show ?thesis using assms by (auto simp: sim_def send_init_def pool_init_def standing_def split: if_splits)
qed

lemma calls_sim:
  assumes "(send_step ops)\<^sup>*\<^sup>* (send_init c w n) x" and "wd_conns w = []"
    and "cl_pool c = NewPool clientID maxRequests strategy maxTotal"
  shows "\<exists>s. pool_step\<^sup>*\<^sup>* (pool_init (cl_pool c)) s \<and> sim x s"
  using assms(1)
proof (induction rule: rtranclp_induct)
  case base
  then show ?case using sim_init [OF assms(2)] by blast
next
  case (step y z)
  then obtain s where s: "pool_step\<^sup>*\<^sup>* (pool_init (cl_pool c)) s" "sim y s" by blast
  then have "pool_owner_inv s" using pool_reach_inv(1) assms(3) by simp
  from send_step_sim [OF step.hyps(2) s(2) this] s(1) show ?case by (meson rtranclp_trans)
qed

lemma new_client_pool:
  "\<exists>maxRequests. cl_pool (NewClient config) =
     NewPool (clc_ID config) maxRequests (clc_ConnectionPoolStrategy config) (clc_MaxConnections config)"
  by (auto simp: NewClient_def Let_def)

text \<open>The connection a goroutine works with.\<close>

fun works_on :: "send_pc \<Rightarrow> nat option" where
  "works_on (Checking l a) = Some a"
| "works_on (Stale l a) = Some a"
| "works_on (Opened opn a) = Some a"
| "works_on (Using l a) = Some a"
| "works_on (Incrementing l a) = Some a"
| "works_on (Calling l a s) = Some a"
| "works_on (Answered l a r) = Some a"
| "works_on (Judging l a latency resp) = Some a"
| "works_on (Judged l a latency resp) = Some a"
| "works_on (Finishing l (CloseIt a # as) r) = Some a"
| "works_on (Finishing l (PutBack a # as) r) = Some a"
| "works_on (Finishing l (PutLocked a # as) r) = Some a"
| "works_on _ = None"

lemma own_view_owned: "lv_dedicated l \<noteq> Some a \<Longrightarrow> owned (own_view l a) = Some a"
  "lv_usePool l \<Longrightarrow> owned (own_view l a) = Some a"
  by (simp_all add: own_view_def)

lemma works_on_owned:
  assumes "works_on pc = Some a" and "pc_ok pc"
  shows "owned (call_view pc) = Some a \<or> keeps pc = Some a"
  using assms own_view_owned
  by (cases pc rule: works_on.cases) (auto, metis call_view.simps(1) keeps.simps(11) keeps.simps(12) opener.exhaust)

text \<open>Connections of different goroutines, worked with or kept, and those of the pool are distinct.\<close>

lemma sim_exclusive:
  assumes sim: "sim x s" and own: "pool_owner_inv s" and t: "sn_pcs x t = Some pc"
    and a: "works_on pc = Some a \<or> keeps pc = Some a"
  shows "\<exists>r. (r = 2 * t \<or> r = Suc (2 * t)) \<and> holding (gos s) r = Some a"
proof -
  note at = sim_at [OF sim t]
  have "owned (call_view pc) = Some a \<or> owned (kept_view pc) = Some a"
    using a works_on_owned [OF _ at(1)] by (auto simp: kept_view_def)
  moreover have "holding g u = owned (standing g u)" for g u
    by (auto simp: holding_def standing_def split: option.splits)
  ultimately show ?thesis using at(2,3) by auto
qed

lemma calls_limit:
  assumes "(send_step ops)\<^sup>*\<^sup>* (send_init (NewClient config) w n) x" and "wd_conns w = []"
    and "0 < clc_MaxConnections config" and "in64 (clc_MaxConnections config)"
  shows "pl_TotalConnections (cl_pool (sn_client x)) \<le> clc_MaxConnections config"
proof -
  obtain maxRequests where p: "cl_pool (NewClient config) =
      NewPool (clc_ID config) maxRequests (clc_ConnectionPoolStrategy config) (clc_MaxConnections config)"
    using new_client_pool by blast
  obtain s where s: "pool_step\<^sup>*\<^sup>* (pool_init (cl_pool (NewClient config))) s" "sim x s"
    using calls_sim [OF assms(1,2) p] by blast
  have "pl_TotalConnections (pl s) \<le> pl_maxTotalConnections (pl s)"
    using pool_reach_inv(2) [OF s(1) [unfolded p] assms(3,4)] by (simp add: pool_slot_inv_def)
  then show ?thesis using pool_reach_max [OF s(1) [unfolded p]] s(2) by (simp add: sim_def)
qed

section \<open>Properties\<close>

text \<open>Two goroutines; the first opens its dedicated connection.\<close>

definition demo_opened :: "nat send_sys" where
  "demo_opened = (send_init demo_client demo_world 2)
     \<lparr>sn_world := demo_world\<lparr>wd_lb := fst (PickServer 0 (wd_lb demo_world)),
        wd_conns := [NewConnection (now_at 1 1) (new_conn_id (cl_pool demo_client) ''a'' (now_at 1 1)) ''a'' 2]\<rparr>,
      sn_pcs := [0 \<mapsto> Opened (ByWorker None) 0, 1 \<mapsto> Out None]\<rparr>"

lemma demo_opened_reach: "(send_step demo_ops)\<^sup>*\<^sup>* (send_init demo_client demo_world 2) demo_opened"
proof -
  let ?x = "send_init demo_client demo_world 2"
  have pcs: "sn_pcs ?x 0 = Some (Out None)" "sn_client ?x = demo_client" "sn_world ?x = demo_world"
    by (simp_all add: send_init_def)
  obtain lb where pick: "PickServer 0 (wd_lb demo_world) = (lb, Inr (demo_server ''a'' 1))"
    by (simp add: demo_client_defs Let_def)
  have a: "si_ID (demo_server ''a'' 1) = ''a''" by (simp add: demo_server_def)
  have conn: "Pool_Create (cl_pool demo_client) (now_at 1 1) ''a'' =
      Inr (NewConnection (now_at 1 1) (new_conn_id (cl_pool demo_client) ''a'' (now_at 1 1)) ''a'' 2)" "wd_conns demo_world = []"
    by (simp_all add: demo_client_def demo_world_def NewClient_def NewPool_def Pool_Create_def Let_def)
  let ?y = "send_goto 0 (Opening (ByWorker None)) ?x"
  let ?z = "send_goto 0 (Creating (ByWorker None) ''a'') (?y\<lparr>sn_client := demo_client, sn_world := demo_world\<lparr>wd_lb := lb\<rparr>\<rparr>)"
  let ?w = "demo_world\<lparr>wd_lb := lb, wd_conns :=
    [NewConnection (now_at 1 1) (new_conn_id (cl_pool demo_client) ''a'' (now_at 1 1)) ''a'' 2]\<rparr>"
  have 1: "send_step demo_ops ?x ?y" by (rule send_step.open_dedicated [OF pcs(1)]) simp
  have 2: "send_step demo_ops ?y ?z"
    by (rule send_step.move [where k = 0 and now = "now_at 0 0" and pc = "Opening (ByWorker None)"])
      (use pcs pick a in \<open>simp_all add: send_goto_def\<close>)
  have "send_step demo_ops ?z (send_goto 0 (Opened (ByWorker None) 0) (?z\<lparr>sn_client := demo_client, sn_world := ?w\<rparr>))"
    by (rule send_step.move [where now = "now_at 1 1" and pc = "Creating (ByWorker None) ''a''"])
      (use pcs conn in \<open>simp_all add: send_goto_def\<close>)
  moreover have "send_goto 0 (Opened (ByWorker None) 0) (?z\<lparr>sn_client := demo_client, sn_world := ?w\<rparr>) = demo_opened"
    by (auto simp: demo_opened_def pick send_goto_def send_init_def fun_eq_iff)
  ultimately show ?thesis using solo_first [OF 1 solo_first [OF 2 solo_first [OF _ rtranclp.rtrancl_refl]]] by simp
qed

text \<open>
  C27. \<^verbatim>\<open>Client.Send\<close> uses the pool as the pool expects. Every interleaving of calls, of workers
  that open and close their dedicated connections, of changes of the mode and of \<^verbatim>\<open>Close\<close> is, on
  the pool, its mutex and the connections, an interleaving of the pool's own callers.
\<close>

theorem calls_refine_pool:
  assumes "(send_step ops)\<^sup>*\<^sup>* (send_init (NewClient config) w n) x" and "wd_conns w = []"
  shows "\<exists>s. pool_step\<^sup>*\<^sup>* (pool_init (cl_pool (NewClient config))) s \<and> sim x s"
  using calls_sim [OF assms] new_client_pool by blast

theorem calls_refine_pool_witness:
  "\<exists>s. pool_step\<^sup>*\<^sup>* (pool_init (cl_pool demo_client)) s \<and> heap s = wd_conns (sn_world demo_opened)"
proof -
  have "wd_conns demo_world = []" by (simp add: demo_world_def)
  from calls_refine_pool [OF demo_opened_reach [unfolded demo_client_def] this]
  obtain s where "pool_step\<^sup>*\<^sup>* (pool_init (cl_pool demo_client)) s" "sim demo_opened s"
    by (auto simp: demo_client_def)
  then show ?thesis by (auto simp: sim_def)
qed

text \<open>
  C28. A connection has one user. However calls interleave, in all modes, the connection a
  goroutine works with or keeps as its dedicated one is not idle in the pool, and no other goroutine
  works with it or keeps it.
\<close>

theorem calls_exclusive:
  assumes "(send_step ops)\<^sup>*\<^sup>* (send_init (NewClient config) w n) x" and "wd_conns w = []"
    and "sn_pcs x t = Some pc" and "sn_pcs x u = Some pc'" and "t \<noteq> u"
    and "works_on pc = Some a \<or> keeps pc = Some a"
  shows "a \<notin> set (idleConnections (cl_pool (sn_client x))) \<and> works_on pc' \<noteq> Some a \<and> keeps pc' \<noteq> Some a"
proof -
  obtain maxRequests where p: "cl_pool (NewClient config) =
      NewPool (clc_ID config) maxRequests (clc_ConnectionPoolStrategy config) (clc_MaxConnections config)"
    using new_client_pool by blast
  obtain s where s: "pool_step\<^sup>*\<^sup>* (pool_init (cl_pool (NewClient config))) s" and sim: "sim x s"
    using calls_sim [OF assms(1,2) p] by blast
  have own: "pool_owner_inv s" using pool_reach_inv(1) s [unfolded p] by blast
  then have ok: "owner_ok (length (heap s)) (idleConnections (cl_pool (sn_client x))) (holding (gos s))"
    using sim by (simp add: pool_owner_inv_def sim_def)
  obtain r where r: "r = 2 * t \<or> r = Suc (2 * t)" "holding (gos s) r = Some a"
    using sim_exclusive [OF sim own assms(3,6)] by blast
  have "\<not> (works_on pc' = Some a \<or> keeps pc' = Some a)"
  proof
    assume "works_on pc' = Some a \<or> keeps pc' = Some a"
    from sim_exclusive [OF sim own assms(4) this] obtain q where
      q: "q = 2 * u \<or> q = Suc (2 * u)" "holding (gos s) q = Some a" by blast
    then have "q = r" using r(2) ok by (auto simp: owner_ok_def)
    with q(1) r(1) assms(5) show False by presburger
  qed
  then show ?thesis using ok r(2) by (auto simp: owner_ok_def)
qed

theorem calls_exclusive_witness:
  "sn_pcs demo_opened 0 = Some (Opened (ByWorker None) 0) \<and> works_on (Opened (ByWorker None) 0) = Some (0 :: nat)
    \<and> sn_pcs demo_opened 1 = Some (Out None)
    \<and> 0 \<notin> set (idleConnections (cl_pool (sn_client demo_opened)))
    \<and> works_on (Out None) \<noteq> Some (0 :: nat) \<and> keeps (Out None) \<noteq> Some (0 :: nat)"
proof -
  have "wd_conns demo_world = []" by (simp add: demo_world_def)
  moreover have "sn_pcs demo_opened 0 = Some (Opened (ByWorker None) 0)" "sn_pcs demo_opened 1 = Some (Out None)"
    by (simp_all add: demo_opened_def send_init_def)
  ultimately show ?thesis
    using calls_exclusive [OF demo_opened_reach [unfolded demo_client_def], of 0 "Opened (ByWorker None) 0" 1 "Out None" 0]
    by simp
qed

end
