(* ===== verification/Remote.thy ===== *)
theory Remote
  imports Registry
begin

text \<open>
  \<^verbatim>\<open>pkg/ratelimiter/remote/remote.go\<close>: the limiter that stands for a remote service, and the
  server of that service. \<^verbatim>\<open>grpc.DialContext\<close>, \<^verbatim>\<open>conn.Close\<close> and \<^verbatim>\<open>net.Listen\<close> are arguments;
  serving in the background has no effect on the state.

  Shown: a client that is not closed admits everything without asking anyone; the server
  answers what its limiter answers; and a server whose \<^verbatim>\<open>Listen\<close> failed can only be stopped.
\<close>

section \<open>Messages\<close>

record allow_request =
  ar_Key :: string
  ar_Count :: int64
  ar_Headers :: "string \<rightharpoonup> string"

record allow_response =
  as_Allowed :: bool
  as_Remaining :: int64
  as_RetryAfter :: float64
  as_LimitedBy :: string

section \<open>The client\<close>

record 'c remote_client =
  rc_address :: string
  rc_conn :: "'c option"
  rc_config :: rate_limiter_config
  rc_closed :: bool

definition Remote_NewClient :: "string \<Rightarrow> rate_limiter_config \<Rightarrow> error + 'c remote_client" where
  "Remote_NewClient address config = Inr \<lparr>rc_address = address, rc_conn = None, rc_config = config, rc_closed = False\<rparr>"

definition Connect :: "(string \<Rightarrow> error + 'c) \<Rightarrow> 'c remote_client \<Rightarrow> 'c remote_client \<times> error option" where
  "Connect dial c =
     (if rc_conn c \<noteq> None then (c, None)
      else case dial (rc_address c) of
             Inl err \<Rightarrow> (c, Some (Wrapped ''failed to connect to rate limiter service'' err))
           | Inr conn \<Rightarrow> (c\<lparr>rc_conn := Some conn\<rparr>, None))"

definition RemoteClient_AllowN :: "'c remote_client \<Rightarrow> string \<Rightarrow> int64 \<Rightarrow> error + rate_limit_result" where
  "RemoteClient_AllowN c key n =
     (if rc_closed c then Inl ClientClosed else Inr (zero_result\<lparr>Allowed := True, Remaining := 100\<rparr>))"

definition RemoteClient_Allow :: "'c remote_client \<Rightarrow> string \<Rightarrow> error + rate_limit_result" where
  "RemoteClient_Allow c key = RemoteClient_AllowN c key 1"

definition RemoteClient_Reset :: "'c remote_client \<Rightarrow> string \<Rightarrow> error option" where
  "RemoteClient_Reset c key = (if rc_closed c then Some ClientClosed else None)"

definition RemoteClient_Close :: "('c \<Rightarrow> error option) \<Rightarrow> 'c remote_client \<Rightarrow> 'c remote_client \<times> error option" where
  "RemoteClient_Close closeConn c =
     (c\<lparr>rc_closed := True\<rparr>, case rc_conn c of None \<Rightarrow> None | Some conn \<Rightarrow> closeConn conn)"

section \<open>The server\<close>

record remote_server =
  rs_address :: string
  rs_limiter :: limiter
  rs_serving :: bool
  rs_running :: bool

definition Remote_NewServer :: "(string \<rightharpoonup> factory) \<Rightarrow> string \<Rightarrow> rate_limiter_config \<Rightarrow> error + remote_server" where
  "Remote_NewServer registry address config =
     (case Create registry config of
        Inl err \<Rightarrow> Inl (Wrapped ''failed to create rate limiter'' err)
      | Inr l \<Rightarrow> Inr \<lparr>rs_address = address, rs_limiter = l, rs_serving = False, rs_running = False\<rparr>)"

definition RemoteServer_Start :: "(string \<Rightarrow> error option) \<Rightarrow> remote_server \<Rightarrow> remote_server \<times> error option" where
  "RemoteServer_Start listen s =
     (if rs_running s then (s, Some AlreadyRunning)
      else
      let s = s\<lparr>rs_running := True\<rparr>
      in case listen (rs_address s) of
           Some err \<Rightarrow> (s, Some (Wrapped ''failed to listen'' err))
         | None \<Rightarrow> (s\<lparr>rs_serving := True\<rparr>, None))"

definition RemoteServer_Stop :: "remote_server \<Rightarrow> remote_server" where
  "RemoteServer_Stop s =
     (if \<not> rs_running s then s else s\<lparr>rs_running := False, rs_limiter := limiter_Close (rs_limiter s)\<rparr>)"

definition RemoteServer_Allow :: "remote_server \<Rightarrow> gotime \<Rightarrow> allow_request \<Rightarrow> remote_server \<times> (error + allow_response)" where
  "RemoteServer_Allow s now req =
     (case limiter_AllowN (rs_limiter s) now (ar_Key req) (ar_Count req) of
        (l, Inl err) \<Rightarrow> (s\<lparr>rs_limiter := l\<rparr>, Inl err)
      | (l, Inr result) \<Rightarrow>
          (s\<lparr>rs_limiter := l\<rparr>, Inr \<lparr>as_Allowed = Allowed result, as_Remaining = Remaining result,
             as_RetryAfter = seconds (RetryAfter result), as_LimitedBy = LimitedBy result\<rparr>))"

definition RemoteServer_Reset :: "remote_server \<Rightarrow> string \<Rightarrow> remote_server \<times> bool" where
  "RemoteServer_Reset s key = (s\<lparr>rs_limiter := limiter_Reset (rs_limiter s) key\<rparr>, True)"

section \<open>Behaviour\<close>

lemma client_admits_everything:
  "\<not> rc_closed c \<Longrightarrow> \<exists>r. RemoteClient_AllowN c key n = Inr r \<and> Allowed r"
  by (simp add: RemoteClient_AllowN_def)

text \<open>A failed listen leaves the flag set: every further start is refused until a stop.\<close>

lemma start_failure_sticks:
  assumes "\<not> rs_running s" and "listen (rs_address s) = Some err" and "RemoteServer_Start listen s = (s', e)"
  shows "e \<noteq> None \<and> RemoteServer_Start listen' s' = (s', Some AlreadyRunning)"
  using assms by (auto simp: RemoteServer_Start_def Let_def)

text \<open>The limiter never fails, so neither does the service, and its answers are the limiter's.\<close>

lemma limiter_total: "\<exists>r. snd (limiter_AllowN l now key n) = Inr r"
  by (cases l) (simp_all add: TokenBucket_AllowN_def SlidingWindow_AllowN_def FixedWindow_AllowN_def
      LeakyBucket_AllowN_def case_prod_beta)

lemma service_answers:
  "\<exists>result. limiter_AllowN (rs_limiter s) now (ar_Key req) (ar_Count req) = (rs_limiter (fst (RemoteServer_Allow s now req)), Inr result)
     \<and> snd (RemoteServer_Allow s now req) = Inr \<lparr>as_Allowed = Allowed result, as_Remaining = Remaining result,
         as_RetryAfter = seconds (RetryAfter result), as_LimitedBy = LimitedBy result\<rparr>"
proof -
  obtain r where "snd (limiter_AllowN (rs_limiter s) now (ar_Key req) (ar_Count req)) = Inr r"
    using limiter_total by blast
  then show ?thesis
    by (cases "limiter_AllowN (rs_limiter s) now (ar_Key req) (ar_Count req)") (simp add: RemoteServer_Allow_def)
qed

end
