(* ===== verification/Crew.thy ===== *)
theory Crew
  imports Fleet Calls
begin

text \<open>
  The workers of one client with every call of \<^verbatim>\<open>Client.Send\<close> action by action: \<open>crew_step\<close> joins
  \<open>worker_step\<close>, for the actions of \<^verbatim>\<open>runClient\<close> that are one access to shared state, with
  \<open>send_step\<close>, for what happens inside of a call or while a worker opens its dedicated connection.
  Any number of workers can be inside of a call at once, at any places of it.

  Shown: seen from outside, a crew keeps the books of its client and shares the work exactly, as
  the workers of \<open>worker_step\<close> do; and every run of \<open>worker_step\<close>, where a call is one action, is
  one of the crew.
\<close>

section \<open>State and steps\<close>

text \<open>
  Where a worker is: between its calls; before the call with the numbered request, with its
  dedicated connection; in the call, or opening a connection, at a place of \<^verbatim>\<open>Client.Send\<close>.
\<close>

datatype crew_pc = At worker_pc | Numbered "nat option" request | Inside send_pc

record 't crew =
  cr_client :: client
  cr_world :: "'t world"
  cr_metrics :: collector
  cr_limiter :: "token_bucket option"
  cr_counter :: int64
  cr_sent :: int64
  cr_cancelled :: bool
  cr_lock :: "nat option"
  cr_used :: int
  cr_pcs :: "nat \<rightharpoonup> crew_pc"

text \<open>The crew as the calls see it, and what they leave.\<close>

fun conn_of :: "worker_pc \<Rightarrow> nat option" where
  "conn_of Starting = None"
| "conn_of (Top d) = d"
| "conn_of (Claimed d) = d"
| "conn_of (Throttled d) = d"
| "conn_of (Sending d) = d"
| "conn_of (Replied d latency r) = d"
| "conn_of (Replacing failed d) = d"
| "conn_of Gone = None"

fun send_place :: "crew_pc \<Rightarrow> send_pc" where
  "send_place (At pc) = Out (conn_of pc)"
| "send_place (Numbered d req) = Out d"
| "send_place (Inside pc) = pc"

definition calls_of :: "'t crew \<Rightarrow> 't send_sys" where
  "calls_of x =
     \<lparr>sn_client = cr_client x, sn_world = cr_world x, sn_lock = cr_lock x, sn_used = cr_used x,
      sn_cancelled = cr_cancelled x, sn_pcs = (\<lambda>i. map_option send_place (cr_pcs x i))\<rparr>"

definition after_calls :: "'t send_sys \<Rightarrow> 't crew \<Rightarrow> 't crew" where
  "after_calls s x =
     x\<lparr>cr_client := sn_client s, cr_world := sn_world s, cr_lock := sn_lock s, cr_used := sn_used s,
       cr_cancelled := sn_cancelled s,
       cr_pcs := (\<lambda>i. case cr_pcs x i of Some (Inside _) \<Rightarrow> map_option Inside (sn_pcs s i) | q \<Rightarrow> q)\<rparr>"

text \<open>A worker between its calls, and what an action of it leaves.\<close>

definition worker_of :: "nat \<Rightarrow> worker_pc \<Rightarrow> 't crew \<Rightarrow> 't worker_sys" where
  "worker_of i pc x =
     \<lparr>wk_client = cr_client x, wk_world = cr_world x, wk_metrics = cr_metrics x, wk_limiter = cr_limiter x,
      requestCounter = cr_counter x, wk_requestCount = cr_sent x, wk_cancelled = cr_cancelled x, wk_pcs = [i \<mapsto> pc]\<rparr>"

definition after_own :: "nat \<Rightarrow> worker_pc \<Rightarrow> 't worker_sys \<Rightarrow> 't crew \<Rightarrow> 't crew" where
  "after_own i pc ws x =
     x\<lparr>cr_client := wk_client ws, cr_world := wk_world ws, cr_metrics := wk_metrics ws, cr_limiter := wk_limiter ws,
       cr_counter := requestCounter ws, cr_sent := wk_requestCount ws, cr_cancelled := wk_cancelled ws,
       cr_pcs := (cr_pcs x)(i \<mapsto> At pc)\<rparr>"

definition crew_goto :: "nat \<Rightarrow> crew_pc \<Rightarrow> 't crew \<Rightarrow> 't crew" where
  "crew_goto i pc x = x\<lparr>cr_pcs := (cr_pcs x)(i \<mapsto> pc)\<rparr>"

text \<open>The actions that are one access: all but the call and the opening of a connection.\<close>

fun one_access :: "client \<Rightarrow> worker_pc \<Rightarrow> bool" where
  "one_access c Starting = (cl_mode c \<noteq> ConnectionModeDedicated)"
| "one_access c (Sending d) = False"
| "one_access c (Replacing failed d) = False"
| "one_access c _ = True"

inductive crew_step :: "'t transport_ops option \<Rightarrow> worker_params \<Rightarrow> gotime \<Rightarrow> 't crew \<Rightarrow> 't crew \<Rightarrow> bool"
  for ops p clientDeadline where
  own: "cr_pcs x i = Some (At pc) \<Longrightarrow> one_access (cr_client x) pc \<Longrightarrow>
    worker_step ops p clientDeadline (worker_of i pc x) ws \<Longrightarrow> wk_pcs ws i = Some pc' \<Longrightarrow>
    crew_step ops p clientDeadline x (after_own i pc' ws x)"
| dial_first: "cr_pcs x i = Some (At Starting) \<Longrightarrow> cl_mode (cr_client x) = ConnectionModeDedicated \<Longrightarrow>
    crew_step ops p clientDeadline x (crew_goto i (Inside (Opening (ByWorker None))) x)"
| dial_again: "cr_pcs x i = Some (At (Replacing failed d)) \<Longrightarrow>
    crew_step ops p clientDeadline x (crew_goto i (Inside (Opening (ByWorker (if failed then d else None)))) x)"
| dialled: "cr_pcs x i = Some (Inside (Out d)) \<Longrightarrow> crew_step ops p clientDeadline x (crew_goto i (At (Top d)) x)"
| number: "cr_pcs x i = Some (At (Sending d)) \<Longrightarrow> n = w64 (cr_sent x + 1) \<Longrightarrow>
    crew_step ops p clientDeadline x
      (crew_goto i (Numbered d (new_request p (cl_id (cr_client x)) n now)) (x\<lparr>cr_sent := n\<rparr>))"
| call_closed: "cr_pcs x i = Some (Numbered d req) \<Longrightarrow> cl_closed (cr_client x) \<Longrightarrow>
    crew_step ops p clientDeadline x (crew_goto i (Inside (Back d (Inl ClientClosed))) x)"
| call: "cr_pcs x i = Some (Numbered d req) \<Longrightarrow> \<not> cl_closed (cr_client x) \<Longrightarrow>
    crew_step ops p clientDeadline x (crew_goto i (Inside (Gate (fresh_locals d req))) x)"
| inside: "call_step ops (calls_of x) s \<Longrightarrow> crew_step ops p clientDeadline x (after_calls s x)"
| answered: "cr_pcs x i = Some (Inside (Back d r)) \<Longrightarrow>
    crew_step ops p clientDeadline x (crew_goto i (At (Replied d latency r)) x)"

section \<open>The crew seen from outside\<close>

text \<open>
  A call that has its answer from the transport but has not counted it yet; the answer; a worker
  that opens its dedicated connection.
\<close>

fun unjudged :: "bool \<Rightarrow> send_pc \<Rightarrow> bool" where
  "unjudged limited (Answered l a r) = answer_is limited r"
| "unjudged limited (Judging l a latency resp) = (RateLimited resp = limited)"
| "unjudged limited _ = False"

fun reply_of :: "send_pc \<Rightarrow> error + response" where
  "reply_of (Answered l a r) = r"
| "reply_of (Judging l a latency resp) = Inr resp"
| "reply_of (Judged l a latency resp) = Inr resp"
| "reply_of (Finishing l as r) = r"
| "reply_of (Back d r) = r"
| "reply_of _ = Inl ContextDone"

fun dialling :: "send_pc \<Rightarrow> bool" where
  "dialling (Opening opn) = (\<not> sending opn)"
| "dialling (Creating opn serverID) = (\<not> sending opn)"
| "dialling (Opened opn a) = (\<not> sending opn)"
| "dialling (Out d) = True"
| "dialling _ = False"

fun as_worker :: "crew_pc \<Rightarrow> worker_pc" where
  "as_worker (At pc) = pc"
| "as_worker (Numbered d req) = Replied None 0 (Inl ContextDone)"
| "as_worker (Inside pc) = (if dialling pc then Replacing True None else Replied None 0 (reply_of pc))"

text \<open>
  The crew as if a call were one action that ends when the transport answers, with the counters of
  the client as they will be when the answers there are have been counted.
\<close>

definition with_unjudged :: "(nat \<rightharpoonup> send_pc) \<Rightarrow> client \<Rightarrow> client" where
  "with_unjudged m c = c\<lparr>cl_stats := (cl_stats c)
     \<lparr>cs_successfulRequests := w64 (cs_successfulRequests (cl_stats c) + count_threads (unjudged False) m),
      cs_rateLimitedRequests := w64 (cs_rateLimitedRequests (cl_stats c) + count_threads (unjudged True) m)\<rparr>\<rparr>"

definition see :: "'t crew \<Rightarrow> 't worker_sys" where
  "see x =
     \<lparr>wk_client = with_unjudged (sn_pcs (calls_of x)) (cr_client x), wk_world = cr_world x, wk_metrics = cr_metrics x,
      wk_limiter = cr_limiter x, requestCounter = cr_counter x, wk_requestCount = cr_sent x,
      wk_cancelled = cr_cancelled x, wk_pcs = (\<lambda>i. map_option as_worker (cr_pcs x i))\<rparr>"
section \<open>What a step inside of the calls does\<close>

text \<open>The transport has given this answer.\<close>

fun earned :: "send_pc \<Rightarrow> send_pc \<Rightarrow> bool option" where
  "earned (Calling l a shouldClose) (Answered l' a' (Inr resp)) = Some (RateLimited resp)"
| "earned _ _ = None"

definition client_count :: "bool \<Rightarrow> client \<Rightarrow> int64" where
  "client_count limited c = (if limited then cs_rateLimitedRequests (cl_stats c) else cs_successfulRequests (cl_stats c))"

text \<open>An answer is earned, or counted, or neither; once earned it stays the answer.\<close>

definition judges :: "bool \<Rightarrow> client \<Rightarrow> client \<Rightarrow> send_pc \<Rightarrow> send_pc \<Rightarrow> bool option \<Rightarrow> bool" where
  "judges limited c c' pc pc' e \<longleftrightarrow>
     (\<exists>n. client_count limited c' = (if n then w64 (client_count limited c + 1) else client_count limited c)
        \<and> of_bool n + of_bool (unjudged limited pc') = (of_bool (unjudged limited pc) + of_bool (e = Some limited) :: int))
     \<and> (answer_is limited (reply_of pc') \<longleftrightarrow> answer_is limited (reply_of pc) \<or> e = Some limited)
     \<and> (e = Some limited \<longrightarrow> \<not> answer_is limited (reply_of pc))"

lemma answer_is_simps [simp]:
  "answer_is limited (Inl err) = False" "answer_is limited (Inr resp) = (RateLimited resp = limited)"
  by (simp_all add: answer_is_def)

lemma final_response_limited [simp]: "RateLimited (final_response mode closing latency resp) = RateLimited resp"
  by (simp add: final_response_def)

lemma client_count_other [simp]:
  "client_count limited (c\<lparr>cl_pool := p\<rparr>) = client_count limited c"
  "client_count limited (SetConnectionMode c mode) = client_count limited c"
  by (simp_all add: client_count_def SetConnectionMode_def)

lemma client_count_bump [simp]:
  "client_count limited (bump CTotal c) = client_count limited c"
  "client_count limited (bump CFailed c) = client_count limited c"
  "client_count limited (bump COpened c) = client_count limited c"
  "client_count limited (bump CClosed c) = client_count limited c"
  "client_count limited (bump (CLatency d) c) = client_count limited c"
  "client_count True (bump CLimited c) = w64 (client_count True c + 1)"
  "client_count False (bump CLimited c) = client_count False c"
  "client_count False (bump CSuccess c) = w64 (client_count False c + 1)"
  "client_count True (bump CSuccess c) = client_count True c"
  by (simp_all add: client_count_def bump_def)

lemma judges_none:
  assumes "client_count limited c' = client_count limited c" and "unjudged limited pc' = unjudged limited pc"
    and "answer_is limited (reply_of pc') = answer_is limited (reply_of pc)"
  shows "judges limited c c' pc pc' None"
  using assms unfolding judges_def by (intro conjI exI [of _ False]) simp_all

lemma open_failed_view [simp]:
  "unjudged limited (open_failed opn err) = False" "answer_is limited (reply_of (open_failed opn err)) = False"
  "dialling (open_failed opn err) = (\<not> sending opn)"
  "unjudged limited (open_done opn a) = False" "answer_is limited (reply_of (open_done opn a)) = False"
  "dialling (open_done opn a) = (\<not> sending opn)"
  by (cases opn; simp add: send_failed_def)+

lemma get_view [simp]:
  "unjudged limited (get_failed l err) = False" "answer_is limited (reply_of (get_failed l err)) = False"
  "dialling (get_failed l err) = False"
  "unjudged limited (after_get l r) = False" "answer_is limited (reply_of (after_get l r)) = False"
  "dialling (after_get l r) = False"
  by (cases r; simp add: get_failed_def send_failed_def)+

lemma after_mode_view [simp]:
  "unjudged limited (after_mode c l) = False" "answer_is limited (reply_of (after_mode c l)) = False"
  "dialling (after_mode c l) = False"
  by (auto simp: after_mode_def Let_def split: option.split)

lemma advance_acts_view:
  assumes "advance ops now k c w (Finishing l as r) = Some (c', w', pc')" and "acts_ok as"
  obtains as' where "client_count limited c' = client_count limited c" "pc' = Finishing l as' r"
proof (cases as)
  case (Cons x bs)
  then show ?thesis using assms(1) acts_ok_tail [OF assms(2) [unfolded Cons]]
    by (cases x) (auto intro: that split: if_splits)
qed (use assms in simp)

lemma advance_judges:
  assumes "advance ops now k c w pc = Some (c', w', pc')" and once: "counts_once pc"
  shows "judges limited c c' pc pc' (earned pc pc') \<and> dialling pc' = dialling pc"
proof (cases pc)
  case (Finishing l as r)
  then obtain as' where "client_count limited c' = client_count limited c" "pc' = Finishing l as' r"
    using advance_acts_view [of ops now k c w l as r c' w' pc' limited] assms by auto
  then show ?thesis using Finishing by (simp add: judges_none)
next
  case (Judging l a latency resp)
  then have "c' = bump (if RateLimited resp then CLimited else CSuccess) c" "pc' = Judged l a latency resp"
    using assms(1) by simp_all
  then show ?thesis unfolding judges_def Judging
    by (intro conjI exI [of _ "RateLimited resp = limited"]; cases limited; cases "RateLimited resp"; simp)
next
  case (Calling l a shouldClose)
  then obtain r where "c' = c" "pc' = Answered l a r" using assms(1) by (auto split: prod.splits)
  then show ?thesis unfolding judges_def Calling by (intro conjI exI [of _ False]; cases r; simp)
next
  case (Answered l a r)
  then show ?thesis using assms(1) by (cases r) (auto simp: Let_def intro!: judges_none)
next
  case (Judged l a latency resp)
  then show ?thesis using assms(1) by (auto simp: Let_def judges_none)
qed (use assms(1) in \<open>auto intro!: judges_none simp: Let_def split: prod.splits sum.splits if_splits\<close>)
context transport_measure begin

lemma transport_call_measure:
  "transport_call (Some ops) t conn shouldClose req = (t', r) \<Longrightarrow>
    f t' = (case r of Inr resp \<Rightarrow> advance (RateLimited resp) (f t) | Inl _ \<Rightarrow> f t)"
  by (auto simp: transport_call_def answered refused split: prod.splits sum.splits)

lemma advance_measure:
  assumes "Calls.advance (Some ops) now k c w pc = Some (c', w', pc')"
  shows "f (wd_tp w') = (case earned pc pc' of Some limited \<Rightarrow> advance limited (f (wd_tp w)) | None \<Rightarrow> f (wd_tp w))"
proof (cases pc)
  case (Calling l a shouldClose)
  obtain t r where "transport_call (Some ops) (wd_tp w) (wd_conns w ! a) shouldClose (lv_req l) = (t, r)" by fastforce
  then show ?thesis using assms Calling transport_call_measure by (cases r) auto
next
  case (Finishing l as r)
  then show ?thesis using assms
    by (cases "(Some ops, now, k, c, w, pc)" rule: Calls.advance.cases) (auto simp: rest.closed split: if_splits)
qed (use assms rest.closed in \<open>auto simp: Let_def split: prod.splits sum.splits if_splits\<close>)

end
lemma advance_once:
  assumes "advance ops now k c w pc = Some (c', w', pc')" and "counts_once pc"
  shows "counts_once pc'"
proof (cases pc)
  case (Finishing l as r)
  then show ?thesis using assms acts_ok_tail
    by (cases "(ops, now, k, c, w, pc)" rule: advance.cases) (auto simp: acts_ok_quiet split: if_splits)
qed (use assms in \<open>auto simp: after_mode_pc Let_def acts_ok_quiet split: prod.splits sum.splits if_splits\<close>)

text \<open>
  One goroutine moves from \<open>pc\<close> to \<open>pc'\<close> and may wake others; or nobody moves and nothing is
  counted.
\<close>

definition call_moved :: "'t send_sys \<Rightarrow> 't send_sys \<Rightarrow> nat \<Rightarrow> send_pc \<Rightarrow> (nat \<rightharpoonup> send_pc) \<Rightarrow> send_pc \<Rightarrow> bool option \<Rightarrow> bool" where
  "call_moved x y t pc m pc' e \<longleftrightarrow>
     sn_pcs x t = Some pc \<and> \<not> elsewhere pc \<and> (\<forall>l. pc \<noteq> GetAsleep l) \<and> woken (sn_pcs x) m \<and> sn_pcs y = m(t \<mapsto> pc')
     \<and> counts_once pc' \<and> dialling pc' = dialling pc \<and> (\<forall>limited. judges limited (sn_client x) (sn_client y) pc pc' e)
     \<and> sn_cancelled y = sn_cancelled x"

definition call_idle :: "'t send_sys \<Rightarrow> 't send_sys \<Rightarrow> bool" where
  "call_idle x y \<longleftrightarrow>
     sn_pcs y = sn_pcs x \<and> sn_world y = sn_world x
     \<and> (\<forall>limited. client_count limited (sn_client y) = client_count limited (sn_client x))
     \<and> (sn_cancelled x \<longrightarrow> sn_cancelled y)"

context transport_measure begin

lemma call_step_effect:
  assumes step: "call_step (Some ops) x y" and once: "\<forall>t pc. sn_pcs x t = Some pc \<longrightarrow> counts_once pc"
  shows "call_idle x y \<or> (\<exists>t pc m pc' e. call_moved x y t pc m pc' e
    \<and> f (wd_tp (sn_world y)) = (case e of Some limited \<Rightarrow> advance limited (f (wd_tp (sn_world x))) | None \<Rightarrow> f (wd_tp (sn_world x))))"
proof -
  have moved: ?thesis
    if "call_moved x y t pc m pc' None" "f (wd_tp (sn_world y)) = f (wd_tp (sn_world x))" for t pc m pc'
    using that by fastforce
  have inside: "send_step (Some ops) x y" "\<And>t pc. sn_pcs x t = Some pc \<Longrightarrow> elsewhere pc \<Longrightarrow> sn_pcs y t = Some pc"
    using step by (auto simp: call_step_def)
  show ?thesis
    using inside(1)
  proof (cases rule: send_step.cases)
    case (move t pc now k c w pc')
    have "\<And>l. pc \<noteq> GetAsleep l" "\<not> elsewhere pc" using move(3) by (auto simp: advance_not_elsewhere)
    then have "call_moved x y t pc (sn_pcs x) pc' (earned pc pc')"
      using move advance_judges [OF move(3)] advance_once [OF move(3)] once by (simp add: call_moved_def send_goto_def)
    moreover have "sn_world y = w" by (simp add: move(1) send_goto_def)
    ultimately show ?thesis using advance_measure [OF move(3)] by (intro disjI2 exI conjI) simp_all
  next
    case (enter t l)
    show ?thesis by (rule moved [of t "Gate l" "sn_pcs x" "Entered l"])
      (use enter in \<open>auto simp: call_moved_def send_goto_def judges_none\<close>)
  next
    case (give_up t l)
    show ?thesis by (rule moved [of t "Gate l" "sn_pcs x" "Back (lv_dedicated l) (Inl ContextDone)"])
      (use give_up in \<open>auto simp: call_moved_def send_goto_def judges_none\<close>)
  next
    case (get t l p r)
    show ?thesis by (rule moved [of t "GetEnter l" "sn_pcs x" "after_get l r"])
      (use get in \<open>auto simp: call_moved_def send_goto_def set_pool_def judges_none\<close>)
  next
    case (sleep t l)
    show ?thesis by (rule moved [of t "GetDecide l" "sn_pcs x" "GetAsleep l"])
      (use sleep in \<open>auto simp: call_moved_def send_goto_def judges_none\<close>)
  next
    case (wake_closed t l)
    show ?thesis by (rule moved [of t "GetAwake l" "sn_pcs x" "get_failed l PoolClosed"])
      (use wake_closed in \<open>auto simp: call_moved_def send_goto_def judges_none\<close>)
  next
    case (wake t l p r)
    show ?thesis by (rule moved [of t "GetAwake l" "sn_pcs x" "after_get l r"])
      (use wake in \<open>auto simp: call_moved_def send_goto_def set_pool_def judges_none\<close>)
  next
    case (signal t l err m)
    show ?thesis by (rule moved [of t "Undone l err" m "get_failed l err"])
      (use signal in \<open>auto simp: call_moved_def send_goto_def judges_none woken_signal\<close>)
  next
    case (put_closing t l a as r p m)
    have "woken (sn_pcs x) m" using put_closing(5) by (auto intro: woken_signal split: if_splits)
    moreover have "quiet as" using once put_closing(2) by fastforce
    ultimately show ?thesis
      by (intro moved [of t "Finishing l (PutLocked a # as) r" m "Finishing l as r"])
        (use put_closing in \<open>auto simp: call_moved_def send_goto_def set_pool_def judges_none acts_ok_quiet rest.closed\<close>)
  next
    case (put t l a as r p)
    have "quiet as" using once put(2) by fastforce
    then show ?thesis
      by (intro moved [of t "Finishing l (PutLocked a # as) r" "send_broadcast (sn_pcs x)" "Finishing l as r"])
        (use put in \<open>auto simp: call_moved_def send_goto_def set_pool_def judges_none acts_ok_quiet\<close>)
  next
    case (finish t l r)
    show ?thesis by (rule moved [of t "Finishing l [] r" "sn_pcs x" "Back (lv_dedicated l) r"])
      (use finish in \<open>auto simp: call_moved_def send_goto_def judges_none\<close>)
  qed (use inside(2) in \<open>fastforce simp: call_idle_def send_goto_def set_pool_def\<close>)+
qed

end
section \<open>A step of the crew, seen from outside\<close>

definition crew_ok :: "'t crew \<Rightarrow> bool" where
  "crew_ok x \<longleftrightarrow> finite (dom (cr_pcs x)) \<and> (\<forall>i q. cr_pcs x i = Some q \<longrightarrow> counts_once (send_place q))"

lemma calls_of_sel [simp]:
  "sn_client (calls_of x) = cr_client x" "sn_world (calls_of x) = cr_world x" "sn_lock (calls_of x) = cr_lock x"
  "sn_used (calls_of x) = cr_used x" "sn_cancelled (calls_of x) = cr_cancelled x"
  "sn_pcs (calls_of x) i = map_option send_place (cr_pcs x i)" "dom (sn_pcs (calls_of x)) = dom (cr_pcs x)"
  by (auto simp: calls_of_def)

lemma see_sel [simp]:
  "wk_world (see x) = cr_world x" "wk_metrics (see x) = cr_metrics x" "wk_limiter (see x) = cr_limiter x"
  "requestCounter (see x) = cr_counter x" "wk_requestCount (see x) = cr_sent x" "wk_cancelled (see x) = cr_cancelled x"
  "wk_pcs (see x) i = map_option as_worker (cr_pcs x i)" "dom (wk_pcs (see x)) = dom (cr_pcs x)"
  by (auto simp: see_def)

lemma dom_goto: "dom (sn_pcs x) = D \<Longrightarrow> t \<in> D \<Longrightarrow> dom (sn_pcs (send_goto t pc x)) = D"
  by (simp add: send_goto_def insert_absorb del: fun_upd_apply)

lemma send_step_dom: "send_step ops x y \<Longrightarrow> dom (sn_pcs y) = dom (sn_pcs x)"
proof (induction rule: send_step.induct)
  case (put_closing x t l a as r p m)
  then have "woken (sn_pcs x) m" by (auto intro: woken_signal split: if_splits)
  from woken_dom [OF this] show ?case using put_closing(1) by (intro dom_goto) (simp_all add: set_pool_def domI)
next
  case (signal x t l err m)
  then show ?case using woken_dom [OF woken_signal [OF signal(2)]] by (intro dom_goto) (simp_all add: domI)
qed (simp_all add: dom_goto domI set_pool_def woken_dom [OF woken_broadcast])

lemma calls_after:
  assumes "call_step ops (calls_of x) s"
  shows "calls_of (after_calls s x) = s"
proof -
  have "dom (sn_pcs s) = dom (cr_pcs x)" using assms send_step_dom by (fastforce simp: call_step_def)
  then have d: "sn_pcs s i = None \<longleftrightarrow> cr_pcs x i = None" for i by (metis domIff)
  have k: "sn_pcs s i = Some (send_place q)" if "cr_pcs x i = Some q" "elsewhere (send_place q)" for i q
    using assms that by (simp add: call_step_def)
  have "sn_pcs (calls_of (after_calls s x)) i = sn_pcs s i" for i
    using d [of i] k [of i] by (auto simp: after_calls_def option.map_comp comp_def split: option.split crew_pc.split)
  then show ?thesis by (intro send_sys.equality ext) (simp_all add: after_calls_def)
qed

text \<open>
  A worker moves without an access to the counters of the workers; \<open>sent\<close> tells that it takes a
  request number, \<open>e\<close> that it earns an answer.
\<close>

definition shifts :: "'m network worker_sys \<Rightarrow> 'm network worker_sys \<Rightarrow> nat \<Rightarrow> worker_pc \<Rightarrow> worker_pc \<Rightarrow> bool \<Rightarrow> bool option \<Rightarrow> bool" where
  "shifts x y i old new sent e \<longleftrightarrow>
     wk_pcs x i = Some old \<and> wk_pcs y = (wk_pcs x)(i \<mapsto> new) \<and> wk_metrics y = wk_metrics x
     \<and> requestCounter y = requestCounter x \<and> wk_cancelled y = wk_cancelled x
     \<and> wk_requestCount y = (if sent then w64 (wk_requestCount x + 1) else wk_requestCount x)
     \<and> answers (wd_tp (wk_world y)) =
         (case e of Some limited \<Rightarrow> answer_more limited (answers (wd_tp (wk_world x))) | None \<Rightarrow> answers (wd_tp (wk_world x)))
     \<and> (\<forall>limited. client_count limited (wk_client y) = w64 (client_count limited (wk_client x) + of_bool (e = Some limited)))
     \<and> \<not> is_gone old \<and> \<not> is_gone new \<and> in_flight new = in_flight old
     \<and> of_bool (is_replied new) = of_bool sent + (of_bool (is_replied old) :: int)
     \<and> of_bool (holds_success new) = of_bool (holds_success old) + (of_bool (e = Some False) :: int)
     \<and> of_bool (holds_limited new) = of_bool (holds_limited old) + (of_bool (e = Some True) :: int)"

lemma shifts_books:
  assumes s: "shifts x y i old new sent e" and b: "books a b c d x" and fin: "finite (dom (wk_pcs x))"
    and t: "tallied (wk_metrics x)"
  shows "books a b c d y"
proof -
  have counts: "client_count limited (wk_client y) = w64 (client_count limited (wk_client x) + of_bool (e = Some limited))" for limited
    using s by (simp add: shifts_def)
  have ans: "answers (wd_tp (wk_world y)) =
      (w64 (fst (answers (wd_tp (wk_world x))) + (of_bool (e = Some False) + of_bool (e = Some True))),
       w64 (snd (answers (wd_tp (wk_world x))) + of_bool (e = Some True)))"
    using s by (cases e) (auto simp: shifts_def answer_more_def case_prod_beta prod_eq_iff)
  have i: "wk_pcs x i = Some old" and y: "wk_pcs y = (wk_pcs x)(i \<mapsto> new)" and m: "wk_metrics y = wk_metrics x"
    and bal: "of_bool (holds_success new) = of_bool (holds_success old) + (of_bool (e = Some False) :: int)"
      "of_bool (holds_limited new) = of_bool (holds_limited old) + (of_bool (e = Some True) :: int)"
    using s by (simp_all only: shifts_def)
  show ?thesis
    by (rule books_move [OF b fin i y t ans, where S' = False and L' = False])
      (use counts [of True] counts [of False] m t bal in \<open>simp_all add: client_count_def tallied_def\<close>)
qed

lemma shifts_moved:
  assumes s: "shifts x y i old new sent e" and inv: "workers_at p k x"
    and same: "w64 (col_totalRequests (wk_metrics x)) = col_totalRequests (wk_metrics x)"
      "w64 (wk_requestCount x) = wk_requestCount x"
  shows "\<exists>recorded sent. workers_moved p k x y recorded sent"
proof -
  have i: "wk_pcs x i = Some old" using s by (simp add: shifts_def)
  show ?thesis
    by (rule workers_move [OF inv i, where new = new and claimed = False and recorded = False and sent = sent and given_up = False])
      (use s same in \<open>auto simp: shifts_def\<close>)
qed
text \<open>Moving a worker in the view.\<close>

lemma see_client:
  "client_count limited (wk_client (see x))
    = w64 (client_count limited (cr_client x) + count_threads (unjudged limited) (sn_pcs (calls_of x)))"
  "cl_mode (wk_client (see x)) = cl_mode (cr_client x)" "cl_id (wk_client (see x)) = cl_id (cr_client x)"
  by (simp_all add: see_def with_unjudged_def client_count_def)

lemma calls_of_goto: "sn_pcs (calls_of (crew_goto i q x)) = (sn_pcs (calls_of x))(i \<mapsto> send_place q)"
  by (auto simp: calls_of_def crew_goto_def)

lemma see_goto: "wk_pcs (see (crew_goto i q x)) = (wk_pcs (see x))(i \<mapsto> as_worker q)"
  by (auto simp: see_def crew_goto_def)

lemma unjudged_goto:
  assumes "crew_ok x" and "cr_pcs x i = Some old" and "unjudged limited (send_place q) = unjudged limited (send_place old)"
  shows "count_threads (unjudged limited) (sn_pcs (calls_of (crew_goto i q x))) = count_threads (unjudged limited) (sn_pcs (calls_of x))"
  unfolding calls_of_goto using assms by (simp add: count_threads_upd crew_ok_def)

text \<open>A step that moves one worker and no more, but may take a request number.\<close>

lemma goto_shifts:
  assumes ok: "crew_ok x" and i: "cr_pcs x i = Some old"
    and q: "\<And>limited. \<not> unjudged limited (send_place old) \<and> \<not> unjudged limited (send_place q)"
    and view: "\<not> is_gone (as_worker old)" "\<not> is_gone (as_worker q)" "in_flight (as_worker q) = in_flight (as_worker old)"
      "of_bool (is_replied (as_worker q)) = of_bool sent + (of_bool (is_replied (as_worker old)) :: int)"
      "holds_success (as_worker q) = holds_success (as_worker old)" "holds_limited (as_worker q) = holds_limited (as_worker old)"
  shows "shifts (see x) (see (crew_goto i q (if sent then x\<lparr>cr_sent := w64 (cr_sent x + 1)\<rparr> else x))) i
    (as_worker old) (as_worker q) sent None"
proof -
  let ?x = "if sent then x\<lparr>cr_sent := w64 (cr_sent x + 1)\<rparr> else x"
  have c: "calls_of (crew_goto i q ?x) = calls_of (crew_goto i q x)" by (cases sent) (simp_all add: calls_of_def crew_goto_def)
  have p: "wk_pcs (see (crew_goto i q ?x)) = (wk_pcs (see x))(i \<mapsto> as_worker q)" by (auto simp: see_def crew_goto_def)
  have n: "client_count limited (wk_client (see (crew_goto i q ?x))) = client_count limited (wk_client (see x))" for limited
    unfolding see_client(1) c using unjudged_goto [OF ok i, of limited q] q [of limited] by (simp add: crew_goto_def)
  have w: "w64 (client_count limited (wk_client (see x))) = client_count limited (wk_client (see x))" for limited
    unfolding see_client(1) by simp
  show ?thesis
    using i view by (simp add: shifts_def p n w) (simp add: crew_goto_def)
qed

text \<open>A goroutine that moves inside of a call.\<close>

lemma inside_shifts:
  assumes ok: "crew_ok x" and step: "call_step (Some (simulatorTransport allow)) (calls_of x) s"
    and m: "call_moved (calls_of x) s t pc m pc' e"
    and ans: "answers (wd_tp (sn_world s)) =
      (case e of Some limited \<Rightarrow> answer_more limited (answers (wd_tp (cr_world x))) | None \<Rightarrow> answers (wd_tp (cr_world x)))"
  shows "shifts (see x) (see (after_calls s x)) t (as_worker (Inside pc)) (as_worker (Inside pc')) False e"
proof -
  have t: "map_option send_place (cr_pcs x t) = Some pc" "\<not> elsewhere pc" "\<And>l. pc \<noteq> GetAsleep l"
    and w: "woken (sn_pcs (calls_of x)) m" and s: "sn_pcs s = m(t \<mapsto> pc')" "sn_cancelled s = cr_cancelled x"
    and d: "dialling pc' = dialling pc" and j: "\<And>limited. judges limited (cr_client x) (sn_client s) pc pc' e"
    using m by (auto simp: call_moved_def)
  obtain q where q: "cr_pcs x t = Some q" "send_place q = pc" using t(1) by auto
  then have inside: "cr_pcs x t = Some (Inside pc)" using t(2) by (cases q) auto
  have mt: "m t = Some pc" by (rule woken_same [OF w]) (use t in simp_all)
  have fin: "finite (dom m)" using ok woken_dom [OF w] by (simp add: crew_ok_def)
  have asleep: "map_option as_worker (case cr_pcs x u of Some (Inside _) \<Rightarrow> map_option Inside (sn_pcs s u) | q \<Rightarrow> q)
      = map_option as_worker (cr_pcs x u)" if "u \<noteq> t" for u
  proof (cases "cr_pcs x u")
    case (Some q)
    have "sn_pcs s u = m u" using that by (simp add: s)
    with Some show ?thesis
      using w [unfolded woken_def, rule_format, of u] by (cases q) (auto simp: calls_of_def)
  qed simp
  have pcs: "wk_pcs (see (after_calls s x)) = (wk_pcs (see x))(t \<mapsto> as_worker (Inside pc'))"
  proof
    fix u
    show "wk_pcs (see (after_calls s x)) u = ((wk_pcs (see x))(t \<mapsto> as_worker (Inside pc'))) u"
      using asleep [of u] inside s(1) by (cases "u = t") (simp_all add: after_calls_def)
  qed
  have n: "count_threads (unjudged limited) (sn_pcs s) = count_threads (unjudged limited) (sn_pcs (calls_of x))
      + of_bool (unjudged limited pc') - of_bool (unjudged limited pc)" for limited
    unfolding s count_threads_upd [OF fin] by (simp add: mt woken_count [OF w])
  have cl: "client_count limited (wk_client (see (after_calls s x)))
      = w64 (client_count limited (wk_client (see x)) + of_bool (e = Some limited))" for limited
  proof -
    obtain b where b: "client_count limited (sn_client s) =
        (if b then w64 (client_count limited (cr_client x) + 1) else client_count limited (cr_client x))"
      "of_bool b + of_bool (unjudged limited pc') = (of_bool (unjudged limited pc) + of_bool (e = Some limited) :: int)"
      using j [of limited] by (auto simp: judges_def)
    have "client_count limited (wk_client (see (after_calls s x)))
        = w64 (client_count limited (cr_client x) + of_bool b + count_threads (unjudged limited) (sn_pcs s))"
      unfolding see_client(1) calls_after [OF step] using b(1) by (auto simp: after_calls_def)
    also have "\<dots> = w64 (client_count limited (cr_client x) + count_threads (unjudged limited) (sn_pcs (calls_of x)) + of_bool (e = Some limited))"
      unfolding n using b(2) by (intro arg_cong [where f = w64]) linarith
    finally show ?thesis unfolding see_client(1) by simp
  qed
  have idle: "dialling pc \<Longrightarrow> \<not> answer_is limited (reply_of pc)" "dialling pc' \<Longrightarrow> \<not> answer_is limited (reply_of pc')" for limited
    by (cases pc; simp) (cases pc'; simp)
  have ans': "answer_is limited (reply_of pc') = (answer_is limited (reply_of pc) \<or> e = Some limited)"
    "e = Some limited \<Longrightarrow> \<not> answer_is limited (reply_of pc)" for limited
    using j [of limited] by (auto simp: judges_def)
  have e: "dialling pc \<Longrightarrow> e \<noteq> Some limited" for limited
    using idle [of limited] ans'(1) [of limited] d by auto
  have frame: "wk_metrics (see (after_calls s x)) = wk_metrics (see x)" "wk_world (see (after_calls s x)) = sn_world s"
    "requestCounter (see (after_calls s x)) = requestCounter (see x)" "wk_cancelled (see (after_calls s x)) = wk_cancelled (see x)"
    "wk_requestCount (see (after_calls s x)) = wk_requestCount (see x)" "wk_world (see x) = cr_world x"
    by (simp_all add: after_calls_def s(2))
  have view: "wk_pcs (see x) t = Some (as_worker (Inside pc))" using inside by simp
  show ?thesis
  proof (cases "dialling pc")
    case True
    then have "e = None" using e [of "the e"] by (cases e) simp_all
    then show ?thesis unfolding shifts_def frame using view pcs cl ans True d by (simp add: is_gone_def)
  next
    case False
    then show ?thesis unfolding shifts_def frame using view pcs cl ans d ans' by (simp add: is_gone_def)
  qed
qed
text \<open>An action between the calls is the same action in the view.\<close>

lemma see_own:
  assumes ok: "crew_ok x" and i: "cr_pcs x i = Some (At pc)" and c: "wk_client ws = cr_client x"
  shows "see (after_own i pc' ws x) = ws\<lparr>wk_client := wk_client (see x), wk_pcs := (wk_pcs (see x))(i \<mapsto> pc')\<rparr>"
proof -
  have p: "sn_pcs (calls_of (after_own i pc' ws x)) = sn_pcs (calls_of (crew_goto i (At pc') x))"
    by (auto simp: calls_of_def after_own_def crew_goto_def)
  have n: "count_threads (unjudged limited) (sn_pcs (calls_of (after_own i pc' ws x)))
      = count_threads (unjudged limited) (sn_pcs (calls_of x))" for limited
    unfolding p by (rule unjudged_goto [OF ok i]) simp
  have "wk_client (see (after_own i pc' ws x)) = wk_client (see x)"
    by (simp add: see_def with_unjudged_def n) (simp add: after_own_def c)
  moreover have "wk_pcs (see (after_own i pc' ws x)) = (wk_pcs (see x))(i \<mapsto> pc')"
    by (auto simp: see_def after_own_def)
  ultimately show ?thesis by (intro worker_sys.equality) (simp_all add: after_own_def)
qed

lemma worker_of_sel [simp]:
  "wk_client (worker_of i pc x) = cr_client x" "wk_world (worker_of i pc x) = cr_world x"
  "wk_limiter (worker_of i pc x) = cr_limiter x" "wk_metrics (worker_of i pc x) = cr_metrics x"
  "requestCounter (worker_of i pc x) = cr_counter x" "wk_requestCount (worker_of i pc x) = cr_sent x"
  "wk_cancelled (worker_of i pc x) = cr_cancelled x" "wk_pcs (worker_of i pc x) = [i \<mapsto> pc]"
  by (simp_all add: worker_of_def)

lemma own_seen:
  assumes ok: "crew_ok x" and i: "cr_pcs x i = Some (At pc)" and one: "one_access (cr_client x) pc"
    and step: "worker_step ops p dl (worker_of i pc x) ws" and pc': "wk_pcs ws i = Some pc'"
  shows "worker_step ops p dl (see x) (see (after_own i pc' ws x))"
proof -
  let ?x = "worker_of i pc x"
  have only: "wk_pcs ?x j = Some q \<Longrightarrow> j = i \<and> q = pc" for j q by (simp split: if_splits)
  have at: "wk_pcs (see x) i = Some pc" using i by simp
  have seen: ?thesis
    if "worker_step ops p dl (see x) y" "wk_client ws = cr_client x"
      "ws\<lparr>wk_client := wk_client (see x), wk_pcs := (wk_pcs (see x))(i \<mapsto> pc')\<rparr> = y" for y
    using see_own [OF ok i that(2)] that(1,3) by simp
  show ?thesis
    using step
  proof (cases rule: worker_step.cases)
    case (begin_shared j)
    note j = only [OF begin_shared(2)]
    show ?thesis by (rule seen [OF worker_step.begin_shared [of "see x" i]])
      (use begin_shared j at pc' in \<open>auto simp: goto_def see_client intro!: worker_sys.equality\<close>)
  next
    case (go_on j d now n)
    note j = only [OF go_on(2)]
    show ?thesis by (rule seen [OF worker_step.go_on [of "see x" i d p dl now n]])
      (use go_on j at pc' in \<open>auto simp: goto_def intro!: worker_sys.equality\<close>)
  next
    case (finish j d now n)
    note j = only [OF finish(2)]
    show ?thesis by (rule seen [OF worker_step.finish [of "see x" i d p dl now n]])
      (use finish j at pc' in \<open>auto simp: goto_def leave_def intro!: worker_sys.equality\<close>)
  next
    case (proceed j d)
    note j = only [OF proceed(2)]
    show ?thesis by (rule seen [OF worker_step.proceed [of "see x" i d]])
      (use proceed j at pc' in \<open>auto simp: goto_def intro!: worker_sys.equality\<close>)
  next
    case (give_up j d)
    note j = only [OF give_up(2)]
    show ?thesis by (rule seen [OF worker_step.give_up [of "see x" i d]])
      (use give_up j at pc' in \<open>auto simp: goto_def leave_def intro!: worker_sys.equality\<close>)
  next
    case (token j d now rl)
    note j = only [OF token(2)]
    show ?thesis by (rule seen [OF worker_step.token [of "see x" i d now rl]])
      (use token j at pc' in \<open>auto simp: goto_def intro!: worker_sys.equality\<close>)
  next
    case (no_token j d now rl)
    note j = only [OF no_token(2)]
    show ?thesis by (rule seen [OF worker_step.no_token [of "see x" i d now rl]])
      (use no_token j at pc' in \<open>auto simp: goto_def intro!: worker_sys.equality\<close>)
  next
    case (stop_waiting j d now rl)
    note j = only [OF stop_waiting(2)]
    show ?thesis by (rule seen [OF worker_step.stop_waiting [of "see x" i d now rl]])
      (use stop_waiting j at pc' in \<open>auto simp: goto_def leave_def intro!: worker_sys.equality\<close>)
  next
    case (note_reply j d latency r m now)
    note j = only [OF note_reply(2)]
    show ?thesis by (rule seen [OF worker_step.note_reply [of "see x" i d latency r m now]])
      (use note_reply j at pc' in \<open>auto simp: goto_def see_client intro!: worker_sys.equality\<close>)
  next
    case cancel
    show ?thesis by (rule seen [OF worker_step.cancel [of ops p dl "see x"]])
      (use cancel at pc' in \<open>auto simp: fun_upd_idem intro!: worker_sys.equality\<close>)
  next
    case (begin_dedicated j k now c w r)
    then show ?thesis using one only [OF begin_dedicated(2)] by auto
  next
    case (send j d n acquired clk now c w r latency)
    then show ?thesis using one only [OF send(2)] by auto
  next
    case (replace j failed d k now c w r)
    then show ?thesis using one only [OF replace(2)] by auto
  qed
qed
text \<open>Nobody moves; the run may have been cancelled or the client's mode set.\<close>

definition stays :: "'m network worker_sys \<Rightarrow> 'm network worker_sys \<Rightarrow> bool" where
  "stays x y \<longleftrightarrow>
     wk_pcs y = wk_pcs x \<and> wk_world y = wk_world x \<and> wk_metrics y = wk_metrics x \<and> requestCounter y = requestCounter x
     \<and> wk_requestCount y = wk_requestCount x \<and> (wk_cancelled x \<longrightarrow> wk_cancelled y)
     \<and> (\<forall>limited. client_count limited (wk_client y) = client_count limited (wk_client x))"

lemma stays_books: "stays x y \<Longrightarrow> books a b c d x \<Longrightarrow> books a b c d y"
  by (auto simp: stays_def books_def client_count_def Let_def dest: spec [of _ True] spec [of _ False])

lemma stays_moved:
  assumes "stays x y" and "workers_at p k x" and "w64 (col_totalRequests (wk_metrics x)) = col_totalRequests (wk_metrics x)"
    and "w64 (wk_requestCount x) = wk_requestCount x"
  shows "workers_moved p k x y False False"
  using assms workers_at_cong [OF assms(2), of y] by (simp add: stays_def workers_moved_def)

lemma idle_stays:
  assumes "call_idle (calls_of x) s"
  shows "stays (see x) (see (after_calls s x))"
proof -
  have s: "sn_pcs s = sn_pcs (calls_of x)" using assms by (simp add: call_idle_def)
  have "(case cr_pcs x i of Some (Inside _) \<Rightarrow> map_option Inside (sn_pcs s i) | q \<Rightarrow> q) = cr_pcs x i" for i
    unfolding s by (cases "cr_pcs x i") (auto simp: calls_of_def split: crew_pc.split)
  then have pcs: "cr_pcs (after_calls s x) = cr_pcs x" by (simp add: after_calls_def)
  then have c: "sn_pcs (calls_of (after_calls s x)) = sn_pcs (calls_of x)" by (simp add: calls_of_def)
  have p: "wk_pcs (see (after_calls s x)) = wk_pcs (see x)" by (simp add: see_def pcs)
  show ?thesis unfolding stays_def p see_client(1) c using assms by (simp add: after_calls_def call_idle_def)
qed

text \<open>A step of the crew is a step of the workers, or one of the moves above.\<close>

definition seen :: "'m allow \<Rightarrow> worker_params \<Rightarrow> gotime \<Rightarrow> 'm network worker_sys \<Rightarrow> 'm network worker_sys \<Rightarrow> bool" where
  "seen allow p dl x y \<longleftrightarrow>
     worker_step (Some (simulatorTransport allow)) p dl x y \<or> (\<exists>i old new sent e. shifts x y i old new sent e) \<or> stays x y"

lemma crew_step_seen:
  assumes step: "crew_step (Some (simulatorTransport allow)) p dl x y" and ok: "crew_ok x"
  shows "seen allow p dl (see x) (see y)"
proof -
  have goto: ?thesis
    if "y = crew_goto i q (if sent then x\<lparr>cr_sent := w64 (cr_sent x + 1)\<rparr> else x)" "cr_pcs x i = Some old"
      "\<And>limited. \<not> unjudged limited (send_place old) \<and> \<not> unjudged limited (send_place q)"
      "\<not> is_gone (as_worker old)" "\<not> is_gone (as_worker q)" "in_flight (as_worker q) = in_flight (as_worker old)"
      "of_bool (is_replied (as_worker q)) = of_bool sent + (of_bool (is_replied (as_worker old)) :: int)"
      "holds_success (as_worker q) = holds_success (as_worker old)" "holds_limited (as_worker q) = holds_limited (as_worker old)"
    for i q sent old
    unfolding seen_def that(1) using goto_shifts [OF ok that(2-9)] by blast
  show ?thesis
    using step
  proof (cases rule: crew_step.cases)
    case (own i pc ws pc')
    then show ?thesis using own_seen [OF ok own(2-5)] by (simp add: seen_def)
  next
    case (dial_first i)
    show ?thesis by (rule goto [where sent = False and q = "Inside (Opening (ByWorker None))", OF _ dial_first(2)]) (use dial_first in \<open>simp_all add: is_gone_def\<close>)
  next
    case (dial_again i failed d)
    show ?thesis by (rule goto [where sent = False and q = "Inside (Opening (ByWorker (if failed then d else None)))", OF _ dial_again(2)]) (use dial_again in \<open>simp_all add: is_gone_def\<close>)
  next
    case (dialled i d)
    show ?thesis by (rule goto [where sent = False and q = "At (Top d)", OF _ dialled(2)]) (use dialled in \<open>simp_all add: is_gone_def\<close>)
  next
    case (number i d n now)
    show ?thesis by (rule goto [where sent = True and q = "Numbered d (new_request p (cl_id (cr_client x)) n now)", OF _ number(2)]) (use number in \<open>simp_all add: is_gone_def\<close>)
  next
    case (call_closed i d req)
    show ?thesis by (rule goto [where sent = False and q = "Inside (Back d (Inl ClientClosed))", OF _ call_closed(2)]) (use call_closed in \<open>simp_all add: is_gone_def\<close>)
  next
    case (call i d req)
    show ?thesis by (rule goto [where sent = False and q = "Inside (Gate (fresh_locals d req))", OF _ call(2)]) (use call in \<open>simp_all add: is_gone_def\<close>)
  next
    case (answered i d r latency)
    show ?thesis by (rule goto [where sent = False and q = "At (Replied d latency r)", OF _ answered(2)]) (use answered in \<open>simp_all add: is_gone_def\<close>)
  next
    case (inside s)
    have "\<forall>t pc. sn_pcs (calls_of x) t = Some pc \<longrightarrow> counts_once pc" using ok by (auto simp: crew_ok_def)
    from ledger_tp.call_step_effect [OF inside(2) this] show ?thesis
    proof (elim disjE exE conjE)
      assume "call_idle (calls_of x) s"
      from idle_stays [OF this] show ?thesis by (simp add: seen_def inside(1))
    next
      fix t pc m pc' e
      assume "call_moved (calls_of x) s t pc m pc' e"
        "answers (wd_tp (sn_world s)) = (case e of Some limited \<Rightarrow> answer_more limited (answers (wd_tp (sn_world (calls_of x))))
          | None \<Rightarrow> answers (wd_tp (sn_world (calls_of x))))"
      from inside_shifts [OF ok inside(2) this(1) this(2) [unfolded calls_of_sel]] show ?thesis
        unfolding seen_def inside(1) by blast
    qed
  qed
qed

lemma seen_keeps:
  assumes "seen allow p dl x y"
  shows "books a b c d x \<Longrightarrow> finite (dom (wk_pcs x)) \<Longrightarrow> tallied (wk_metrics x) \<Longrightarrow> books a b c d y"
    and "tallied (wk_metrics x) \<Longrightarrow> tallied (wk_metrics y)"
    and "finite (dom (wk_pcs x)) \<Longrightarrow> finite (dom (wk_pcs y))"
    and "wk_cancelled x \<Longrightarrow> wk_cancelled y"
    and "workers_at p k x \<Longrightarrow> 0 < requestsPerClient p \<Longrightarrow> requestsPerClient p + wp_maxConcurrency p + 1 < 2 ^ 63 \<Longrightarrow>
      0 \<le> wp_maxConcurrency p \<Longrightarrow> w64 (col_totalRequests (wk_metrics x)) = col_totalRequests (wk_metrics x) \<Longrightarrow>
      w64 (wk_requestCount x) = wk_requestCount x \<Longrightarrow> \<exists>recorded sent. workers_moved p k x y recorded sent"
proof -
  consider (worker) "worker_step (Some (simulatorTransport allow)) p dl x y"
    | (shift) i old new sent e where "shifts x y i old new sent e" | (stay) "stays x y"
    using assms by (auto simp: seen_def)
  note cases = this
  show "books a b c d y" if "books a b c d x" "finite (dom (wk_pcs x))" "tallied (wk_metrics x)"
    using cases by cases (rule worker_step_books [OF _ that], assumption, rule shifts_books [OF _ that], assumption,
      rule stays_books [OF _ that(1)], assumption)
  show "tallied (wk_metrics y)" if "tallied (wk_metrics x)"
    using cases by cases (use that worker_step_tallied in \<open>auto simp: shifts_def stays_def\<close>)
  show "finite (dom (wk_pcs y))" if "finite (dom (wk_pcs x))"
    using cases by cases (use that worker_step_finite in \<open>auto simp: shifts_def stays_def\<close>)
  show "wk_cancelled y" if "wk_cancelled x"
    using cases by cases (use that worker_step_cancelled in \<open>auto simp: shifts_def stays_def\<close>)
  show "\<exists>recorded sent. workers_moved p k x y recorded sent"
    if "workers_at p k x" "0 < requestsPerClient p" "requestsPerClient p + wp_maxConcurrency p + 1 < 2 ^ 63"
      "0 \<le> wp_maxConcurrency p" "w64 (col_totalRequests (wk_metrics x)) = col_totalRequests (wk_metrics x)"
      "w64 (wk_requestCount x) = wk_requestCount x"
    using cases by cases (rule worker_step_moved [OF _ that], assumption, rule shifts_moved [OF _ that(1,5,6)], assumption,
      use stays_moved [OF _ that(1,5,6)] in blast)
qed

text \<open>What a call counts stays in order.\<close>

lemma crew_step_ok:
  assumes step: "crew_step (Some (simulatorTransport allow)) p dl x y" and ok: "crew_ok x"
  shows "crew_ok y"
proof -
  have goto: "crew_ok z" if "cr_pcs z = (cr_pcs x)(i \<mapsto> q)" "counts_once (send_place q)" for z i q
    using ok that by (auto simp: crew_ok_def)
  show ?thesis
    using step
  proof (cases rule: crew_step.cases)
    case (own i pc ws pc')
    then show ?thesis by (intro goto [of y i "At pc'"]) (simp_all add: after_own_def)
  next
    case (inside s)
    have fin: "finite (dom (cr_pcs y))"
      using seen_keeps(3) [OF crew_step_seen [OF step ok]] ok by (simp add: crew_ok_def)
    have calls: "sn_pcs (calls_of y) = sn_pcs s" by (simp only: inside(1) calls_after [OF inside(2)])
    have once: "\<forall>t pc. sn_pcs (calls_of x) t = Some pc \<longrightarrow> counts_once pc" using ok by (auto simp: crew_ok_def)
    have "counts_once pc" if "sn_pcs s i = Some pc" for i pc
      using ledger_tp.call_step_effect [OF inside(2) once]
    proof (elim disjE exE conjE)
      assume "call_idle (calls_of x) s"
      then show ?thesis using that once unfolding call_idle_def by metis
    next
      fix t pc0 m pc' e
      assume m: "call_moved (calls_of x) s t pc0 m pc' e"
      then have w: "woken (sn_pcs (calls_of x)) m" "sn_pcs s = m(t \<mapsto> pc')" "counts_once pc'"
        unfolding call_moved_def by blast+
      show ?thesis
      proof (cases "i = t")
        case False
        then have "m i = Some pc" using that w(2) by simp
        then consider "sn_pcs (calls_of x) i = Some pc" | l where "pc = GetAwake l"
          using w(1) [unfolded woken_def, rule_format, of i] by (metis option.inject)
        then show ?thesis using once by cases (blast, simp)
      qed (use that w(2,3) in simp)
    qed
    moreover have "sn_pcs s i = Some (send_place q)" if "cr_pcs y i = Some q" for i q
      using that unfolding calls [symmetric] by simp
    ultimately show ?thesis using fin by (auto simp: crew_ok_def)
  qed (simp_all add: crew_goto_def goto)
qed
section \<open>A call as one action is a run of the crew\<close>

text \<open>The workers of \<open>worker_step\<close> as a crew with nobody inside of a call.\<close>

definition embed :: "'t worker_sys \<Rightarrow> 't crew" where
  "embed x =
     \<lparr>cr_client = wk_client x, cr_world = wk_world x, cr_metrics = wk_metrics x, cr_limiter = wk_limiter x,
      cr_counter = requestCounter x, cr_sent = wk_requestCount x, cr_cancelled = wk_cancelled x,
      cr_lock = None, cr_used = 0, cr_pcs = (\<lambda>i. map_option At (wk_pcs x i))\<rparr>"

lemma embed_sel [simp]:
  "cr_client (embed x) = wk_client x" "cr_world (embed x) = wk_world x" "cr_metrics (embed x) = wk_metrics x"
  "cr_limiter (embed x) = wk_limiter x" "cr_counter (embed x) = requestCounter x" "cr_sent (embed x) = wk_requestCount x"
  "cr_cancelled (embed x) = wk_cancelled x" "cr_lock (embed x) = None" "cr_used (embed x) = 0"
  "cr_pcs (embed x) i = map_option At (wk_pcs x i)"
  by (simp_all add: embed_def)

lemma after_nothing: "after_calls (calls_of x) x = x"
proof -
  have "(case cr_pcs x i of Some (Inside _) \<Rightarrow> map_option Inside (sn_pcs (calls_of x) i) | q \<Rightarrow> q) = cr_pcs x i" for i
    by (auto split: option.split crew_pc.split)
  then show ?thesis by (intro crew.equality) (simp_all add: after_calls_def)
qed

lemma inside_run:
  assumes "(call_step ops)\<^sup>*\<^sup>* (calls_of x) s"
  shows "(crew_step ops p dl)\<^sup>*\<^sup>* x (after_calls s x) \<and> calls_of (after_calls s x) = s"
  using assms
proof (induction rule: rtranclp_induct)
  case base
  then show ?case by (simp add: after_nothing)
next
  case (step s s')
  let ?y = "after_calls s x"
  from step have y: "(crew_step ops p dl)\<^sup>*\<^sup>* x ?y" "calls_of ?y = s" by blast+
  have i: "call_step ops (calls_of ?y) s'" using step(2) y(2) by simp
  have dom: "dom (cr_pcs ?y) = dom (sn_pcs s)" using y(2) by (metis calls_of_sel(7))
  have "dom (sn_pcs s) = dom (sn_pcs (calls_of x))"
    using call_steps_send [OF step(1)] by (induction rule: rtranclp_induct) (simp_all add: send_step_dom)
  then have d: "cr_pcs x j = None \<longleftrightarrow> sn_pcs s j = None" for j by (metis calls_of_sel(7) domIff)
  have "(case cr_pcs ?y j of Some (Inside _) \<Rightarrow> map_option Inside (sn_pcs s' j) | q \<Rightarrow> q)
      = (case cr_pcs x j of Some (Inside _) \<Rightarrow> map_option Inside (sn_pcs s' j) | q \<Rightarrow> q)" for j
    using d [of j] by (cases "sn_pcs s j") (auto simp: after_calls_def split: option.split crew_pc.split)
  then have "after_calls s' ?y = after_calls s' x" by (intro crew.equality) (simp_all add: after_calls_def)
  then show ?case using y(1) crew_step.inside [OF i, of p dl] calls_after [OF i]
    by (auto intro: rtranclp.rtrancl_into_rtrancl)
qed

lemma embed_calls:
  assumes "(call_step ops)\<^sup>*\<^sup>*
      (solo (sn_pcs (calls_of (embed x))) i (wk_client x) (wk_world x) 0 (wk_cancelled x) pc)
      (solo (sn_pcs (calls_of (embed x))) i c w 0 (wk_cancelled x) pc')"
  shows "(crew_step ops p dl)\<^sup>*\<^sup>* (crew_goto i (Inside pc) (embed x))
    (crew_goto i (Inside pc') (embed (x\<lparr>wk_client := c, wk_world := w\<rparr>)))"
proof -
  let ?m = "sn_pcs (calls_of (embed x))" and ?y = "crew_goto i (Inside pc) (embed x)"
  have "calls_of ?y = solo ?m i (wk_client x) (wk_world x) 0 (wk_cancelled x) pc"
    by (intro send_sys.equality ext) (simp_all add: crew_goto_def)
  moreover have "cr_pcs (after_calls (solo ?m i c w 0 (wk_cancelled x) pc') ?y) j
      = cr_pcs (crew_goto i (Inside pc') (embed (x\<lparr>wk_client := c, wk_world := w\<rparr>))) j" for j
    by (cases "j = i"; cases "wk_pcs x j") (simp_all add: after_calls_def crew_goto_def)
  then have "after_calls (solo ?m i c w 0 (wk_cancelled x) pc') ?y
      = crew_goto i (Inside pc') (embed (x\<lparr>wk_client := c, wk_world := w\<rparr>))"
    by (intro crew.equality ext) (simp_all add: after_calls_def crew_goto_def)
  ultimately show ?thesis
    using inside_run [of ops ?y "solo ?m i c w 0 (wk_cancelled x) pc'" p dl] assms by simp
qed

lemma embed_calm: "calm (sn_pcs (calls_of (embed x)))"
  by (auto simp: calm_def)
text \<open>The three kinds of actions: a single access, opening a connection, a call.\<close>

lemma embed_own:
  assumes i: "wk_pcs x i = Some pc" and one: "one_access (wk_client x) pc"
    and step: "worker_step ops p dl (x\<lparr>wk_pcs := [i \<mapsto> pc]\<rparr>) ws" and pc': "wk_pcs ws i = Some pc'"
    and y: "ws\<lparr>wk_pcs := (wk_pcs x)(i \<mapsto> pc')\<rparr> = y"
  shows "(crew_step ops p dl)\<^sup>*\<^sup>* (embed x) (embed y)"
proof -
  have w: "worker_of i pc (embed x) = x\<lparr>wk_pcs := [i \<mapsto> pc]\<rparr>" by (simp add: worker_of_def)
  have "crew_step ops p dl (embed x) (after_own i pc' ws (embed x))"
    by (rule crew_step.own [where pc = pc]) (use i one step pc' in \<open>simp_all only: w embed_sel option.map\<close>)
  moreover have "after_own i pc' ws (embed x) = embed y"
    unfolding y [symmetric] by (intro crew.equality ext) (simp_all add: after_own_def)
  ultimately show ?thesis by auto
qed

lemma embed_dial:
  assumes i: "wk_pcs x i = Some pc" and dial: "crew_step ops p dl (embed x) (crew_goto i (Inside (Opening (ByWorker d))) (embed x))"
    and c: "CreateDedicatedConnection (wk_client x) (wk_world x) k now = (c, w, r)"
  shows "(crew_step ops p dl)\<^sup>*\<^sup>* (embed x)
    (embed (goto i (Top (case r of Inr a \<Rightarrow> Some a | Inl _ \<Rightarrow> d)) (x\<lparr>wk_client := c, wk_world := w\<rparr>)))"
proof -
  let ?d = "case r of Inr a \<Rightarrow> Some a | Inl _ \<Rightarrow> d" and ?y = "x\<lparr>wk_client := c, wk_world := w\<rparr>"
  let ?m = "sn_pcs (calls_of (embed x))"
  have "(call_step ops)\<^sup>*\<^sup>* (solo ?m i (wk_client x) (wk_world x) 0 (wk_cancelled x) (Opening (ByWorker d)))
      (solo ?m i c w 0 (wk_cancelled x) (Out ?d))"
    by (rule opening_alone [OF c [unfolded CreateDedicatedConnection_def]]) (cases r; simp)
  then have "(crew_step ops p dl)\<^sup>*\<^sup>* (crew_goto i (Inside (Opening (ByWorker d))) (embed x)) (crew_goto i (Inside (Out ?d)) (embed ?y))"
    by (rule embed_calls)
  moreover have "crew_step ops p dl (crew_goto i (Inside (Out ?d)) (embed ?y))
      (crew_goto i (At (Top ?d)) (crew_goto i (Inside (Out ?d)) (embed ?y)))"
    by (rule crew_step.dialled) (simp add: crew_goto_def)
  moreover have "crew_goto i (At (Top ?d)) (crew_goto i (Inside (Out ?d)) (embed ?y)) = embed (goto i (Top ?d) ?y)"
    by (intro crew.equality ext) (simp_all add: crew_goto_def goto_def)
  ultimately show ?thesis
    using dial by (auto intro: converse_rtranclp_into_rtranclp rtranclp.rtrancl_into_rtrancl)
qed

lemma embed_send:
  assumes i: "wk_pcs x i = Some (Sending d)" and n: "n = w64 (wk_requestCount x + 1)" and acq: "\<not> acquired \<Longrightarrow> wk_cancelled x"
    and c: "Client_Send ops (wk_client x) (wk_world x) clk d acquired (new_request p (cl_id (wk_client x)) n now) = Some (c, w, r)"
    and free: "sem_free (wk_client x) 0"
  shows "(crew_step ops p dl)\<^sup>*\<^sup>* (embed x)
    (embed (goto i (Replied d latency r) (x\<lparr>wk_requestCount := n, wk_client := c, wk_world := w\<rparr>)))"
proof -
  let ?req = "new_request p (cl_id (wk_client x)) n now" and ?x = "x\<lparr>wk_requestCount := n\<rparr>"
  let ?y = "?x\<lparr>wk_client := c, wk_world := w\<rparr>"
  have again: "crew_goto i q (crew_goto i q' z) = crew_goto i q z" for q q' and z :: "'a crew" by (simp add: crew_goto_def)
  have start: "crew_step ops p dl (embed x) (crew_goto i (Numbered d ?req) (embed ?x))"
  proof -
    have "crew_step ops p dl (embed x) (crew_goto i (Numbered d ?req) ((embed x)\<lparr>cr_sent := n\<rparr>))"
      using crew_step.number [of "embed x" i d n ops p dl now] i n by simp
    moreover have "(embed x)\<lparr>cr_sent := n\<rparr> = embed ?x" by (simp add: embed_def)
    ultimately show ?thesis by simp
  qed
  have numbered: "cr_pcs (crew_goto i (Numbered d ?req) (embed ?x)) i = Some (Numbered d ?req)" by (simp add: crew_goto_def)
  have called: "(crew_step ops p dl)\<^sup>*\<^sup>* (crew_goto i (Numbered d ?req) (embed ?x)) (crew_goto i (Inside (Back d r)) (embed ?y))"
  proof (cases "cl_closed (wk_client x)")
    case True
    then have "c = wk_client x" "w = wk_world x" "r = Inl ClientClosed" using c by (auto simp: Client_Send_def)
    moreover from crew_step.call_closed [OF numbered, of ops p dl] True
    have "crew_step ops p dl (crew_goto i (Numbered d ?req) (embed ?x)) (crew_goto i (Inside (Back d (Inl ClientClosed))) (embed ?x))"
      unfolding again by (simp add: crew_goto_def)
    ultimately show ?thesis by simp
  next
    case False
    from crew_step.call [OF numbered, of ops p dl] False
    have "crew_step ops p dl (crew_goto i (Numbered d ?req) (embed ?x)) (crew_goto i (Inside (Gate (fresh_locals d ?req))) (embed ?x))"
      unfolding again by (simp add: crew_goto_def)
    moreover have "(call_step ops)\<^sup>*\<^sup>*
        (solo (sn_pcs (calls_of (embed ?x))) i (wk_client ?x) (wk_world ?x) 0 (wk_cancelled ?x) (Gate (fresh_locals d ?req)))
        (solo (sn_pcs (calls_of (embed ?x))) i c w 0 (wk_cancelled ?x) (Back d r))"
      using call_alone [OF c embed_calm False, of 0 "wk_cancelled x" ?x i] acq free by auto
    from embed_calls [OF this] have "(crew_step ops p dl)\<^sup>*\<^sup>* (crew_goto i (Inside (Gate (fresh_locals d ?req))) (embed ?x))
        (crew_goto i (Inside (Back d r)) (embed ?y))" .
    ultimately show ?thesis by (rule converse_rtranclp_into_rtranclp)
  qed
  have ended: "cr_pcs (crew_goto i (Inside (Back d r)) (embed ?y)) i = Some (Inside (Back d r))" by (simp add: crew_goto_def)
  have "crew_goto i (At (Replied d latency r)) (embed ?y) = embed (goto i (Replied d latency r) ?y)"
    by (intro crew.equality ext) (simp_all add: crew_goto_def goto_def)
  with crew_step.answered [OF ended, of ops p dl latency]
  have "crew_step ops p dl (crew_goto i (Inside (Back d r)) (embed ?y)) (embed (goto i (Replied d latency r) ?y))"
    unfolding again by simp
  with start called show ?thesis
    by (auto intro: converse_rtranclp_into_rtranclp rtranclp.rtrancl_into_rtrancl)
qed
lemma worker_step_crew:
  assumes step: "worker_step ops p dl x y" and free: "sem_free (wk_client x) 0"
  shows "(crew_step ops p dl)\<^sup>*\<^sup>* (embed x) (embed y)"
  using step
proof (cases rule: worker_step.cases)
  case (begin_shared i)
  show ?thesis
    by (rule embed_own [OF begin_shared(2) _ worker_step.begin_shared [of _ i]])
      (use begin_shared in \<open>simp_all add: goto_def\<close>)
next
  case (begin_dedicated i k now c w r)
  have dial: "crew_step ops p dl (embed x) (crew_goto i (Inside (Opening (ByWorker None))) (embed x))"
    by (rule crew_step.dial_first) (use begin_dedicated in simp_all)
  show ?thesis unfolding begin_dedicated(1) by (rule embed_dial [OF begin_dedicated(2) dial begin_dedicated(4)])
next
  case (go_on i d now n)
  show ?thesis
    by (rule embed_own [OF go_on(2) _ worker_step.go_on [of _ i d p dl now n]])
      (use go_on in \<open>simp_all add: goto_def\<close>)
next
  case (finish i d now n)
  show ?thesis
    by (rule embed_own [OF finish(2) _ worker_step.finish [of _ i d p dl now n]])
      (use finish in \<open>simp_all add: goto_def leave_def\<close>)
next
  case (proceed i d)
  show ?thesis
    by (rule embed_own [OF proceed(2) _ worker_step.proceed [of _ i d]])
      (use proceed in \<open>simp_all add: goto_def\<close>)
next
  case (give_up i d)
  show ?thesis
    by (rule embed_own [OF give_up(2) _ worker_step.give_up [of _ i d]])
      (use give_up in \<open>simp_all add: goto_def leave_def\<close>)
next
  case (token i d now rl)
  show ?thesis
    by (rule embed_own [OF token(2) _ worker_step.token [of _ i d now rl]])
      (use token in \<open>simp_all add: goto_def\<close>)
next
  case (no_token i d now rl)
  show ?thesis
    by (rule embed_own [OF no_token(2) _ worker_step.no_token [of _ i d now rl]])
      (use no_token in \<open>simp_all add: goto_def\<close>)
next
  case (stop_waiting i d now rl)
  show ?thesis
    by (rule embed_own [OF stop_waiting(2) _ worker_step.stop_waiting [of _ i d now rl]])
      (use stop_waiting in \<open>simp_all add: goto_def leave_def\<close>)
next
  case (send i d n acquired clk now c w r latency)
  show ?thesis unfolding send(1) by (rule embed_send [OF send(2-5) free])
next
  case (note_reply i d latency r m now)
  show ?thesis
    by (rule embed_own [OF note_reply(2) _ worker_step.note_reply [of _ i d latency r m now]])
      (use note_reply in \<open>simp_all add: goto_def\<close>)
next
  case (replace i failed d k now c w r)
  have dial: "crew_step ops p dl (embed x) (crew_goto i (Inside (Opening (ByWorker (if failed then d else None)))) (embed x))"
    by (rule crew_step.dial_again) (use replace in simp_all)
  have "replaced failed d r = (case r of Inr a \<Rightarrow> Some a | Inl _ \<Rightarrow> if failed then d else None)"
    by (simp add: replaced_def)
  then show ?thesis
    unfolding replace(1) using embed_dial [OF replace(2) dial replace(3)] by simp
next
  case cancel
  have "call_step ops (calls_of (embed x)) ((calls_of (embed x))\<lparr>sn_cancelled := True\<rparr>)"
    unfolding call_step_def using send_step.cancel by auto
  moreover have "after_calls ((calls_of (embed x))\<lparr>sn_cancelled := True\<rparr>) (embed x) = embed y"
  proof -
    have "cr_pcs (after_calls ((calls_of (embed x))\<lparr>sn_cancelled := True\<rparr>) (embed x)) j = cr_pcs (embed y) j" for j
      by (cases "wk_pcs x j") (simp_all add: after_calls_def cancel)
    then show ?thesis by (intro crew.equality ext) (simp_all add: after_calls_def cancel)
  qed
  ultimately show ?thesis using crew_step.inside by (metis r_into_rtranclp)
qed

lemma crew_step_sem: "crew_step ops p dl x y \<Longrightarrow> cl_sem (cr_client y) = cl_sem (cr_client x)"
proof (induction rule: crew_step.induct)
  case (own x i pc ws pc')
  have "wk_client ws = cr_client x"
    using own(3) by (cases rule: worker_step.cases)
      (use own(1,2) in \<open>auto simp: goto_def leave_def split: if_splits\<close>)
  then show ?case by (simp add: after_own_def)
next
  case (inside x s)
  then show ?case using send_step_sem by (fastforce simp: call_step_def after_calls_def)
qed (simp_all add: crew_goto_def)

lemma worker_step_sem:
  assumes "worker_step ops p dl x y" and "sem_free (wk_client x) 0"
  shows "sem_free (wk_client y) 0"
proof -
  have "cl_sem (cr_client (embed y)) = cl_sem (cr_client (embed x))"
    using worker_step_crew [OF assms] by (induction rule: rtranclp_induct) (auto dest: crew_step_sem)
  then show ?thesis using assms(2) by (simp add: sem_free_def)
qed
section \<open>Failures\<close>

text \<open>
  Unless the run is cancelled, a call that fails is counted by the client before it returns, and
  then by the collector: the calls in between are those that have counted their failure, or
  returned with it.
\<close>

fun failed_place :: "send_pc \<Rightarrow> bool" where
  "failed_place (Finishing l as r) = (isl r \<and> Bump CFailed \<notin> set as)"
| "failed_place (Back d r) = isl r"
| "failed_place _ = False"

fun failed_reply :: "crew_pc \<Rightarrow> bool" where
  "failed_reply (At (Replied d latency r)) = isl r"
| "failed_reply _ = False"

text \<open>Only a call that has failed has a failure to count.\<close>

fun fails_once :: "send_pc \<Rightarrow> bool" where
  "fails_once (Finishing l as r) = (acts_ok as \<and> (Bump CFailed \<in> set as \<longrightarrow> isl r))"
| "fails_once _ = True"

abbreviation failed_count :: "client \<Rightarrow> int64" where
  "failed_count c \<equiv> cs_failedRequests (cl_stats c)"

lemma fails_counts_once: "fails_once pc \<Longrightarrow> counts_once pc"
  by (cases pc) simp_all

lemma failed_count_bump [simp]:
  "failed_count (bump CTotal c) = failed_count c" "failed_count (bump CSuccess c) = failed_count c"
  "failed_count (bump CLimited c) = failed_count c" "failed_count (bump CFailed c) = w64 (failed_count c + 1)"
  "failed_count (bump COpened c) = failed_count c" "failed_count (bump CClosed c) = failed_count c"
  "failed_count (bump (CLatency d) c) = failed_count c"
  by (simp_all add: bump_def)

lemma closed_bump [simp]: "cl_closed (bump k c) = cl_closed c"
  by (simp add: bump_def)

lemma open_fails [simp]:
  "fails_once (open_failed opn err)" "\<not> failed_place (open_failed opn err)"
  "fails_once (open_done opn a)" "\<not> failed_place (open_done opn a)"
  by (cases opn; simp add: send_failed_def)+

lemma get_fails [simp]:
  "fails_once (get_failed l err)" "\<not> failed_place (get_failed l err)"
  "fails_once (after_get l r)" "\<not> failed_place (after_get l r)"
  by (cases r; simp add: get_failed_def send_failed_def)+

lemma after_mode_fails [simp]: "fails_once (after_mode c l)" "\<not> failed_place (after_mode c l)"
  by (auto simp: after_mode_def Let_def split: option.split)

definition fails :: "client \<Rightarrow> client \<Rightarrow> send_pc \<Rightarrow> send_pc \<Rightarrow> bool" where
  "fails c c' pc pc' \<longleftrightarrow>
     (\<exists>n. failed_count c' = (if n then w64 (failed_count c + 1) else failed_count c)
        \<and> of_bool (failed_place pc') = (of_bool (failed_place pc) + of_bool n :: int))
     \<and> fails_once pc' \<and> cl_closed c' = cl_closed c"

lemma fails_none:
  assumes "failed_count c' = failed_count c" and "failed_place pc' = failed_place pc" and "fails_once pc'"
    and "cl_closed c' = cl_closed c"
  shows "fails c c' pc pc'"
  using assms unfolding fails_def by (intro conjI exI [of _ False]) simp_all

lemma advance_fails:
  assumes "advance ops now k c w pc = Some (c', w', pc')" and "fails_once pc"
  shows "fails c c' pc pc'"
proof (cases pc)
  case (Finishing l as r)
  then obtain x bs where as: "as = x # bs" using assms(1) by (cases as) auto
  have q: "quiet bs" "x = Bump CFailed \<or> x = Bump CClosed \<or> (\<forall>k. x \<noteq> Bump k)"
    using acts_ok_tail [of x bs] assms(2) by (simp_all add: Finishing as)
  show ?thesis
  proof (cases "x = Bump CFailed")
    case True
    then have "c' = bump CFailed c" "pc' = Finishing l bs r" using assms(1) by (simp_all add: Finishing as)
    moreover have "isl r" "Bump CFailed \<notin> set bs" using True assms(2) quiet_failed [OF q(1)] by (simp_all add: Finishing as)
    ultimately show ?thesis
      unfolding fails_def Finishing as True by (intro conjI exI [of _ True]) (simp_all add: acts_ok_quiet q(1))
  next
    case False
    then show ?thesis
      using assms(1) q quiet_failed [OF q(1)] unfolding Finishing as
      by (cases x) (auto intro!: fails_none simp: acts_ok_quiet split: if_splits)
  qed
next
  case (Judging l a latency resp)
  then show ?thesis using assms(1) by (auto intro!: fails_none)
next
  case (Judged l a latency resp)
  then show ?thesis using assms(1) by (auto intro!: fails_none simp: Let_def quiet_failed acts_ok_quiet)
next
  case (Answered l a r)
  then show ?thesis using assms(1) by (cases r) (auto intro!: fails_none simp: Let_def)
qed (use assms(1) in \<open>auto intro!: fails_none simp: Let_def split: prod.splits sum.splits if_splits\<close>)

lemma fails_move:
  assumes fin: "finite (dom (sn_pcs x))" and ok: "\<forall>u p. sn_pcs x u = Some p \<longrightarrow> fails_once p"
    and t: "sn_pcs x t = Some pc" "\<And>l. pc \<noteq> GetAsleep l" and m: "woken (sn_pcs x) m" and y: "sn_pcs y = m(t \<mapsto> pc')"
    and f: "fails (sn_client x) (sn_client y) pc pc'"
  shows "w64 (failed_count (sn_client y) - count_threads failed_place (sn_pcs y))
      = w64 (failed_count (sn_client x) - count_threads failed_place (sn_pcs x))
    \<and> (\<forall>u p. sn_pcs y u = Some p \<longrightarrow> fails_once p) \<and> cl_closed (sn_client y) = cl_closed (sn_client x)"
proof -
  have finm: "finite (dom m)" using fin woken_dom [OF m] by simp
  have mt: "m t = Some pc" by (rule woken_same [OF m t])
  have u: "count_threads failed_place (sn_pcs y) = count_threads failed_place (sn_pcs x) + of_bool (failed_place pc') - of_bool (failed_place pc)"
    unfolding y count_threads_upd [OF finm] by (simp add: mt woken_count [OF m])
  obtain n where n: "failed_count (sn_client y) = (if n then w64 (failed_count (sn_client x) + 1) else failed_count (sn_client x))"
    "of_bool (failed_place pc') = (of_bool (failed_place pc) + of_bool n :: int)"
    using f by (auto simp: fails_def)
  have "w64 (failed_count (sn_client y) - count_threads failed_place (sn_pcs y))
      = w64 (failed_count (sn_client x) + of_bool n - count_threads failed_place (sn_pcs y))"
    unfolding n(1) by simp
  also have "\<dots> = w64 (failed_count (sn_client x) - count_threads failed_place (sn_pcs x))"
    unfolding u n(2) by simp
  finally have c: "w64 (failed_count (sn_client y) - count_threads failed_place (sn_pcs y))
      = w64 (failed_count (sn_client x) - count_threads failed_place (sn_pcs x))" .
  have "fails_once p" if "sn_pcs y v = Some p" for v p
  proof (cases "v = t")
    case True
    then show ?thesis using that y f by (simp add: fails_def)
  next
    case False
    then have "m v = Some p" using that y by simp
    then consider "sn_pcs x v = Some p" | l where "p = GetAwake l"
      using m [unfolded woken_def, rule_format, of v] by (metis option.inject)
    then show ?thesis using ok by cases (blast, simp)
  qed
  then show ?thesis using c f by (simp add: fails_def)
qed
lemma call_step_fails:
  assumes step: "call_step ops x y" and fin: "finite (dom (sn_pcs x))"
    and ok: "\<forall>u p. sn_pcs x u = Some p \<longrightarrow> fails_once p" and n: "\<not> sn_cancelled y"
  shows "w64 (failed_count (sn_client y) - count_threads failed_place (sn_pcs y))
      = w64 (failed_count (sn_client x) - count_threads failed_place (sn_pcs x))
    \<and> (\<forall>u p. sn_pcs y u = Some p \<longrightarrow> fails_once p) \<and> cl_closed (sn_client y) = cl_closed (sn_client x)"
    (is ?kept)
proof -
  have inside: "send_step ops x y" "\<And>t pc. sn_pcs x t = Some pc \<Longrightarrow> elsewhere pc \<Longrightarrow> sn_pcs y t = Some pc"
    using step by (auto simp: call_step_def)
  note move = fails_move [OF fin ok]
  show ?thesis
    using inside(1)
  proof (cases rule: send_step.cases)
    case (move t pc now k c w pc')
    have "\<And>l. pc \<noteq> GetAsleep l" using move(3) by auto
    then show ?thesis
      by (rule fails_move [OF fin ok move(2) _ woken_refl])
        (use move advance_fails [OF move(3)] ok in \<open>simp_all add: send_goto_def\<close>)
  next
    case (enter t l)
    show ?thesis by (rule move [OF enter(2) _ woken_refl, where pc' = "Entered l"])
      (use enter in \<open>simp_all add: send_goto_def fails_none\<close>)
  next
    case (give_up t l)
    then show ?thesis using n by (simp add: send_goto_def)
  next
    case (get t l p r)
    show ?thesis by (rule move [OF get(2) _ woken_refl, where pc' = "after_get l r"])
      (use get in \<open>simp_all add: send_goto_def set_pool_def fails_none\<close>)
  next
    case (sleep t l)
    show ?thesis by (rule move [OF sleep(2) _ woken_refl, where pc' = "GetAsleep l"])
      (use sleep in \<open>simp_all add: send_goto_def fails_none\<close>)
  next
    case (wake_closed t l)
    show ?thesis by (rule move [OF wake_closed(2) _ woken_refl, where pc' = "get_failed l PoolClosed"])
      (use wake_closed in \<open>simp_all add: send_goto_def fails_none\<close>)
  next
    case (wake t l p r)
    show ?thesis by (rule move [OF wake(2) _ woken_refl, where pc' = "after_get l r"])
      (use wake in \<open>simp_all add: send_goto_def set_pool_def fails_none\<close>)
  next
    case (signal t l err m)
    show ?thesis by (rule move [OF signal(2) _ woken_signal [OF signal(3)], where pc' = "get_failed l err"])
      (use signal in \<open>simp_all add: send_goto_def fails_none\<close>)
  next
    case (put_closing t l a as r p m)
    have "woken (sn_pcs x) m" using put_closing(5) by (auto intro: woken_signal split: if_splits)
    moreover have "quiet as" using ok put_closing(2) by fastforce
    ultimately show ?thesis
      by (intro move [OF put_closing(2), where pc' = "Finishing l as r" and m = m])
        (use put_closing in \<open>simp_all add: send_goto_def set_pool_def fails_none acts_ok_quiet quiet_failed\<close>)
  next
    case (put t l a as r p)
    have "quiet as" using ok put(2) by fastforce
    then show ?thesis
      by (intro move [OF put(2) _ woken_broadcast, where pc' = "Finishing l as r"])
        (use put in \<open>simp_all add: send_goto_def set_pool_def fails_none acts_ok_quiet quiet_failed\<close>)
  next
    case (finish t l r)
    show ?thesis by (rule move [OF finish(2) _ woken_refl, where pc' = "Back (lv_dedicated l) r"])
      (use finish in \<open>simp_all add: send_goto_def fails_none\<close>)
  next
    case (set_mode mode)
    then show ?thesis using ok by (simp add: SetConnectionMode_def)
  qed (use inside(2) n in \<open>fastforce simp: send_goto_def\<close>)+
qed

text \<open>What the client has counted, less what the collector has been told and what is on its way.\<close>

definition failure_gap :: "'t crew \<Rightarrow> int" where
  "failure_gap x = failed_count (cr_client x) - count_threads failed_place (sn_pcs (calls_of x))
     - (col_failedRequests (cr_metrics x) + count_threads failed_reply (cr_pcs x))"

definition fails_ok :: "'t crew \<Rightarrow> bool" where
  "fails_ok x \<longleftrightarrow> finite (dom (cr_pcs x)) \<and> (\<forall>i q. cr_pcs x i = Some q \<longrightarrow> fails_once (send_place q)) \<and> \<not> cl_closed (cr_client x)"

lemma place_goto:
  assumes "finite (dom (cr_pcs x))" and "cr_pcs x i = Some old"
  shows "count_threads P (sn_pcs (calls_of (crew_goto i q x)))
      = count_threads P (sn_pcs (calls_of x)) + of_bool (P (send_place q)) - of_bool (P (send_place old))"
    and "count_threads R (cr_pcs (crew_goto i q x)) = count_threads R (cr_pcs x) + of_bool (R q) - of_bool (R old)"
  unfolding calls_of_goto using assms by (simp_all add: count_threads_upd crew_goto_def)

lemma goto_gap:
  assumes ok: "fails_ok x" and i: "cr_pcs x i = Some old" and c: "cr_client y = cr_client x"
    and y: "cr_pcs y = (cr_pcs x)(i \<mapsto> q)" and once: "fails_once (send_place q)"
    and m: "col_failedRequests (cr_metrics y) = (if noted then w64 (col_failedRequests (cr_metrics x) + 1) else col_failedRequests (cr_metrics x))"
    and bal: "of_bool (failed_place (send_place old)) + of_bool (failed_reply old)
      = of_bool (failed_place (send_place q)) + of_bool (failed_reply q) + (of_bool noted :: int)"
  shows "w64 (failure_gap y) = w64 (failure_gap x) \<and> fails_ok y"
proof -
  have fin: "finite (dom (cr_pcs x))" using ok by (simp add: fails_ok_def)
  have p: "sn_pcs (calls_of y) = sn_pcs (calls_of (crew_goto i q x))" "cr_pcs y = cr_pcs (crew_goto i q x)"
    using y by (auto simp: calls_of_def crew_goto_def)
  have "w64 (failure_gap y) = w64 (failed_count (cr_client x) - count_threads failed_place (sn_pcs (calls_of y))
      - (col_failedRequests (cr_metrics x) + of_bool noted + count_threads failed_reply (cr_pcs y)))"
  proof -
    have "w64 (u - (w64 v + r)) = w64 (u - (v + r))" for u v r
      using w64_diff_right [of "u - r" v] by (simp add: algebra_simps)
    then show ?thesis unfolding failure_gap_def c m by (cases noted) simp_all
  qed
  also have "\<dots> = w64 (failure_gap x)"
    unfolding failure_gap_def p place_goto [OF fin i] using bal by (intro arg_cong [where f = w64]) linarith
  finally show ?thesis using ok y c once by (auto simp: fails_ok_def)
qed
lemma own_fails:
  assumes step: "worker_step ops p dl (worker_of i pc x) ws" and one: "one_access (cr_client x) pc"
    and pc': "wk_pcs ws i = Some pc'" and n: "\<not> wk_cancelled ws"
  shows "wk_client ws = cr_client x \<and> \<not> failed_reply (At pc')
    \<and> col_failedRequests (wk_metrics ws) =
        (if failed_reply (At pc) then w64 (col_failedRequests (cr_metrics x) + 1) else col_failedRequests (cr_metrics x))"
  using step
  by (cases rule: worker_step.cases)
    (use one pc' n in \<open>auto simp: goto_def leave_def record_reply_counts split: if_splits\<close>)

lemma crew_step_gap:
  assumes step: "crew_step ops p dl x y" and ok: "fails_ok x" and n: "\<not> cr_cancelled y"
  shows "w64 (failure_gap y) = w64 (failure_gap x) \<and> fails_ok y"
proof -
  have goto: ?thesis
    if "y = crew_goto i q (x\<lparr>cr_sent := k\<rparr>)" "cr_pcs x i = Some old" "fails_once (send_place q)"
      "of_bool (failed_place (send_place old)) + of_bool (failed_reply old)
        = of_bool (failed_place (send_place q)) + (of_bool (failed_reply q) :: int)" for i q old k
    by (rule goto_gap [OF ok that(2), where q = q and noted = False]) (use that in \<open>simp_all add: crew_goto_def\<close>)
  have same: "x\<lparr>cr_sent := cr_sent x\<rparr> = x" by simp
  show ?thesis
    using step
  proof (cases rule: crew_step.cases)
    case (own i pc ws pc')
    have "\<not> wk_cancelled ws" using n own(1) by (simp add: after_own_def)
    from own_fails [OF own(4,3,5) this] show ?thesis
      by (intro goto_gap [OF ok own(2), where q = "At pc'" and noted = "failed_reply (At pc)"])
        (simp_all add: own(1) after_own_def)
  next
    case (dial_first i)
    show ?thesis by (rule goto [OF _ dial_first(2), where k = "cr_sent x", unfolded same]) (use dial_first in auto)
  next
    case (dial_again i failed d)
    show ?thesis by (rule goto [OF _ dial_again(2), where k = "cr_sent x", unfolded same, OF dial_again(1)]) simp_all
  next
    case (dialled i d)
    show ?thesis by (rule goto [OF _ dialled(2), where k = "cr_sent x", unfolded same, OF dialled(1)]) simp_all
  next
    case (number i d m now)
    show ?thesis by (rule goto [OF number(1,2)]) simp_all
  next
    case (call_closed i d req)
    then show ?thesis using ok by (simp add: fails_ok_def)
  next
    case (call i d req)
    show ?thesis by (rule goto [OF _ call(2), where k = "cr_sent x", unfolded same, OF call(1)]) simp_all
  next
    case (answered i d r latency)
    show ?thesis by (rule goto [OF _ answered(2), where k = "cr_sent x", unfolded same, OF answered(1)]) simp_all
  next
    case (inside s)
    have once: "\<forall>u p. sn_pcs (calls_of x) u = Some p \<longrightarrow> fails_once p" and fin: "finite (dom (sn_pcs (calls_of x)))"
      using ok by (auto simp: fails_ok_def)
    have s: "w64 (failed_count (sn_client s) - count_threads failed_place (sn_pcs s))
        = w64 (failed_count (cr_client x) - count_threads failed_place (sn_pcs (calls_of x)))"
      "\<forall>u p. sn_pcs s u = Some p \<longrightarrow> fails_once p" "\<not> cl_closed (sn_client s)"
      using call_step_fails [OF inside(2) fin once] n ok by (simp_all add: inside(1) after_calls_def fails_ok_def)
    have calls: "calls_of y = s" by (simp add: inside(1) calls_after [OF inside(2)])
    have "(\<exists>q. cr_pcs y i = Some q \<and> failed_reply q) = (\<exists>q. cr_pcs x i = Some q \<and> failed_reply q)" for i
    proof (cases "cr_pcs x i")
      case (Some q)
      then show ?thesis by (cases q) (auto simp: inside(1) after_calls_def)
    qed (simp add: inside(1) after_calls_def)
    then have "threads failed_reply (cr_pcs y) = threads failed_reply (cr_pcs x)" by (simp add: threads_def)
    then have r: "count_threads failed_reply (cr_pcs y) = count_threads failed_reply (cr_pcs x)"
      by (simp add: count_threads_def)
    have y: "cr_client y = sn_client s" "cr_metrics y = cr_metrics x" by (simp_all add: inside(1) after_calls_def)
    have "w64 (failure_gap y) = w64 (w64 (failed_count (sn_client s) - count_threads failed_place (sn_pcs s))
        - (col_failedRequests (cr_metrics x) + count_threads failed_reply (cr_pcs x)))"
      unfolding failure_gap_def calls y r by simp
    also have "\<dots> = w64 (failure_gap x)" unfolding s(1) failure_gap_def by simp
    finally have gap: "w64 (failure_gap y) = w64 (failure_gap x)" .
    have "dom (cr_pcs y) = dom (sn_pcs s)" using calls by (metis calls_of_sel(7))
    then have "finite (dom (cr_pcs y))" using send_step_dom [of ops "calls_of x" s] inside(2) fin by (simp add: call_step_def)
    moreover have "sn_pcs s i = Some (send_place q)" if "cr_pcs y i = Some q" for i q
      using that unfolding calls [symmetric] by simp
    ultimately show ?thesis using gap s(2,3) by (auto simp: fails_ok_def y)
  qed
qed

lemma crew_step_cancelled: "crew_step ops p dl x y \<Longrightarrow> cr_cancelled x \<Longrightarrow> cr_cancelled y"
proof (induction rule: crew_step.induct)
  case (own x i pc ws pc')
  then show ?case using worker_step_cancelled [OF own(3)] by (simp add: after_own_def)
next
  case (inside x s)
  then have "send_step ops (calls_of x) s" by (simp add: call_step_def)
  then have "sn_cancelled (calls_of x) \<Longrightarrow> sn_cancelled s"
    by (induction rule: send_step.induct) (simp_all add: send_goto_def set_pool_def)
  then show ?case using inside(2) by (simp add: after_calls_def)
qed (simp_all add: crew_goto_def)
lemma crew_step_failed_normal:
  assumes "crew_step ops p dl x y" and "w64 (col_failedRequests (cr_metrics x)) = col_failedRequests (cr_metrics x)"
  shows "w64 (col_failedRequests (cr_metrics y)) = col_failedRequests (cr_metrics y)"
  using assms(1)
proof (cases rule: crew_step.cases)
  case (own i pc ws pc')
  from own(4) have "w64 (col_failedRequests (wk_metrics ws)) = col_failedRequests (wk_metrics ws)"
    using assms(2) by (cases rule: worker_step.cases) (auto simp: goto_def leave_def record_reply_counts)
  then show ?thesis by (simp add: own(1) after_own_def)
qed (use assms(2) in \<open>simp_all add: crew_goto_def after_calls_def\<close>)

end
