(* ===== verification/Crews.thy ===== *)
theory Crews
  imports Crew
begin

text \<open>
  All clients of a run at once, with every call of \<^verbatim>\<open>Client.Send\<close> action by action: the crews of
  the clients share the servers, the connections, the collector and the simulator's request
  number. \<open>crews_step\<close> is to \<open>fleet_step\<close> what \<open>crew_step\<close> is to \<open>worker_step\<close>.

  Shown: every run of the fleet is a run of the crews; and the final result of \<^verbatim>\<open>Run\<close> is what the
  servers did and the clients counted, with every configured request sent, however the actions
  inside of the calls of all clients interleave.
\<close>

section \<open>State and steps\<close>

text \<open>What \<^verbatim>\<open>runClient\<close> and its workers share, with the mutex of the pool and the used slots.\<close>

record squad =
  sq_client :: client
  sq_limiter :: "token_bucket option"
  sq_counter :: int64
  sq_deadline :: gotime
  sq_lock :: "nat option"
  sq_used :: int
  sq_pcs :: "nat \<rightharpoonup> crew_pc"

record 'm crews =
  cw_world :: "'m network world"
  cw_metrics :: collector
  cw_sent :: int64
  cw_cancelled :: bool
  cw_squads :: "squad list"

definition view_squad :: "'m crews \<Rightarrow> nat \<Rightarrow> 'm network crew" where
  "view_squad f i =
     (let s = cw_squads f ! i
      in \<lparr>cr_client = sq_client s, cr_world = cw_world f, cr_metrics = cw_metrics f, cr_limiter = sq_limiter s,
          cr_counter = sq_counter s, cr_sent = cw_sent f, cr_cancelled = cw_cancelled f, cr_lock = sq_lock s,
          cr_used = sq_used s, cr_pcs = sq_pcs s\<rparr>)"

definition update_squad :: "nat \<Rightarrow> 'm network crew \<Rightarrow> 'm crews \<Rightarrow> 'm crews" where
  "update_squad i c f =
     \<lparr>cw_world = cr_world c, cw_metrics = cr_metrics c, cw_sent = cr_sent c, cw_cancelled = cr_cancelled c,
      cw_squads = (cw_squads f)[i := (cw_squads f ! i)\<lparr>sq_client := cr_client c, sq_limiter := cr_limiter c,
        sq_counter := cr_counter c, sq_lock := cr_lock c, sq_used := cr_used c, sq_pcs := cr_pcs c\<rparr>]\<rparr>"

inductive crews_step :: "'m allow \<Rightarrow> worker_params \<Rightarrow> 'm crews \<Rightarrow> 'm crews \<Rightarrow> bool" for allow p where
  work: "i < length (cw_squads f) \<Longrightarrow>
    crew_step (Some (simulatorTransport allow)) p (sq_deadline (cw_squads f ! i)) (view_squad f i) c \<Longrightarrow>
    crews_step allow p f (update_squad i c f)"
| observe: "other_record op \<Longrightarrow> crews_step allow p f (f\<lparr>cw_metrics := metric_apply op (cw_metrics f)\<rparr>)"

definition crews_run :: "'m allow \<Rightarrow> worker_params \<Rightarrow> 'm crews \<Rightarrow> 'm crews \<Rightarrow> bool" where
  "crews_run allow p = (crews_step allow p)\<^sup>*\<^sup>*"

text \<open>The clients when \<^verbatim>\<open>Run\<close> has started them: nobody is inside of a call.\<close>

definition embed_fleet :: "'m fleet \<Rightarrow> 'm crews" where
  "embed_fleet f =
     \<lparr>cw_world = fl_world f, cw_metrics = fl_metrics f, cw_sent = fl_sent f, cw_cancelled = fl_cancelled f,
      cw_squads = map (\<lambda>g. \<lparr>sq_client = gr_client g, sq_limiter = gr_limiter g, sq_counter = gr_counter g,
        sq_deadline = gr_deadline g, sq_lock = None, sq_used = 0, sq_pcs = (\<lambda>j. map_option At (gr_pcs g j))\<rparr>) (fl_groups f)\<rparr>"

definition startCrews :: "(nat \<Rightarrow> gotime) \<Rightarrow> 'm simulation \<Rightarrow> 'm crews" where
  "startCrews nows x = embed_fleet (startClients nows x)"

definition joinCrews :: "'m crews \<Rightarrow> 'm simulation \<Rightarrow> 'm simulation" where
  "joinCrews f x =
     update_sim (\<lambda>s. s\<lparr>sim_metrics := cw_metrics f, requestCount := cw_sent f, sim_clients := map sq_client (cw_squads f)\<rparr>)
       (x\<lparr>simulation.sn_world := cw_world f\<rparr>)"

definition all_gone_home :: "'m crews \<Rightarrow> bool" where
  "all_gone_home f \<longleftrightarrow> (\<forall>s\<in>set (cw_squads f). \<forall>q\<in>ran (sq_pcs s). q = At Gone)"

section \<open>The crews seen from outside are a fleet\<close>

definition fleet_of :: "'m crews \<Rightarrow> 'm fleet" where
  "fleet_of f =
     \<lparr>fl_world = cw_world f, fl_metrics = cw_metrics f, fl_sent = cw_sent f, fl_cancelled = cw_cancelled f,
      fl_groups = map (\<lambda>s. \<lparr>gr_client = with_unjudged (\<lambda>j. map_option send_place (sq_pcs s j)) (sq_client s),
        gr_limiter = sq_limiter s, gr_counter = sq_counter s, gr_deadline = sq_deadline s,
        gr_pcs = (\<lambda>j. map_option as_worker (sq_pcs s j))\<rparr>) (cw_squads f)\<rparr>"

lemma fleet_of_sel [simp]:
  "fl_world (fleet_of f) = cw_world f" "fl_metrics (fleet_of f) = cw_metrics f" "fl_sent (fleet_of f) = cw_sent f"
  "fl_cancelled (fleet_of f) = cw_cancelled f" "length (fl_groups (fleet_of f)) = length (cw_squads f)"
  by (simp_all add: fleet_of_def)

lemma view_squad_sel [simp]:
  "cr_client (view_squad f i) = sq_client (cw_squads f ! i)" "cr_world (view_squad f i) = cw_world f"
  "cr_metrics (view_squad f i) = cw_metrics f" "cr_sent (view_squad f i) = cw_sent f"
  "cr_cancelled (view_squad f i) = cw_cancelled f" "cr_pcs (view_squad f i) = sq_pcs (cw_squads f ! i)"
  by (simp_all add: view_squad_def Let_def)

lemma view_fleet_of: "i < length (cw_squads f) \<Longrightarrow> view_client (fleet_of f) i = see (view_squad f i)"
  by (simp add: view_client_def fleet_of_def see_def view_squad_def calls_of_def Let_def)

lemma update_fleet_of:
  "i < length (cw_squads f) \<Longrightarrow> fleet_of (update_squad i c f) = update_client i (see c) (fleet_of f)"
  by (simp add: fleet_of_def update_squad_def update_client_def see_def calls_of_def map_update)

lemma observe_fleet_of:
  "fleet_of (f\<lparr>cw_metrics := m\<rparr>) = (fleet_of f)\<lparr>fl_metrics := m\<rparr>"
  by (simp add: fleet_of_def)

text \<open>What holds of every squad and is kept by the steps of one.\<close>

lemma squads_update:
  assumes "\<forall>s\<in>set (cw_squads f). Q (sq_client s) (sq_pcs s)" and "Q (cr_client c) (cr_pcs c)"
  shows "\<forall>s\<in>set (cw_squads (update_squad i c f)). Q (sq_client s) (sq_pcs s)"
proof
  fix s assume "s \<in> set (cw_squads (update_squad i c f))"
  then have "s \<in> set (cw_squads f) \<or> sq_client s = cr_client c \<and> sq_pcs s = cr_pcs c"
    using set_update_subset_insert [of "cw_squads f" i] by (fastforce simp: update_squad_def)
  then show "Q (sq_client s) (sq_pcs s)" using assms by auto
qed

definition crews_ok :: "'m crews \<Rightarrow> bool" where
  "crews_ok f \<longleftrightarrow> (\<forall>s\<in>set (cw_squads f). finite (dom (sq_pcs s)) \<and> (\<forall>j q. sq_pcs s j = Some q \<longrightarrow> counts_once (send_place q)))"

lemma crews_ok_view: "crews_ok f \<Longrightarrow> i < length (cw_squads f) \<Longrightarrow> crew_ok (view_squad f i)"
  unfolding crews_ok_def crew_ok_def view_squad_sel by (meson nth_mem)

lemma crews_ok_update: "crews_ok f \<Longrightarrow> crew_ok c \<Longrightarrow> crews_ok (update_squad i c f)"
  unfolding crews_ok_def crew_ok_def by (rule squads_update)

lemma crews_step_inv:
  assumes "crews_step allow p f f'" and "crews_ok f"
  shows "crews_ok f'" and "fleet_books (fleet_of f) \<Longrightarrow> fleet_books (fleet_of f')"
    and "fleet_counts p (fleet_of f) \<Longrightarrow> 0 < requestsPerClient p \<Longrightarrow>
      requestsPerClient p + wp_maxConcurrency p + 1 < 2 ^ 63 \<Longrightarrow> 0 \<le> wp_maxConcurrency p \<Longrightarrow> fleet_counts p (fleet_of f')"
    and "length (cw_squads f') = length (cw_squads f)"
proof -
  consider (work) i c where "f' = update_squad i c f" "i < length (cw_squads f)"
      "crew_step (Some (simulatorTransport allow)) p (sq_deadline (cw_squads f ! i)) (view_squad f i) c"
    | (observe) op where "f' = f\<lparr>cw_metrics := metric_apply op (cw_metrics f)\<rparr>" "other_record op"
    using assms(1) by (auto elim: crews_step.cases)
  note cases = this
  have seen: "seen allow p (sq_deadline (cw_squads f ! i)) (see (view_squad f i)) (see c)"
    if "i < length (cw_squads f)" "crew_step (Some (simulatorTransport allow)) p (sq_deadline (cw_squads f ! i)) (view_squad f i) c" for i c
    by (rule crew_step_seen [OF that(2) crews_ok_view [OF assms(2) that(1)]])
  show "crews_ok f'"
    using cases
  proof cases
    case (work i c)
    then show ?thesis using crew_step_ok [OF work(3) crews_ok_view [OF assms(2) work(2)]] crews_ok_update [OF assms(2)] by simp
  next
    case (observe op)
    then show ?thesis using assms(2) by (simp add: crews_ok_def)
  qed
  show "fleet_books (fleet_of f')" if "fleet_books (fleet_of f)"
    using cases
  proof cases
    case (work i c)
    note keeps = seen_keeps [OF seen [OF work(2,3)]]
    show ?thesis
      unfolding work(1) update_fleet_of [OF work(2)]
      by (rule fleet_books_update [OF that])
        (use work(2) keeps(1-3) in \<open>simp_all add: view_fleet_of [OF work(2)] flip: view_sel(6)\<close>)
  next
    case (observe op)
    then show ?thesis using fleet_books_observe [OF that observe(2)] by (simp add: observe_fleet_of)
  qed
  show "fleet_counts p (fleet_of f')"
    if "fleet_counts p (fleet_of f)" "0 < requestsPerClient p" "requestsPerClient p + wp_maxConcurrency p + 1 < 2 ^ 63"
      "0 \<le> wp_maxConcurrency p"
    using cases
  proof cases
    case (work i c)
    note keeps = seen_keeps [OF seen [OF work(2,3)]]
    show ?thesis
      unfolding work(1) update_fleet_of [OF work(2)]
      by (rule fleet_counts_update [OF that(1)])
        (use work(2) keeps(4,5) that(2-4) in \<open>simp_all add: view_fleet_of [OF work(2)]\<close>)
  next
    case (observe op)
    then show ?thesis using fleet_counts_observe [OF that(1) observe(2)] by (simp add: observe_fleet_of)
  qed
  show "length (cw_squads f') = length (cw_squads f)"
    using cases by cases (simp_all add: update_squad_def)
qed
section \<open>From the start of Run to its result\<close>

lemma fleet_of_embed:
  assumes "fleet_books f"
  shows "fleet_of (embed_fleet f) = f"
proof -
  have none: "count_threads (unjudged limited) (\<lambda>j. map_option send_place (map_option At (m j))) = 0" for limited m
    by (rule count_threads_none) auto
  have "with_unjudged (\<lambda>j. map_option send_place (map_option At (gr_pcs g j))) (gr_client g) = gr_client g"
    if "g \<in> set (fl_groups f)" for g
    using assms that unfolding fleet_books_def with_unjudged_def none by simp
  then have "map (\<lambda>g. g\<lparr>gr_client := with_unjudged (\<lambda>j. map_option send_place (map_option At (gr_pcs g j))) (gr_client g)\<rparr>) (fl_groups f)
      = fl_groups f"
    by (intro map_idI) simp
  moreover have "fl_groups (fleet_of (embed_fleet f))
      = map (\<lambda>g. g\<lparr>gr_client := with_unjudged (\<lambda>j. map_option send_place (map_option At (gr_pcs g j))) (gr_client g)\<rparr>) (fl_groups f)"
    by (auto simp: fleet_of_def embed_fleet_def option.map_comp comp_def option.map_ident)
  ultimately show ?thesis by (intro fleet.equality) (simp_all add: embed_fleet_def)
qed

lemma embed_fleet_ok: "fleet_books f \<Longrightarrow> crews_ok (embed_fleet f)"
  by (auto simp: crews_ok_def embed_fleet_def fleet_books_def dom_def)

lemma crews_run_inv:
  assumes "crews_run allow p f f'" and "crews_ok f" and "fleet_books (fleet_of f)"
  shows "crews_ok f' \<and> fleet_books (fleet_of f') \<and> length (cw_squads f') = length (cw_squads f)"
  using assms unfolding crews_run_def by (induction rule: rtranclp_induct) (auto dest: crews_step_inv)

lemma crews_run_counts:
  assumes "crews_run allow p f f'" and "crews_ok f" and "fleet_counts p (fleet_of f)"
    and "0 < requestsPerClient p" "requestsPerClient p + wp_maxConcurrency p + 1 < 2 ^ 63" "0 \<le> wp_maxConcurrency p"
  shows "fleet_counts p (fleet_of f')"
proof -
  have "crews_ok f' \<and> fleet_counts p (fleet_of f')"
    using assms(1) unfolding crews_run_def
  proof (induction rule: rtranclp_induct)
    case (step g h)
    then show ?case using crews_step_inv(1,3) [OF step(2)] assms(4-6) by blast
  qed (use assms in simp)
  then show ?thesis by blast
qed

text \<open>When all have gone home, every answer is counted.\<close>

lemma gone_home_left: "all_gone_home f \<Longrightarrow> all_left (fleet_of f)"
  by (fastforce simp: all_gone_home_def all_left_def fleet_of_def ran_def)

lemma w64_sum_list: "w64 (\<Sum>x\<leftarrow>xs. w64 (h x)) = w64 (\<Sum>x\<leftarrow>xs. h x)"
proof (induction xs)
  case (Cons x xs)
  have "w64 (w64 (h x) + (\<Sum>x\<leftarrow>xs. w64 (h x))) = w64 (h x + w64 (\<Sum>x\<leftarrow>xs. w64 (h x)))" by simp
  then show ?case unfolding Cons by simp
qed simp

lemma gone_home_counts:
  assumes "all_gone_home f"
  shows "w64 (sum_clients cs_successfulRequests (fleet_of f)) = w64 (\<Sum>s\<leftarrow>cw_squads f. cs_successfulRequests (cl_stats (sq_client s)))"
    and "w64 (sum_clients cs_rateLimitedRequests (fleet_of f)) = w64 (\<Sum>s\<leftarrow>cw_squads f. cs_rateLimitedRequests (cl_stats (sq_client s)))"
proof -
  have none: "count_threads (unjudged limited) (\<lambda>j. map_option send_place (sq_pcs s j)) = 0" if "s \<in> set (cw_squads f)" for s limited
    using assms that by (intro count_threads_none) (force simp: all_gone_home_def ran_def)
  have "(\<Sum>s\<leftarrow>cw_squads f. client_count limited (sq_client s) + count_threads (unjudged limited) (\<lambda>j. map_option send_place (sq_pcs s j)))
      = (\<Sum>s\<leftarrow>cw_squads f. client_count limited (sq_client s))" for limited
    by (intro arg_cong [where f = sum_list] map_cong refl) (simp add: none)
  from this [of False] this [of True]
  show "w64 (sum_clients cs_successfulRequests (fleet_of f)) = w64 (\<Sum>s\<leftarrow>cw_squads f. cs_successfulRequests (cl_stats (sq_client s)))"
    "w64 (sum_clients cs_rateLimitedRequests (fleet_of f)) = w64 (\<Sum>s\<leftarrow>cw_squads f. cs_rateLimitedRequests (cl_stats (sq_client s)))"
    by (simp_all add: sum_clients_def fleet_of_def with_unjudged_def comp_def w64_sum_list client_count_def)
qed

section \<open>Calls as one action\<close>

lemma view_embed: "i < length (fl_groups f) \<Longrightarrow> view_squad (embed_fleet f) i = embed (view_client f i)"
  by (simp add: view_squad_def embed_fleet_def embed_def view_client_def Let_def)

lemma update_embed:
  "i < length (fl_groups f) \<Longrightarrow> update_squad i (embed ws) (embed_fleet f) = embed_fleet (update_client i ws f)"
  by (simp add: update_squad_def embed_fleet_def update_client_def embed_def map_update)

lemma update_view_squad: "i < length (cw_squads f) \<Longrightarrow> update_squad i (view_squad f i) f = f"
  by (simp add: update_squad_def view_squad_def Let_def)

lemma view_update_squad: "i < length (cw_squads f) \<Longrightarrow> view_squad (update_squad i c f) i = c"
  by (simp add: update_squad_def view_squad_def Let_def)

lemma crews_run_crew:
  assumes "(crew_step (Some (simulatorTransport allow)) p (sq_deadline (cw_squads f ! i)))\<^sup>*\<^sup>* (view_squad f i) c"
    and i: "i < length (cw_squads f)"
  shows "crews_run allow p f (update_squad i c f)"
  using assms(1)
proof (induction rule: rtranclp_induct)
  case base
  then show ?case by (simp add: update_view_squad [OF i] crews_run_def)
next
  case (step c c')
  have deadline: "sq_deadline (cw_squads (update_squad i c f) ! i) = sq_deadline (cw_squads f ! i)"
    using i by (simp add: update_squad_def)
  have "crews_step allow p (update_squad i c f) (update_squad i c' (update_squad i c f))"
    by (rule crews_step.work) (use i in \<open>simp add: update_squad_def\<close>, simp only: deadline view_update_squad [OF i] step(2))
  moreover have "update_squad i c' (update_squad i c f) = update_squad i c' f" using i by (simp add: update_squad_def)
  ultimately show ?case using step(3) unfolding crews_run_def by (simp add: rtranclp.rtrancl_into_rtrancl)
qed

definition has_room :: "'m fleet \<Rightarrow> bool" where
  "has_room f \<longleftrightarrow> (\<forall>g\<in>set (fl_groups f). sem_free (gr_client g) 0)"

lemma fleet_step_crews:
  assumes "fleet_step allow p f f'" and room: "has_room f"
  shows "crews_run allow p (embed_fleet f) (embed_fleet f') \<and> has_room f'"
  using assms(1)
proof (cases rule: fleet_step.cases)
  case (work i ws)
  have free: "sem_free (wk_client (view_client f i)) 0" using room work(2) by (simp add: has_room_def)
  have i: "i < length (cw_squads (embed_fleet f))" using work(2) by (simp add: embed_fleet_def)
  have "sq_deadline (cw_squads (embed_fleet f) ! i) = gr_deadline (fl_groups f ! i)" using work(2) by (simp add: embed_fleet_def)
  with worker_step_crew [OF work(3) free]
  have "(crew_step (Some (simulatorTransport allow)) p (sq_deadline (cw_squads (embed_fleet f) ! i)))\<^sup>*\<^sup>*
      (view_squad (embed_fleet f) i) (embed ws)" using work(2) by (simp add: view_embed)
  from crews_run_crew [OF this i] have "crews_run allow p (embed_fleet f) (embed_fleet f')"
    using work(1,2) by (simp add: update_embed)
  moreover have "has_room f'"
    unfolding has_room_def work(1)
    by (rule groups_update) (use room worker_step_sem [OF work(3) free] in \<open>simp_all add: has_room_def\<close>)
  ultimately show ?thesis by blast
next
  case (observe op)
  have "crews_step allow p (embed_fleet f) ((embed_fleet f)\<lparr>cw_metrics := metric_apply op (cw_metrics (embed_fleet f))\<rparr>)"
    by (rule crews_step.observe [OF observe(2)])
  moreover have "(embed_fleet f)\<lparr>cw_metrics := metric_apply op (cw_metrics (embed_fleet f))\<rparr> = embed_fleet f'"
    by (simp add: observe(1) embed_fleet_def)
  ultimately show ?thesis using room observe(1) by (auto simp: crews_run_def has_room_def)
qed

lemma fleet_run_crews:
  assumes "fleet_run allow p f f'" and "has_room f"
  shows "crews_run allow p (embed_fleet f) (embed_fleet f') \<and> has_room f'"
  using assms(1) unfolding fleet_run_def
proof (induction rule: rtranclp_induct)
  case base
  then show ?case using assms(2) by (simp add: crews_run_def)
next
  case (step g h)
  then show ?case using fleet_step_crews [OF step(2)] unfolding crews_run_def by (meson rtranclp_trans)
qed
section \<open>Failures of all clients\<close>

definition crews_fails :: "'m crews \<Rightarrow> bool" where
  "crews_fails f \<longleftrightarrow>
     (\<forall>s\<in>set (cw_squads f). finite (dom (sq_pcs s)) \<and> (\<forall>j q. sq_pcs s j = Some q \<longrightarrow> fails_once (send_place q)) \<and> \<not> cl_closed (sq_client s))
     \<and> w64 (col_failedRequests (cw_metrics f)) = col_failedRequests (cw_metrics f)
     \<and> w64 ((\<Sum>s\<leftarrow>cw_squads f. failed_count (sq_client s) - count_threads failed_place (\<lambda>j. map_option send_place (sq_pcs s j))
            - count_threads failed_reply (sq_pcs s)) - col_failedRequests (cw_metrics f)) = 0"

lemma view_gap:
  "failure_gap (view_squad f i) = failed_count (sq_client (cw_squads f ! i))
      - count_threads failed_place (\<lambda>j. map_option send_place (sq_pcs (cw_squads f ! i) j))
      - count_threads failed_reply (sq_pcs (cw_squads f ! i)) - col_failedRequests (cw_metrics f)"
  by (simp add: failure_gap_def calls_of_def)

lemma crews_step_fails:
  assumes "crews_step allow p f f'" and inv: "crews_fails f" and n: "\<not> cw_cancelled f'"
  shows "crews_fails f'"
  using assms(1)
proof (cases rule: crews_step.cases)
  case (work i c)
  define part :: "squad \<Rightarrow> int" where "part s = failed_count (sq_client s) - count_threads failed_place (\<lambda>j. map_option send_place (sq_pcs s j))
    - count_threads failed_reply (sq_pcs s)" for s
  have each: "\<forall>s\<in>set (cw_squads f). finite (dom (sq_pcs s)) \<and> (\<forall>j q. sq_pcs s j = Some q \<longrightarrow> fails_once (send_place q)) \<and> \<not> cl_closed (sq_client s)"
    and normal: "w64 (col_failedRequests (cw_metrics f)) = col_failedRequests (cw_metrics f)"
    and gap: "w64 ((\<Sum>s\<leftarrow>cw_squads f. part s) - col_failedRequests (cw_metrics f)) = 0"
    using inv unfolding crews_fails_def part_def by blast+
  have ok: "fails_ok (view_squad f i)" unfolding fails_ok_def view_squad_sel using each work(2) by (meson nth_mem)
  have "\<not> cr_cancelled c" using n by (simp add: work(1) update_squad_def)
  note kept = crew_step_gap [OF work(3) ok this]
  let ?new = "(cw_squads f ! i)\<lparr>sq_client := cr_client c, sq_limiter := cr_limiter c, sq_counter := cr_counter c,
    sq_lock := cr_lock c, sq_used := cr_used c, sq_pcs := cr_pcs c\<rparr>"
  have new: "part ?new - col_failedRequests (cr_metrics c) = failure_gap c"
    by (simp add: part_def failure_gap_def calls_of_def)
  have old: "part (cw_squads f ! i) - col_failedRequests (cw_metrics f) = failure_gap (view_squad f i)"
    by (simp add: part_def view_gap)
  have "(\<Sum>s\<leftarrow>cw_squads f'. part s) - col_failedRequests (cw_metrics f')
      = ((\<Sum>s\<leftarrow>cw_squads f. part s) - col_failedRequests (cw_metrics f)) - failure_gap (view_squad f i) + failure_gap c"
    using work(2) new old by (simp add: work(1) update_squad_def sum_update)
  then have "w64 ((\<Sum>s\<leftarrow>cw_squads f'. part s) - col_failedRequests (cw_metrics f'))
      = w64 (w64 ((\<Sum>s\<leftarrow>cw_squads f. part s) - col_failedRequests (cw_metrics f)) - failure_gap (view_squad f i) + w64 (failure_gap c))"
    by (metis w64_add_right w64_add_left diff_add_eq add_diff_eq)
  also have "\<dots> = 0" unfolding gap using kept by (simp add: w64_id in64_def)
  finally have total: "w64 ((\<Sum>s\<leftarrow>cw_squads f'. part s) - col_failedRequests (cw_metrics f')) = 0" .
  have "\<forall>s\<in>set (cw_squads f'). finite (dom (sq_pcs s)) \<and> (\<forall>j q. sq_pcs s j = Some q \<longrightarrow> fails_once (send_place q)) \<and> \<not> cl_closed (sq_client s)"
    unfolding work(1) by (rule squads_update [OF each]) (use kept in \<open>simp add: fails_ok_def\<close>)
  moreover have "w64 (col_failedRequests (cw_metrics f')) = col_failedRequests (cw_metrics f')"
    using crew_step_failed_normal [OF work(3)] normal by (simp add: work(1) update_squad_def)
  ultimately show ?thesis using total unfolding crews_fails_def part_def by blast
next
  case (observe op)
  then show ?thesis using inv other_frame [OF observe(2), of "cw_metrics f"] by (simp add: crews_fails_def)
qed

lemma crews_step_cancelled: "crews_step allow p f f' \<Longrightarrow> cw_cancelled f \<Longrightarrow> cw_cancelled f'"
  by (cases rule: crews_step.cases) (auto dest: crew_step_cancelled simp: update_squad_def)

lemma crews_run_fails:
  assumes "crews_run allow p f f'" and "crews_fails f" and "\<not> cw_cancelled f'"
  shows "crews_fails f'"
  using assms(1,3) unfolding crews_run_def
proof (induction rule: rtranclp_induct)
  case (step g h)
  then show ?case using crews_step_fails [OF step(2)] crews_step_cancelled [OF step(2)] by blast
qed (rule assms(2))

lemma gone_home_fails:
  assumes "all_gone_home f" and "crews_fails f"
  shows "col_failedRequests (cw_metrics f) = w64 (\<Sum>s\<leftarrow>cw_squads f. failed_count (sq_client s))"
proof -
  have none: "count_threads failed_place (\<lambda>j. map_option send_place (sq_pcs s j)) = 0 \<and> count_threads failed_reply (sq_pcs s) = 0"
    if "s \<in> set (cw_squads f)" for s
    by (intro conjI count_threads_none) (use assms(1) that in \<open>force simp: all_gone_home_def ran_def\<close>)+
  have "(\<Sum>s\<leftarrow>cw_squads f. failed_count (sq_client s) - count_threads failed_place (\<lambda>j. map_option send_place (sq_pcs s j))
        - count_threads failed_reply (sq_pcs s)) = (\<Sum>s\<leftarrow>cw_squads f. failed_count (sq_client s))"
    by (intro arg_cong [where f = sum_list] map_cong refl) (simp add: none)
  then have z: "w64 ((\<Sum>s\<leftarrow>cw_squads f. failed_count (sq_client s)) - col_failedRequests (cw_metrics f)) = 0"
    and normal: "w64 (col_failedRequests (cw_metrics f)) = col_failedRequests (cw_metrics f)"
    using assms(2) by (simp_all add: crews_fails_def)
  have "w64 (\<Sum>s\<leftarrow>cw_squads f. failed_count (sq_client s))
      = w64 (w64 ((\<Sum>s\<leftarrow>cw_squads f. failed_count (sq_client s)) - col_failedRequests (cw_metrics f)) + col_failedRequests (cw_metrics f))"
    by simp
  then show ?thesis unfolding z using normal by simp
qed
lemma new_client_room: "sem_free (NewClient config) 0"
  by (simp add: sem_free_def NewClient_def Let_def)

lemma start_has_room:
  assumes "Simulator_New cfg nclk = Inr sim"
  shows "has_room (startClients nows (run_start clk (launch sim lims clocks)))"
proof -
  note start = first_run(2,4) [OF assms, where lims = lims and clocks = clocks and clk = clk]
  have "fl_groups (startClients nows (run_start clk (launch sim lims clocks)))
      = map (\<lambda>i. runClient (worker_params cfg) (nows i) (NewClient (clientConfig cfg i))) [0..<nat (cc_Count (Clients cfg))]"
    using start by (simp add: startClients_def Let_def)
  then show ?thesis by (auto simp: has_room_def runClient_sel new_client_room)
qed

lemma start_fails:
  assumes "Simulator_New cfg nclk = Inr sim"
  shows "crews_fails (embed_fleet (startClients nows (run_start clk (launch sim lims clocks))))"
proof -
  note start = first_run(2,4,5) [OF assms, where lims = lims and clocks = clocks and clk = clk]
  let ?groups = "map (\<lambda>i. runClient (worker_params cfg) (nows i) (NewClient (clientConfig cfg i))) [0..<nat (cc_Count (Clients cfg))]"
  let ?f = "startClients nows (run_start clk (launch sim lims clocks))"
  have f: "fl_groups ?f = ?groups" "col_failedRequests (fl_metrics ?f) = 0"
    using start by (simp_all add: startClients_def Reset_def Let_def)
  have new: "failed_count (NewClient config) = 0" "\<not> cl_closed (NewClient config)" for config
    by (simp_all add: NewClient_def Let_def)
  have squad: "failed_count (sq_client s) = 0 \<and> count_threads failed_place (\<lambda>j. map_option send_place (sq_pcs s j)) = 0
      \<and> count_threads failed_reply (sq_pcs s) = 0 \<and> finite (dom (sq_pcs s))
      \<and> (\<forall>j q. sq_pcs s j = Some q \<longrightarrow> fails_once (send_place q)) \<and> \<not> cl_closed (sq_client s)"
    if s: "s \<in> set (cw_squads (embed_fleet ?f))" for s
  proof -
    obtain i where i: "sq_client s = NewClient (clientConfig cfg i)"
      "sq_pcs s = (\<lambda>j. if int j < wp_maxConcurrency (worker_params cfg) then Some (At Starting) else None)"
      using s by (auto simp: embed_fleet_def f runClient_sel fun_eq_iff)
    have "finite (dom (sq_pcs s))"
      by (rule finite_subset [of _ "{j. int j < wp_maxConcurrency (worker_params cfg)}"]) (auto simp: i split: if_splits)
    then show ?thesis by (auto simp: i new intro!: count_threads_none split: if_splits)
  qed
  have "(\<Sum>s\<leftarrow>cw_squads (embed_fleet ?f). failed_count (sq_client s)
      - count_threads failed_place (\<lambda>j. map_option send_place (sq_pcs s j)) - count_threads failed_reply (sq_pcs s))
      = (\<Sum>s\<leftarrow>cw_squads (embed_fleet ?f). 0)"
    by (intro arg_cong [where f = sum_list] map_cong refl) (simp add: squad)
  moreover have "col_failedRequests (cw_metrics (embed_fleet ?f)) = 0" using f(2) by (simp add: embed_fleet_def)
  moreover have "w64 0 = 0" by (simp add: w64_id in64_def)
  ultimately show ?thesis using squad unfolding crews_fails_def by simp
qed

text \<open>
  C38. Nothing is lost by taking a call of \<^verbatim>\<open>Client.Send\<close> as one action. When the clients of a new
  simulator can run to a state with every call one action, they can run to that state, nobody
  inside of a call, with the actions inside of the calls as steps of their own.
\<close>

theorem fleet_refines_crews:
  assumes "Simulator_New cfg nclk = Inr sim"
    and "fleet_run allow p (startClients nows (run_start clk (launch sim lims clocks))) f"
  shows "crews_run allow p (startCrews nows (run_start clk (launch sim lims clocks))) (embed_fleet f)"
  unfolding startCrews_def using fleet_run_crews [OF assms(2) start_has_room [OF assms(1)]] by blast

text \<open>
  C37. The result of a run is what happened. When the clients of a new simulator have run until
  all workers are gone, in any interleaving of the single actions inside of \<^verbatim>\<open>runClient\<close> and of
  all concurrent calls of \<^verbatim>\<open>Client.Send\<close>, the final result of \<^verbatim>\<open>Run\<close> agrees with both sides. As
  rejected it reports exactly what the servers have rejected and the clients counted as
  rejected. As successful it reports what the clients counted as successful, which is all other
  requests that the servers have handled (the answers 500 after a failure of the limiter are
  among them). The total is all outcomes together. Unless the run was cancelled, the failures
  reported are those that the clients counted, and the total is the number of clients times
  \<^verbatim>\<open>requests_per_client\<close>; in a cancelled run the collector may be told of failures that \<^verbatim>\<open>Send\<close>
  returns without counting them.
\<close>

theorem crews_report_what_happened:
  assumes new: "Simulator_New cfg nclk = Inr sim"
    and run: "crews_run allow (worker_params cfg) (startCrews nows (run_start clk (launch sim lims clocks))) f"
    and gone: "all_gone_home f"
    and size: "RequestsPerClient (Clients cfg) + wp_maxConcurrency (worker_params cfg) + 1 < 2 ^ 63"
  shows "\<exists>y fs' snap. Simulator_Run marshal write (joinCrews f) clk (launch sim lims clocks) fs = (y, fs', Inr snap)
    \<and> ms_RateLimitedRequests snap = w64 (sum_stat srv_rateLimitedRequests (sim_servers_of y))
    \<and> w64 (ms_SuccessfulRequests snap + ms_RateLimitedRequests snap) = w64 (sum_stat srv_totalRequests (sim_servers_of y))
    \<and> ms_SuccessfulRequests snap = w64 (\<Sum>c\<leftarrow>sim_clients (sn_simulator y). cv_SuccessfulRequests (Client_Stats c))
    \<and> ms_RateLimitedRequests snap = w64 (\<Sum>c\<leftarrow>sim_clients (sn_simulator y). cv_RateLimitedRequests (Client_Stats c))
    \<and> ms_TotalRequests snap = w64 (ms_SuccessfulRequests snap + ms_RateLimitedRequests snap + ms_FailedRequests snap)
    \<and> (\<not> cw_cancelled f \<longrightarrow>
         ms_FailedRequests snap = w64 (\<Sum>c\<leftarrow>sim_clients (sn_simulator y). cv_FailedRequests (Client_Stats c)))
    \<and> (0 < RequestsPerClient (Clients cfg) \<and> \<not> cw_cancelled f \<longrightarrow>
         ms_TotalRequests snap = w64 (int (nat (cc_Count (Clients cfg))) * RequestsPerClient (Clients cfg))
         \<and> requestCount (sn_simulator y) = ms_TotalRequests snap)"
proof -
  let ?p = "worker_params cfg" and ?f = "startClients nows (run_start clk (launch sim lims clocks))"
  note start = first_fleet [OF new, where nows = nows and clk = clk and lims = lims and clocks = clocks]
  have p: "requestsPerClient ?p = RequestsPerClient (Clients cfg)" "0 < wp_maxConcurrency ?p"
    by (simp_all add: worker_params_def)
  note embed = fleet_of_embed [OF start(1)] and ok = embed_fleet_ok [OF start(1)] and run = run [unfolded startCrews_def]
  have inv: "fleet_books (fleet_of f)" "length (cw_squads f) = nat (cc_Count (Clients cfg))"
    using crews_run_inv [OF run ok, unfolded embed, OF start(1)] start(3) by (simp_all add: embed_fleet_def)
  note left = gone_home_left [OF gone]
  note closed = books_closed [OF inv(1) left, unfolded gone_home_counts [OF gone] fleet_of_sel]
  have counted: "cw_sent f = col_totalRequests (cw_metrics f)
      \<and> col_totalRequests (cw_metrics f) = w64 (int (nat (cc_Count (Clients cfg))) * RequestsPerClient (Clients cfg))"
    if "0 < RequestsPerClient (Clients cfg)" "\<not> cw_cancelled f"
  proof -
    have "fleet_counts ?p (fleet_of f)"
      by (rule crews_run_counts [OF run ok]) (use start(2) that(1) size p in \<open>simp_all add: embed\<close>)
    from counts_closed [OF this left _ p(2)] that(2) show ?thesis using inv(2) p(1) by simp
  qed
  let ?x = "joinCrews f (run_start clk (launch sim lims clocks))"
  have joined: "sim_metrics (sn_simulator ?x) = cw_metrics f" "requestCount (sn_simulator ?x) = cw_sent f"
    "sim_servers_of ?x = net_servers (wd_tp (cw_world f))"
    "(\<Sum>c\<leftarrow>sim_clients (sn_simulator ?x). cv_SuccessfulRequests (Client_Stats c))
      = (\<Sum>s\<leftarrow>cw_squads f. cs_successfulRequests (cl_stats (sq_client s)))"
    "(\<Sum>c\<leftarrow>sim_clients (sn_simulator ?x). cv_RateLimitedRequests (Client_Stats c))
      = (\<Sum>s\<leftarrow>cw_squads f. cs_rateLimitedRequests (cl_stats (sq_client s)))"
    "(\<Sum>c\<leftarrow>sim_clients (sn_simulator ?x). cv_FailedRequests (Client_Stats c)) = (\<Sum>s\<leftarrow>cw_squads f. failed_count (sq_client s))"
    by (simp_all add: joinCrews_def update_sim_def comp_def Client_Stats_def Let_def)
  have failed: "\<not> cw_cancelled f \<longrightarrow> col_failedRequests (cw_metrics f) = w64 (\<Sum>s\<leftarrow>cw_squads f. failed_count (sq_client s))"
    using gone_home_fails [OF gone] crews_run_fails [OF run start_fails [OF new]] by blast
  show ?thesis
    by (rule run_result [OF new refl, where work = "joinCrews f" and m = "cw_metrics f"], unfold joined)
      (use closed counted failed in \<open>blast | simp\<close>)+
qed

text \<open>One client, one worker, one request.\<close>

lemma embed_gone_home: "all_left f \<Longrightarrow> all_gone_home (embed_fleet f)"
  by (fastforce simp: all_left_def all_gone_home_def embed_fleet_def ran_def)

theorem fleet_refines_crews_witness:
  "\<exists>sim f. Simulator_New demo_run_config demo_new_clock = Inr sim \<and> all_gone_home f
    \<and> crews_run demo_allow (worker_params demo_run_config)
        (startCrews (\<lambda>_. now_at 0 0) (run_start demo_run_clock (launch sim demo_window (\<lambda>_. demo_handler_clock)))) f"
proof -
  obtain sim where sim: "Simulator_New demo_run_config demo_new_clock = Inr sim" using demo_run_sim by blast
  obtain f where f: "fleet_run demo_allow (worker_params demo_run_config) (demo_fleet sim) f" "all_left f"
    using demo_fleet_run [OF sim] by blast
  show ?thesis using sim fleet_refines_crews [OF sim f(1)] embed_gone_home [OF f(2)] by blast
qed

theorem crews_report_what_happened_witness:
  "\<exists>sim f y fs' snap. Simulator_New demo_run_config demo_new_clock = Inr sim \<and> all_gone_home f
    \<and> Simulator_Run (\<lambda>_. Inr ()) (\<lambda>fs _ _. (fs, None)) (joinCrews f) demo_run_clock
        (launch sim demo_window (\<lambda>_. demo_handler_clock)) () = (y, fs', Inr snap)
    \<and> ms_TotalRequests snap = 1 \<and> requestCount (sn_simulator y) = 1
    \<and> ms_FailedRequests snap = w64 (\<Sum>c\<leftarrow>sim_clients (sn_simulator y). cv_FailedRequests (Client_Stats c))
    \<and> ms_RateLimitedRequests snap = w64 (sum_stat srv_rateLimitedRequests (sim_servers_of y))"
proof -
  obtain sim where sim: "Simulator_New demo_run_config demo_new_clock = Inr sim" using demo_run_sim by blast
  obtain f where f: "fleet_run demo_allow (worker_params demo_run_config) (demo_fleet sim) f" "all_left f" "\<not> fl_cancelled f"
    using demo_fleet_run [OF sim] by blast
  have run: "crews_run demo_allow (worker_params demo_run_config)
      (startCrews (\<lambda>_. now_at 0 0) (run_start demo_run_clock (launch sim demo_window (\<lambda>_. demo_handler_clock)))) (embed_fleet f)"
    unfolding startCrews_def using fleet_run_crews [OF f(1) start_has_room [OF sim]] by blast
  have s: "RequestsPerClient (Clients demo_run_config) + wp_maxConcurrency (worker_params demo_run_config) + 1 < 2 ^ 63"
    "RequestsPerClient (Clients demo_run_config) = 1" "cc_Count (Clients demo_run_config) = 1"
    by (simp_all add: demo_run_config_def worker_params_def)
  have w: "w64 1 = 1" "\<not> cw_cancelled (embed_fleet f)" using f(3) by (simp_all add: w64_id in64_def embed_fleet_def)
  show ?thesis
    using crews_report_what_happened [OF sim run embed_gone_home [OF f(2)] s(1), of "\<lambda>_. Inr ()" "\<lambda>fs _ _. (fs, None)" "()"]
      sim embed_gone_home [OF f(2)] w
    unfolding s(2,3) by force
qed

end
