(* ===== verification/Spec2Isabelle.thy ===== *)
theory Spec2Isabelle
  imports Ownership CallsPool Remote Crews
begin

text \<open>
  A verification library for \<^verbatim>\<open>qps-simulator\<close>, a Go program that simulates clients sending
  requests through a load balancer to rate limited servers, in one process, and measures what
  comes back.

  \<^bold>\<open>The program and the theories.\<close> A configuration (\<^verbatim>\<open>pkg/config\<close>) is turned by
  \<^verbatim>\<open>simulator.New\<close> into a load balancer (\<^verbatim>\<open>pkg/loadbalancer\<close>), a rate limiter
  (\<^verbatim>\<open>pkg/ratelimiter\<close>), servers (\<^verbatim>\<open>pkg/server\<close>), clients with connection pools
  (\<^verbatim>\<open>pkg/client\<close>) and a metrics collector (\<^verbatim>\<open>pkg/metrics\<close>). \<^verbatim>\<open>Run\<close> starts the
  workers of every client; a worker calls \<^verbatim>\<open>Client.Send\<close>, which takes a connection from the
  pool or opens one to a server the balancer picks, and sends through the transport to
  \<^verbatim>\<open>Server.HandleRequest\<close>, which asks the limiter.

  \<^item> \<open>Prelude\<close>: Go's integers (\<open>w64\<close> is the wrap-around of \<^verbatim>\<open>int64\<close>), \<^verbatim>\<open>time.Time\<close> with
    its two clocks, the error values, counting of goroutines, decimal numbers.
  \<^item> \<open>GoFloat\<close>: \<^verbatim>\<open>float64\<close> as rationals with every operation rounded to nearest, ties to
    even, at 53 bits; conversions to and from \<^verbatim>\<open>int64\<close>.
  \<^item> \<open>Types\<close>: the data of \<^verbatim>\<open>pkg/types\<close>. \<open>Shards\<close>: \<^verbatim>\<open>baseLimiter\<close>, the sharded maps
    and FNV-1a. \<open>LimiterSpec\<close>: the locales of a keyed limiter and the facts about its runs.
  \<^item> \<open>FixedWindow\<close>, \<open>SlidingWindow\<close>, \<open>TokenBucket\<close>, \<open>LeakyBucket\<close>: the four limiters of
    \<^verbatim>\<open>limiter.go\<close>; \<open>Registry\<close>: \<^verbatim>\<open>Register\<close>, \<^verbatim>\<open>Create\<close> and the calls through the interface.
  \<^item> \<open>RemoteTokens\<close>, \<open>LocalCached\<close>: \<^verbatim>\<open>localcached.go\<close>, the second with every interleaving of
    its goroutines. \<open>Remote\<close>: \<^verbatim>\<open>remote/remote.go\<close>.
  \<^item> \<open>Balancer\<close>: \<^verbatim>\<open>balancer.go\<close>. \<open>Config\<close>: \<^verbatim>\<open>config.go\<close>.
  \<^item> \<open>Server\<close>: \<^verbatim>\<open>server.go\<close>, sequentially and interleaved.
  \<^item> \<open>Pool\<close>: \<^verbatim>\<open>connection.go\<close>, sequentially and interleaved; \<open>Client\<close>: \<^verbatim>\<open>client.go\<close>;
    \<open>Transports\<close>: what a client can do to a transport. \<open>Calls\<close>: \<^verbatim>\<open>Send\<close> by many goroutines,
    one access to shared state at a time; \<open>CallsPool\<close>: that these calls are callers of the pool.
  \<^item> \<open>Metrics\<close>: \<^verbatim>\<open>metrics.go\<close> and \<^verbatim>\<open>filewriter.go\<close>; \<open>Recorders\<close>: the recorders interleaved.
  \<^item> \<open>Simulator\<close>: \<^verbatim>\<open>New\<close> and the transport of \<^verbatim>\<open>simulator.go\<close>; \<open>Workers\<close>: \<^verbatim>\<open>runClient\<close>,
    interleaved; \<open>Lifecycle\<close>: \<^verbatim>\<open>Run\<close>, \<^verbatim>\<open>Stop\<close>, the reporter and \<^verbatim>\<open>main\<close>.
  \<^item> \<open>Ledger\<close>: the books between servers, a client and the collector; \<open>Fleet\<close>: all clients of a run
    at once, from the start of \<^verbatim>\<open>Run\<close> to its result; \<open>Ownership\<close>: who holds which connection.
  \<^item> \<open>Crew\<close>: the workers of a client with every call of \<^verbatim>\<open>Send\<close> opened up into its actions;
    \<open>Crews\<close>: the same for all clients of a run, up to the result that \<^verbatim>\<open>Run\<close> reports.

  \<^bold>\<open>How the code is rendered.\<close> A struct is a record, a method a function of the record that
  returns it changed, a Go error the left side of a sum. A critical section is one function; the
  clock readings and random choices of a call are arguments, so that theorems hold for all of
  them. Objects reached by several pointers (connections, the buckets of the collector, the
  limiters of the servers) are in lists, and a pointer is an index. Where goroutines interleave
  between critical sections there is an inductive step relation over a map from goroutines to
  places, whose steps are the sequential functions: \<open>lc_step\<close>, \<open>srv_step\<close>, \<open>pool_step\<close>,
  \<open>send_step\<close>, \<open>worker_step\<close>, \<open>rec_step\<close>; \<open>fleet_step\<close> puts the workers of all clients side by side, and a
  run of it is a run of \<open>clients_step\<close>, which the life cycle starts from. In \<open>worker_step\<close> and
  \<open>fleet_step\<close> a call of \<^verbatim>\<open>Send\<close> is one action; \<open>crew_step\<close> and \<open>crews_step\<close> join the workers with
  \<open>send_step\<close>, so that any number of them are inside of a call at once.
  Interfaces are locales, interpreted on the models: the limiter
  (\<open>rate_limiter\<close>, with one interpretation for all types \<^verbatim>\<open>Create\<close> makes), the balancer
  (\<open>load_balancer\<close>, for each algorithm and for the interface value) and the transport
  (\<open>transport_close\<close>, \<open>transport_invariant\<close> and \<open>transport_measure\<close>, for what a client can do to
  its state).

  \<^bold>\<open>What is shown.\<close>
  \<^item> Limiters: the quota of the fixed window and its exact decision; that the sliding window
    decides as the fixed window; the level, the budget with a rounding slack and, in the range
    where floating point is exact, the integer bucket that the token bucket refines; the leaky
    bucket as a token bucket; bounded debt and conservation of the remote tokens; single flight,
    absence of deadlock, conservation and return for the local cache; isolation of keys and
    irrelevance of the shards for every limiter.
  \<^item> Balancers: a pick is healthy and registered, fairness of round robin and of the weights,
    the minimum of least connections.
  \<^item> Server, pool, client: the accounting of all counters under every interleaving; what a request
    gets and does on every branch of the handler; the limit of connections, one user for every connection, the bound on concurrent calls; the calls of a client
    refine the pool, and the call as one function is what a goroutine does that is alone.
  \<^item> Metrics: what a snapshot reports of a second, the ranks of the percentiles, and that
    no request is lost or misplaced however the recorders interleave.
  \<^item> Simulator: a configuration that loads can be built and routed; a server recycles its
    connections at the configured count; the workers send exactly the configured requests; the
    outcomes of \<^verbatim>\<open>Run\<close> and \<^verbatim>\<open>Stop\<close> in any order; request identifiers are unique.
  \<^item> The whole: however the actions inside of the calls of all clients interleave, the final result
    that \<^verbatim>\<open>Run\<close> reports is what the servers did and the clients counted, with every configured
    request sent; the runs with a call as one action are among these; no connection has two owners.

  Some theorems describe behaviour that the code does not intend: the window that does not slide,
  lost wake-ups of the pool, the endless loop at \<^verbatim>\<open>prefetch_count: 0\<close>, the panic of the second stop. The lemmas \<open>fixed_window_overflow\<close>,
  \<open>dedicated_leak\<close>, \<open>least_connections_first_only\<close>, \<open>remote_burst_not_enforced\<close>, \<open>server_close_ignored\<close>,
  \<open>snapshot_before_rotation\<close> and \<open>start_failure_sticks\<close> record smaller ones.

  \<^bold>\<open>Bounds and fuel.\<close> \<open>local_cached_AllowN\<close> takes the clocks of its passes as a list, one entry
  per pass; two passes are shown to be enough when the batch covers the cost, and no number is
  when the batch is empty. \<open>pool\<close> and \<open>client\<close> operations return \<open>None\<close> for a caller that
  sleeps. All other loops are structural. Hypotheses of the form \<open>x < 2 ^ 63\<close> say that a Go
  \<^verbatim>\<open>int\<close> is one.

  \<^bold>\<open>Not modelled.\<close> Printing, the JSON and YAML encoders, files, sockets and gRPC are arguments or
  left out; so are the infinities of \<^verbatim>\<open>float64\<close>, which the limiters cannot reach, and
  \<^verbatim>\<open>MetricsSnapshot.String\<close>. A call of the transport, with the handler behind
  it, and a record in the collector are one step of a worker; the interleavings inside of them are
  those of \<open>srv_step\<close> and \<open>rec_step\<close>. \<^verbatim>\<open>Stop\<close> is not interleaved with the workers of a run, only the
  cancellation of their context is. The sleeps of the handlers are outputs without effect on the
  clock.
\<close>

end
